(* ===== verification/Prelude.thy ===== *)
theory Prelude
  imports Main "HOL-Library.Word"
begin

unbundle bit_operations_syntax

text \<open>
  Shared vocabulary of the development: bytes and byte strings, the slice and
  copy operations that Go code performs on byte slices, little-endian integer
  encoding (encoding/binary's LittleEndian), and the error-or-value results every
  fallible Go function returns.
\<close>

section \<open>Types\<close>

type_synonym byte = "8 word"
type_synonym bytes = "byte list"
type_synonym u16 = "16 word"
type_synonym u32 = "32 word"
type_synonym u64 = "64 word"

named_theorems layout_simps
  \<open>length and slice facts about byte buffers that are written field by field\<close>

section \<open>Results\<close>

text \<open>
  A Go function returning (value, error) is a function into a sum: Inl carries the
  error, Inr the value.  The combinator sequences two such calls the way
  an early return on err != nil does.
\<close>

definition bindE :: "'e + 'a \<Rightarrow> ('a \<Rightarrow> 'e + 'b) \<Rightarrow> 'e + 'b" where
  "bindE m f = (case m of Inl e \<Rightarrow> Inl e | Inr x \<Rightarrow> f x)"

lemma bindE_Inl [simp]: "bindE (Inl e) f = Inl e"
  by (simp add: bindE_def)

lemma bindE_Inr [simp]: "bindE (Inr x) f = f x"
  by (simp add: bindE_def)

lemma bindE_eq_Inr_iff: "bindE m f = Inr y \<longleftrightarrow> (\<exists>x. m = Inr x \<and> f x = Inr y)"
  by (cases m) auto

lemma bindE_eq_Inl_iff:
  "bindE m f = Inl e \<longleftrightarrow> m = Inl e \<or> (\<exists>x. m = Inr x \<and> f x = Inl e)"
  by (cases m) auto

lemma bindE_Inr_E [elim!]:
  assumes "bindE m f = Inr y"
  obtains x where "m = Inr x" "f x = Inr y"
  using assms by (auto simp: bindE_eq_Inr_iff)

section \<open>Byte slices\<close>

text \<open>
  The slice expression b[i : i+n], and copy(b[i:], xs), which overwrites the bytes
  of b from offset i on and stops at the end of b.
\<close>

definition sub :: "'a list \<Rightarrow> nat \<Rightarrow> nat \<Rightarrow> 'a list" where
  "sub b i n = take n (drop i b)"

definition put :: "'a list \<Rightarrow> nat \<Rightarrow> 'a list \<Rightarrow> 'a list" where
  "put b i xs = take (length b) (take i b @ xs @ drop (i + length xs) b)"

lemma length_sub: "length (sub b i n) = min n (length b - i)"
  by (simp add: sub_def)

lemma sub_0 [simp]: "sub b i 0 = []"
  by (simp add: sub_def)

lemma length_sub_in [layout_simps, simp]: "i + n \<le> length b \<Longrightarrow> length (sub b i n) = n"
  by (simp add: sub_def)

lemma length_put [layout_simps, simp]: "length (put b i xs) = length b"
  by (auto simp: put_def)

lemma put_in: "i + length xs \<le> length b \<Longrightarrow> put b i xs = take i b @ xs @ drop (i + length xs) b"
  by (cases xs) (auto simp: put_def min_def)

lemma nth_put:
  "k < length b \<Longrightarrow>
    put b i xs ! k = (if i \<le> k \<and> k < i + length xs then xs ! (k - i) else b ! k)"
  by (auto simp: put_def nth_append min_def)

lemma nth_sub: "k < n \<Longrightarrow> i + n \<le> length b \<Longrightarrow> sub b i n ! k = b ! (i + k)"
  by (simp add: sub_def)

lemma sub_put_same [layout_simps]:
  "i + length xs \<le> length b \<Longrightarrow> n = length xs \<Longrightarrow> sub (put b i xs) i n = xs"
  by (simp add: sub_def put_def min_def)

lemma sub_put_before [layout_simps]:
  assumes "i + n \<le> j" shows "sub (put b j xs) i n = sub b i n"
proof (rule nth_equalityI)
  show "length (sub (put b j xs) i n) = length (sub b i n)"
    by (simp add: length_sub)
next
  fix k assume "k < length (sub (put b j xs) i n)"
  then have k: "k < n" "i + k < length b"
    by (auto simp: length_sub)
  then show "sub (put b j xs) i n ! k = sub b i n ! k"
    using assms by (simp add: sub_def nth_put)
qed

lemma sub_put_after [layout_simps]:
  assumes "j + length xs \<le> i" shows "sub (put b j xs) i n = sub b i n"
proof (rule nth_equalityI)
  show "length (sub (put b j xs) i n) = length (sub b i n)"
    by (simp add: length_sub)
next
  fix k assume "k < length (sub (put b j xs) i n)"
  then have k: "k < n" "i + k < length b"
    by (auto simp: length_sub)
  then show "sub (put b j xs) i n ! k = sub b i n ! k"
    using assms by (simp add: sub_def nth_put)
qed

lemma sub_append_left [layout_simps]: "i + n \<le> length a \<Longrightarrow> sub (a @ b) i n = sub a i n"
  by (simp add: sub_def)

lemma sub_append_right [layout_simps]: "length a \<le> i \<Longrightarrow> sub (a @ b) i n = sub b (i - length a) n"
  by (simp add: sub_def)

lemma sub_all: "length b = n \<Longrightarrow> sub b 0 n = b"
  by (simp add: sub_def)

lemma sub_sub: "j + m \<le> n \<Longrightarrow> sub (sub b i n) j m = sub b (i + j) m"
  by (simp add: sub_def take_drop add.commute min_def)

lemma take_put_before: "n \<le> i \<Longrightarrow> take n (put b i xs) = take n b"
  using sub_put_before [of 0 n i b xs] by (simp add: sub_def)

lemma put_disjoint_commute:
  assumes "i + length xs \<le> j \<or> j + length ys \<le> i"
  shows "put (put b i xs) j ys = put (put b j ys) i xs"
  using assms by (intro nth_equalityI) (auto simp: nth_put)

lemma word_xor_cancel [simp]:
  fixes a b c :: "'a::len word"
  shows "a XOR c = b XOR c \<longleftrightarrow> a = b" and "c XOR a = c XOR b \<longleftrightarrow> a = b"
  by (metis xor.assoc xor.commute xor_self_eq xor.right_neutral)+

section \<open>Little-endian integers\<close>

text \<open>
  binary.LittleEndian: PutUintN writes the N/8 bytes of a word from the least
  significant one up, UintN reads them back.
\<close>

primrec le_bytes :: "nat \<Rightarrow> 'a::len word \<Rightarrow> bytes" where
  "le_bytes 0 w = []"
| "le_bytes (Suc n) w = ucast w # le_bytes n (drop_bit 8 w)"

primrec le_word :: "bytes \<Rightarrow> 'a::len word" where
  "le_word [] = 0"
| "le_word (b # bs) = ucast b OR push_bit 8 (le_word bs)"

lemma length_le_bytes [layout_simps, simp]: "length (le_bytes n w) = n"
  by (induction n arbitrary: w) auto

lemma le_word_le_bytes: "le_word (le_bytes n w) = take_bit (8 * n) (w :: 'a::len word)"
proof (induction n arbitrary: w)
  case 0
  then show ?case by simp
next
  case (Suc n)
  show ?case
    unfolding le_bytes.simps le_word.simps Suc
    by (rule bit_word_eqI)
      (auto simp: bit_simps)
qed

lemma le_word_le_bytes_full [simp]:
  "LENGTH('a) \<le> 8 * n \<Longrightarrow> le_word (le_bytes n w) = (w :: 'a::len word)"
  by (simp add: le_word_le_bytes take_bit_word_eq_self)

lemma le_bytes_cong:
  "take_bit (8 * n) x = take_bit (8 * n) y \<Longrightarrow> le_bytes n x = le_bytes n (y :: 'a::len word)"
proof (induction n arbitrary: x y)
  case 0
  then show ?case by simp
next
  case (Suc n)
  have e: "bit x k \<longleftrightarrow> bit y k" if "k < 8 * Suc n" for k
    using Suc.prems that by (metis bit_take_bit_iff)
  have "ucast x = (ucast y :: byte)"
    by (rule bit_word_eqI) (auto simp: bit_simps e)
  moreover have "take_bit (8 * n) (drop_bit 8 x) = take_bit (8 * n) (drop_bit 8 y)"
    by (rule bit_word_eqI) (auto simp: bit_simps e)
  then have "le_bytes n (drop_bit 8 x) = le_bytes n (drop_bit 8 y)"
    by (rule Suc.IH)
  ultimately show ?case by (simp only: le_bytes.simps)
qed

lemma le_bytes_le_word:
  "8 * length bs \<le> LENGTH('a) \<Longrightarrow> le_bytes (length bs) (le_word bs :: 'a::len word) = bs"
proof (induction bs)
  case Nil
  then show ?case by simp
next
  case (Cons b bs)
  let ?w = "ucast b OR push_bit 8 (le_word bs :: 'a word)"
  have 1: "ucast ?w = b"
    using Cons.prems by (intro bit_word_eqI) (auto simp: bit_simps)
  have "take_bit (8 * length bs) (drop_bit 8 ?w) = take_bit (8 * length bs) (le_word bs)"
    using Cons.prems by (intro bit_word_eqI) (auto simp: bit_simps dest: bit_imp_le_length)
  then have 2: "le_bytes (length bs) (drop_bit 8 ?w) = le_bytes (length bs) (le_word bs :: 'a word)"
    by (rule le_bytes_cong)
  from Cons.prems have "8 * length bs \<le> LENGTH('a)" by simp
  then have "le_bytes (length bs) (le_word bs :: 'a word) = bs" by (rule Cons.IH)
  with 1 2 show ?case by (simp only: le_word.simps le_bytes.simps list.size(4) add_0_right add_Suc_right plus_1_eq_Suc)
qed

definition PutUint16 :: "bytes \<Rightarrow> nat \<Rightarrow> u16 \<Rightarrow> bytes" where
  "PutUint16 b i w = put b i (le_bytes 2 w)"

definition PutUint32 :: "bytes \<Rightarrow> nat \<Rightarrow> u32 \<Rightarrow> bytes" where
  "PutUint32 b i w = put b i (le_bytes 4 w)"

definition PutUint64 :: "bytes \<Rightarrow> nat \<Rightarrow> u64 \<Rightarrow> bytes" where
  "PutUint64 b i w = put b i (le_bytes 8 w)"

definition Uint16 :: "bytes \<Rightarrow> nat \<Rightarrow> u16" where
  "Uint16 b i = le_word (sub b i 2)"

definition Uint32 :: "bytes \<Rightarrow> nat \<Rightarrow> u32" where
  "Uint32 b i = le_word (sub b i 4)"

definition Uint64 :: "bytes \<Rightarrow> nat \<Rightarrow> u64" where
  "Uint64 b i = le_word (sub b i 8)"

definition byte_at :: "bytes \<Rightarrow> nat \<Rightarrow> byte" where
  "byte_at b i = le_word (sub b i 1)"

definition put_byte :: "bytes \<Rightarrow> nat \<Rightarrow> byte \<Rightarrow> bytes" where
  "put_byte b i w = put b i [w]"

lemmas int_layout_defs =
  PutUint16_def PutUint32_def PutUint64_def Uint16_def Uint32_def Uint64_def
  byte_at_def put_byte_def

lemma le_word_single [simp]: "le_word [b] = (b :: byte)"
  by simp

lemma byte_at_nth: "i < length b \<Longrightarrow> byte_at b i = b ! i"
  by (simp add: byte_at_def sub_def take_Suc_conv_app_nth flip: Cons_nth_drop_Suc)

end
