(* ===== verification/Crc32c.thy ===== *)
theory Crc32c
  imports Prelude
begin

unbundle bit_operations_syntax

text \<open>
  The CRC32C of engine/f3/akifile/format.go.  The Go code calls hash/crc32 with the
  Castagnoli table; the table and the byte-at-a-time update of that package are
  written out here, then crc32c and checksum as format.go has them.  The lemmas show
  that the register update is linear over XOR and injective, so that a change confined
  to four consecutive bytes always changes the checksum.
\<close>

section \<open>hash/crc32: the Castagnoli table and Update\<close>

definition castagnoli_poly :: u32 where
  "castagnoli_poly = 0x82f63b78"

definition crc_bit :: "u32 \<Rightarrow> u32" where
  "crc_bit c = (if bit c 0 then drop_bit 1 c XOR castagnoli_poly else drop_bit 1 c)"

definition crc_table :: "byte \<Rightarrow> u32" where
  "crc_table i = (crc_bit ^^ 8) (ucast i)"

definition crc_byte :: "u32 \<Rightarrow> byte \<Rightarrow> u32" where
  "crc_byte c v = crc_table (ucast c XOR v) XOR drop_bit 8 c"

definition crc_update :: "u32 \<Rightarrow> bytes \<Rightarrow> u32" where
  "crc_update c p = NOT (foldl crc_byte (NOT c) p)"

section \<open>format.go: crc32c over spans\<close>

definition crc32c :: "bytes list \<Rightarrow> u32" where
  "crc32c spans = foldl crc_update 0 spans"

section \<open>The register update is linear and injective\<close>

lemma crc_bit_xor: "crc_bit (a XOR b) = crc_bit a XOR crc_bit b"
  unfolding crc_bit_def
  by (rule bit_word_eqI) (auto simp: bit_simps)

lemma crc_bits_xor: "(crc_bit ^^ n) (a XOR b) = (crc_bit ^^ n) a XOR (crc_bit ^^ n) b"
  by (induction n) (simp_all add: crc_bit_xor)

lemma bit_poly_31: "bit castagnoli_poly 31"
  by (simp add: castagnoli_poly_def)

lemma crc_bit_top: "bit (crc_bit c) 31 \<longleftrightarrow> bit c 0"
  using bit_poly_31 by (auto simp: crc_bit_def bit_simps dest: bit_imp_le_length)

lemma crc_bit_inj: "crc_bit a = crc_bit b \<longleftrightarrow> a = b"
proof
  assume eq: "crc_bit a = crc_bit b"
  then have b0: "bit a 0 \<longleftrightarrow> bit b 0" by (metis crc_bit_top)
  with eq have d: "drop_bit 1 a = drop_bit 1 b"
    by (auto simp: crc_bit_def split: if_splits)
  show "a = b"
  proof (rule bit_word_eqI)
    fix n assume "n < LENGTH(32)"
    show "bit a n \<longleftrightarrow> bit b n"
    proof (cases n)
      case 0
      then show ?thesis using b0 by simp
    next
      case (Suc m)
      have "bit (drop_bit 1 a) m \<longleftrightarrow> bit (drop_bit 1 b) m" using d by simp
      then show ?thesis by (simp add: bit_simps Suc)
    qed
  qed
qed simp

lemma crc_bits_inj [simp]: "(crc_bit ^^ n) a = (crc_bit ^^ n) b \<longleftrightarrow> a = b"
  by (induction n) (simp_all add: crc_bit_inj)

lemma crc_bits_shift:
  "(\<forall>k<n. \<not> bit a k) \<Longrightarrow> (crc_bit ^^ n) a = drop_bit n a"
proof (induction n)
  case 0
  then show ?case by simp
next
  case (Suc n)
  then have "(crc_bit ^^ n) a = drop_bit n a" by simp
  moreover have "\<not> bit (drop_bit n a) 0" using Suc.prems by (simp add: bit_simps)
  then have "crc_bit (drop_bit n a) = drop_bit (Suc n) a" by (simp add: crc_bit_def)
  ultimately show ?case by simp
qed

lemma crc_bits_push:
  assumes "a = take_bit (32 - n) a" "n \<le> 32"
  shows "(crc_bit ^^ n) (push_bit n a) = a"
proof -
  have "(crc_bit ^^ n) (push_bit n a) = drop_bit n (push_bit n a)"
    by (rule crc_bits_shift) (simp add: bit_simps)
  also have "\<dots> = a"
  proof (rule bit_word_eqI)
    fix k assume k: "k < LENGTH(32)"
    have "bit a k \<Longrightarrow> k < 32 - n" by (metis assms(1) bit_take_bit_iff)
    then show "bit (drop_bit n (push_bit n a)) k \<longleftrightarrow> bit a k"
      using k by (auto simp: bit_simps)
  qed
  finally show ?thesis .
qed

lemma crc_byte_bits: "crc_byte c v = (crc_bit ^^ 8) (c XOR ucast v)"
proof -
  have split: "c XOR ucast v = ucast (ucast c XOR v) XOR push_bit 8 (drop_bit 8 c)"
    by (rule bit_word_eqI) (auto simp: bit_simps dest: bit_imp_le_length)
  have "drop_bit 8 c = take_bit (32 - 8) (drop_bit 8 c)"
    by (rule bit_word_eqI) (auto simp: bit_simps dest: bit_imp_le_length)
  then have "(crc_bit ^^ 8) (push_bit 8 (drop_bit 8 c)) = drop_bit 8 c"
    by (rule crc_bits_push) simp
  then show ?thesis
    unfolding crc_byte_def crc_table_def split crc_bits_xor by simp
qed

lemma crc_byte_inj_state: "crc_byte a v = crc_byte b v \<longleftrightarrow> a = b"
  by (simp add: crc_byte_bits)

lemma crc_fold_inj_state: "foldl crc_byte a p = foldl crc_byte b p \<longleftrightarrow> a = b"
  by (induction p arbitrary: a b) (simp_all add: crc_byte_inj_state)

lemma le_word_take: "length bs \<le> k \<Longrightarrow> take_bit (8 * k) (le_word bs) = (le_word bs :: u32)"
proof (induction bs arbitrary: k)
  case Nil
  then show ?case by simp
next
  case (Cons b bs)
  then obtain j where k: "k = Suc j" "length bs \<le> j" by (cases k) auto
  from Cons.IH [OF k(2)] have e: "bit (le_word bs :: u32) n \<Longrightarrow> n < 8 * j" for n
    by (metis bit_take_bit_iff)
  show ?case
    unfolding k(1) le_word.simps
    by (rule bit_word_eqI) (auto simp: bit_simps dest: bit_imp_le_length e)
qed

text \<open>
  Feeding a window of at most four bytes is one power of the bit step applied to the
  register XORed with the window read as a little-endian word.
\<close>

lemma crc_fold_window:
  "length w \<le> 4 \<Longrightarrow>
    foldl crc_byte c w = (crc_bit ^^ (8 * length w)) (c XOR le_word w)"
proof (induction w arbitrary: c)
  case Nil
  then show ?case by simp
next
  case (Cons b bs)
  let ?r = "le_word bs :: u32"
  from Cons.prems have len: "length bs \<le> 3" by simp
  have "?r = take_bit (32 - 8) ?r" using le_word_take [OF len] by simp
  then have push: "(crc_bit ^^ 8) (push_bit 8 ?r) = ?r"
    by (rule crc_bits_push) simp
  have word: "le_word (b # bs) = ucast b XOR push_bit 8 ?r"
    by (rule bit_word_eqI) (auto simp: bit_simps dest: bit_imp_le_length)
  have "foldl crc_byte c (b # bs) = (crc_bit ^^ (8 * length bs)) (crc_byte c b XOR ?r)"
    using Cons.IH len by simp
  also have "crc_byte c b XOR ?r = (crc_bit ^^ 8) (c XOR le_word (b # bs))"
    using push by (simp only: crc_byte_bits word crc_bits_xor xor.assoc)
  finally have "foldl crc_byte c (b # bs)
      = (crc_bit ^^ (8 * length bs + 8)) (c XOR le_word (b # bs))"
    by (simp only: funpow_add o_apply)
  moreover have "8 * length bs + 8 = 8 * length (b # bs)" by simp
  ultimately show ?case by metis
qed

lemma crc_window_inj:
  assumes "length u = length v" "length u \<le> 4" "foldl crc_byte c u = foldl crc_byte c v"
  shows "u = v"
proof -
  have "c XOR le_word u = c XOR (le_word v :: u32)"
    using assms by (simp add: crc_fold_window)
  then have "le_word u = (le_word v :: u32)" by (simp only: word_xor_cancel)
  moreover have "le_bytes (length u) (le_word u :: u32) = u" "le_bytes (length v) (le_word v :: u32) = v"
    by (rule le_bytes_le_word, use assms(1,2) in simp)+
  ultimately show ?thesis using assms(1) by metis
qed

lemma crc32c_single: "crc32c [b] = NOT (foldl crc_byte (NOT 0) b)"
  by (simp add: crc32c_def crc_update_def)

lemma crc32c_concat: "crc32c spans = crc32c [concat spans]"
proof -
  have "foldl crc_update c spans = NOT (foldl crc_byte (NOT c) (concat spans))" for c
    by (induction spans arbitrary: c) (simp_all add: crc_update_def)
  then show ?thesis by (simp add: crc32c_def crc_update_def)
qed

lemma crc32c_window:
  assumes "length u = length v" "length u \<le> 4" "u \<noteq> v"
  shows "crc32c [p @ u @ s] \<noteq> crc32c [p @ v @ s]"
proof
  assume "crc32c [p @ u @ s] = crc32c [p @ v @ s]"
  then have "foldl crc_byte (foldl crc_byte (NOT 0) p) u = foldl crc_byte (foldl crc_byte (NOT 0) p) v"
    by (simp add: crc32c_single crc_fold_inj_state)
  then show False using crc_window_inj assms by blast
qed

end
