(* ===== verification/Format.thy ===== *)
theory Format
  imports Crc32c
begin

unbundle bit_operations_syntax

text \<open>
  engine/f3/akifile/format.go: the layout constants, segment and extent kinds, the
  error values, the checksum selector and the 4KiB segment grid arithmetic.  Go's
  untyped constants are polymorphic abbreviations, so that one name serves as a byte
  count and as a uint64 offset.
\<close>

section \<open>Layout constants\<close>

definition ascii :: "string \<Rightarrow> bytes" where
  "ascii s = map of_char s"

lemma length_ascii [simp]: "length (ascii s) = length s"
  by (simp add: ascii_def)

abbreviation (input) Magic :: bytes where
  "Magic \<equiv> ascii ''AKI store v3'' @ [0, 0, 0, 0]"

abbreviation (input) FormatMajor :: "'a::numeral" where "FormatMajor \<equiv> 3"
abbreviation (input) FormatMinor :: "'a::zero" where "FormatMinor \<equiv> 0"
abbreviation (input) PageSize :: "'a::numeral" where "PageSize \<equiv> 16384"
abbreviation (input) SegmentAlign :: "'a::numeral" where "SegmentAlign \<equiv> 4096"
abbreviation (input) SlotCount :: "'a::numeral" where "SlotCount \<equiv> 16384"
abbreviation (input) PrefixSize :: "'a::numeral" where "PrefixSize \<equiv> 100"
abbreviation (input) MetaSlotSize :: "'a::numeral" where "MetaSlotSize \<equiv> 128"
abbreviation (input) SRTHeaderLen :: "'a::numeral" where "SRTHeaderLen \<equiv> 40"
abbreviation (input) SRTRowSize :: "'a::numeral" where "SRTRowSize \<equiv> 80"
abbreviation (input) SegHeaderLen :: "'a::numeral" where "SegHeaderLen \<equiv> 64"
abbreviation (input) ExtentSize :: "'a::numeral" where "ExtentSize \<equiv> 24"
abbreviation (input) MetaSlotAOff :: "'a::numeral" where "MetaSlotAOff \<equiv> 4096"
abbreviation (input) MetaSlotBOff :: "'a::numeral" where "MetaSlotBOff \<equiv> 8192"

abbreviation (input) ChecksumCRC32C :: u32 where "ChecksumCRC32C \<equiv> 1"
abbreviation (input) ChecksumXXH3 :: u32 where "ChecksumXXH3 \<equiv> 2"

abbreviation (input) KindLog :: u16 where "KindLog \<equiv> 0"
abbreviation (input) KindColdChunk :: u16 where "KindColdChunk \<equiv> 1"
abbreviation (input) KindValueLog :: u16 where "KindValueLog \<equiv> 2"
abbreviation (input) KindIndexCkpt :: u16 where "KindIndexCkpt \<equiv> 3"
abbreviation (input) KindChunkDir :: u16 where "KindChunkDir \<equiv> 4"
abbreviation (input) KindSegStats :: u16 where "KindSegStats \<equiv> 5"
abbreviation (input) KindSRT :: u16 where "KindSRT \<equiv> 6"
abbreviation (input) KindExtentTable :: u16 where "KindExtentTable \<equiv> 7"
abbreviation (input) KindFreeMap :: u16 where "KindFreeMap \<equiv> 8"
abbreviation (input) KindBarrier :: u16 where "KindBarrier \<equiv> 9"
abbreviation (input) KindTTLIndex :: u16 where "KindTTLIndex \<equiv> 10"
abbreviation (input) KindMetaKV :: u16 where "KindMetaKV \<equiv> 11"
abbreviation (input) KindFree :: u16 where "KindFree \<equiv> 12"

abbreviation (input) ShardOwnerless :: u16 where "ShardOwnerless \<equiv> 0xFFFF"

section \<open>Errors\<close>

text \<open>
  The error values of the package, the io errors its device calls surface (EOF,
  ErrShortWrite, and ErrDevice for a failure of the medium), and Panic for a Go
  run-time panic, so that a theorem can say that a decoder never panics.
\<close>

datatype err =
    ErrMagic | ErrMajor | ErrChecksumKind | ErrChecksum | ErrShort | ErrLength
  | ErrCheckpoint | ErrShardCount | ErrReadOnly | ErrSegStats | ErrChunkDir
  | ErrBarrier | ErrNoBarrier | ErrSnapshotWatermark | ErrStopScan
  | EOF | ErrShortWrite | ErrDevice | Panic

section \<open>Run-time checked slices and allocation\<close>

text \<open>
  b[lo:hi] panics when the bounds do not lie inside b, and make([]byte, n) panics when
  n exceeds the runtime's allocation bound (1 shifted left by 48 on 64-bit targets).
\<close>

definition slice :: "bytes \<Rightarrow> nat \<Rightarrow> nat \<Rightarrow> err + bytes" where
  "slice b lo hi = (if lo \<le> hi \<and> hi \<le> length b then Inr (sub b lo (hi - lo)) else Inl Panic)"

definition maxAlloc :: nat where
  "maxAlloc = 2 ^ 48"

definition make_bytes :: "u64 \<Rightarrow> err + bytes" where
  "make_bytes n = (if unat n \<le> maxAlloc then Inr (replicate (unat n) 0) else Inl Panic)"

text \<open>make([]T, n) for elements of sz bytes: what it returns is overwritten or appended to by its callers.\<close>

definition make_slice :: "nat \<Rightarrow> nat \<Rightarrow> err + unit" where
  "make_slice n sz = (if n * sz \<le> maxAlloc then Inr () else Inl Panic)"

text \<open>
  The sum of two uint64 offsets that the model keeps as nat, and the lists a Go slice can hold.  A
  longer list is no argument of the code: the frame readers, whose sums would wrap on it, map it to
  Panic and so need no bound for the termination of their loops.
\<close>

definition add64 :: "nat \<Rightarrow> nat \<Rightarrow> nat" where
  "add64 a b = (a + b) mod 2 ^ 64"

definition go_slice :: "bytes \<Rightarrow> bool" where
  "go_slice b \<longleftrightarrow> length b \<le> maxAlloc"

lemma add64_ok: "a + b < 2 ^ 64 \<Longrightarrow> add64 a b = a + b"
  by (simp add: add64_def)

lemma frame_sums:
  assumes "go_slice pl" "a \<le> length pl" "l \<le> length pl"
  shows "add64 a l = a + l" "add64 (a + l) 4 = a + l + 4" "add64 a 4 = a + 4"
  using assms by (simp_all add: add64_ok go_slice_def maxAlloc_def)

lemma slice_ok [simp]: "lo \<le> hi \<Longrightarrow> hi \<le> length b \<Longrightarrow> slice b lo hi = Inr (sub b lo (hi - lo))"
  by (simp add: slice_def)

section \<open>Checksums\<close>

definition checksum :: "u32 \<Rightarrow> bytes list \<Rightarrow> u64 option" where
  "checksum kind spans = (if kind = ChecksumCRC32C then Some (ucast (crc32c spans)) else None)"

lemma checksum_crc [simp]: "checksum 1 spans = Some (ucast (crc32c spans))"
  by (simp add: checksum_def)

lemma ucast_u32_u64_inj [simp]: "(ucast (a :: u32) :: u64) = ucast b \<longleftrightarrow> a = b"
proof
  have bk: "ucast (ucast c :: u64) = c" for c :: u32
    by (rule bit_word_eqI) (simp add: bit_simps)
  assume "(ucast a :: u64) = ucast b"
  then show "a = b" by (metis bk)
qed simp

section \<open>The segment grid\<close>

definition AlignUp :: "u64 \<Rightarrow> u64 \<Rightarrow> u64" where
  "AlignUp n a = (n + a - 1) AND NOT (a - 1)"

definition SegmentSpan :: "u64 \<Rightarrow> u64" where
  "SegmentSpan payloadLen = AlignUp (SegHeaderLen + payloadLen) SegmentAlign"

lemma and_not_mask_unat:
  "unat (x AND NOT (mask k) :: 'a::len word) = (unat x div 2 ^ k) * 2 ^ k"
proof -
  have "x AND NOT (mask k) = push_bit k (drop_bit k x)"
    by (rule bit_word_eqI) (auto simp: bit_simps)
  moreover have "unat (push_bit k (drop_bit k x)) = (unat x div 2 ^ k) * 2 ^ k"
  proof -
    have "(unat x div 2 ^ k) * 2 ^ k \<le> unat x" by simp
    also have "unat x < 2 ^ LENGTH('a)" by simp
    finally have "(unat x div 2 ^ k) * 2 ^ k < 2 ^ LENGTH('a)" .
    then have "take_bit LENGTH('a) (push_bit k (drop_bit k (unat x))) = (unat x div 2 ^ k) * 2 ^ k"
      by (simp only: push_bit_eq_mult drop_bit_eq_div take_bit_eq_mod mod_less)
    then show ?thesis by (simp only: unsigned_push_bit_eq unat_drop_bit_eq)
  qed
  ultimately show ?thesis by simp
qed

lemma AlignUp_unat:
  assumes "k < 64" "unat n + 2 ^ k \<le> 2 ^ 64"
  shows "unat (AlignUp n (2 ^ k)) = ((unat n + 2 ^ k - 1) div 2 ^ k) * 2 ^ k"
proof -
  have m: "(2 ^ k :: u64) - 1 = mask k" by (simp add: mask_eq_exp_minus_1)
  have u: "unat (mask k :: u64) = 2 ^ k - 1"
  proof -
    have "mask k = (of_nat (2 ^ k - 1) :: u64)"
      by (simp add: mask_eq_exp_minus_1 of_nat_diff)
    moreover have "(2::nat) ^ k - 1 < 2 ^ 64"
      using power_strict_increasing [OF assms(1), of "2::nat"] by simp
    ultimately show ?thesis by (simp only: unat_of_nat mod_less len_bit0 len_num1) simp
  qed
  have "unat (n + mask k) = unat n + (2 ^ k - 1)"
    using assms(2) by (subst unat_add_lem [THEN iffD1]) (simp_all add: u)
  moreover have "AlignUp n (2 ^ k) = (n + mask k) AND NOT (mask k)"
    by (simp add: AlignUp_def m flip: add_diff_eq)
  ultimately show ?thesis by (simp add: and_not_mask_unat)
qed

definition span :: "nat \<Rightarrow> nat" where
  "span n = ((n + 4159) div 4096) * 4096"

lemma SegmentSpan_unat:
  assumes "unat n \<le> 2 ^ 63"
  shows "unat (SegmentSpan n) = span (unat n)"
proof -
  have u: "unat (64 + n) = 64 + unat n"
    using assms by (subst unat_add_lem [THEN iffD1]) simp_all
  have "unat (AlignUp (64 + n) (2 ^ 12)) = ((unat (64 + n) + 2 ^ 12 - 1) div 2 ^ 12) * 2 ^ 12"
    using assms by (intro AlignUp_unat) (simp_all add: u)
  also have "(unat (64 + n) + 2 ^ 12 - 1) div 2 ^ 12 * 2 ^ 12 = span (unat n)"
    unfolding u span_def by (simp add: add.commute)
  finally show ?thesis by (simp add: SegmentSpan_def)
qed

lemma span_bounds: "64 + n \<le> span n" "span n < 64 + n + 4096" "4096 dvd span n"
proof -
  have "n + 4159 = span n + (n + 4159) mod 4096" by (simp add: span_def)
  moreover have "(n + 4159) mod 4096 < 4096" by simp
  ultimately show "64 + n \<le> span n" "span n < 64 + n + 4096" by linarith+
  show "4096 dvd span n" by (simp add: span_def)
qed

end
