(* ===== verification/Headers.thy ===== *)
theory Headers
  imports Format
begin

unbundle bit_operations_syntax

text \<open>
  The three fixed headers of an .aki file: the immutable prefix of page zero
  (engine/f3/akifile/prefix.go), the two meta slots that take turns being the live
  root (meta.go), and the 64-byte header of a segment (segment.go).  Each Marshal
  writes its fields at their byte offsets into a zeroed buffer, in the order of the
  Go code; each Parse validates before it decodes.
\<close>

section \<open>prefix.go\<close>

record Prefix =
  p_FormatMajor :: u16
  p_FormatMinor :: u16
  p_PageSize :: u32
  p_SegmentAlign :: u32
  p_Flags :: u32
  p_ChecksumKind :: u32
  p_ShardCount :: u32
  p_CreatedUnixNanos :: u64
  p_StoreUUID :: bytes
  p_SlotCount :: u32
  p_SepThreshold :: u32
  p_MetaSlotAOff :: u64
  p_MetaSlotBOff :: u64
  p_MetaSlotSize :: u32

text \<open>StoreUUID is a [16]byte array in Go: a prefix value always has sixteen bytes there.\<close>

definition wf_Prefix :: "Prefix \<Rightarrow> bool" where
  "wf_Prefix p \<longleftrightarrow> length (p_StoreUUID p) = 16"

definition NewPrefix :: "u32 \<Rightarrow> u32 \<Rightarrow> bytes \<Rightarrow> u64 \<Rightarrow> Prefix" where
  "NewPrefix shardCount sepThreshold uuid createdUnixNanos = \<lparr>
     p_FormatMajor = FormatMajor,
     p_FormatMinor = FormatMinor,
     p_PageSize = PageSize,
     p_SegmentAlign = SegmentAlign,
     p_Flags = 0,
     p_ChecksumKind = ChecksumCRC32C,
     p_ShardCount = shardCount,
     p_CreatedUnixNanos = createdUnixNanos,
     p_StoreUUID = uuid,
     p_SlotCount = SlotCount,
     p_SepThreshold = sepThreshold,
     p_MetaSlotAOff = MetaSlotAOff,
     p_MetaSlotBOff = MetaSlotBOff,
     p_MetaSlotSize = MetaSlotSize\<rparr>"

definition Prefix_Marshal :: "Prefix \<Rightarrow> bytes" where
  "Prefix_Marshal p =
    (let b = replicate PrefixSize 0;
         b = put b 0 Magic;
         b = PutUint16 b 16 (p_FormatMajor p);
         b = PutUint16 b 18 (p_FormatMinor p);
         b = PutUint32 b 20 (p_PageSize p);
         b = PutUint32 b 24 (p_SegmentAlign p);
         b = PutUint32 b 28 (p_Flags p);
         b = PutUint32 b 32 (p_ChecksumKind p);
         b = PutUint32 b 36 (p_ShardCount p);
         b = PutUint64 b 40 (p_CreatedUnixNanos p);
         b = put b 48 (p_StoreUUID p);
         b = PutUint32 b 64 (p_SlotCount p);
         b = PutUint32 b 68 (p_SepThreshold p);
         b = PutUint32 b 72 (crc32c [sub b 0 72]);
         b = PutUint64 b 76 (p_MetaSlotAOff p);
         b = PutUint64 b 84 (p_MetaSlotBOff p);
         b = PutUint32 b 92 (p_MetaSlotSize p);
         b = PutUint32 b 96 (crc32c [sub b 0 96])
     in b)"

definition ParsePrefix :: "bytes \<Rightarrow> err + Prefix" where
  "ParsePrefix b =
    (if length b < PrefixSize then Inl ErrShort
     else if sub b 0 16 \<noteq> Magic then Inl ErrMagic
     else if crc32c [sub b 0 72] \<noteq> Uint32 b 72 then Inl ErrChecksum
     else if crc32c [sub b 0 96] \<noteq> Uint32 b 96 then Inl ErrChecksum
     else if Uint16 b 16 \<noteq> FormatMajor then Inl ErrMajor
     else Inr \<lparr>
       p_FormatMajor = Uint16 b 16,
       p_FormatMinor = Uint16 b 18,
       p_PageSize = Uint32 b 20,
       p_SegmentAlign = Uint32 b 24,
       p_Flags = Uint32 b 28,
       p_ChecksumKind = Uint32 b 32,
       p_ShardCount = Uint32 b 36,
       p_CreatedUnixNanos = Uint64 b 40,
       p_StoreUUID = sub b 48 16,
       p_SlotCount = Uint32 b 64,
       p_SepThreshold = Uint32 b 68,
       p_MetaSlotAOff = Uint64 b 76,
       p_MetaSlotBOff = Uint64 b 84,
       p_MetaSlotSize = Uint32 b 92\<rparr>)"

section \<open>meta.go\<close>

record MetaSlot =
  m_CommitSeq :: u64
  m_GlobalSeq :: u64
  m_SRTOff :: u64
  m_SRTLen :: u32
  m_SRTShardCount :: u32
  m_ExtentTableOff :: u64
  m_ExtentTableLen :: u32
  m_TTLIndexLen :: u32
  m_TTLIndexOff :: u64
  m_FreeMapOff :: u64
  m_FileSize :: u64
  m_LiveBytes :: u64
  m_DeadBytes :: u64
  m_RecordCount :: u64
  m_LastCkptUnix :: u64
  m_CleanShutdown :: byte
  m_MetaKVOff :: u64

definition zero_MetaSlot :: MetaSlot where
  "zero_MetaSlot = \<lparr>m_CommitSeq = 0, m_GlobalSeq = 0, m_SRTOff = 0, m_SRTLen = 0,
     m_SRTShardCount = 0, m_ExtentTableOff = 0, m_ExtentTableLen = 0, m_TTLIndexLen = 0,
     m_TTLIndexOff = 0, m_FreeMapOff = 0, m_FileSize = 0, m_LiveBytes = 0, m_DeadBytes = 0,
     m_RecordCount = 0, m_LastCkptUnix = 0, m_CleanShutdown = 0, m_MetaKVOff = 0\<rparr>"

definition MetaSlot_body :: "MetaSlot \<Rightarrow> bytes" where
  "MetaSlot_body m =
    (let b = replicate MetaSlotSize 0;
         b = PutUint64 b 0 (m_CommitSeq m);
         b = PutUint64 b 8 (m_GlobalSeq m);
         b = PutUint64 b 16 (m_SRTOff m);
         b = PutUint32 b 24 (m_SRTLen m);
         b = PutUint32 b 28 (m_SRTShardCount m);
         b = PutUint64 b 32 (m_ExtentTableOff m);
         b = PutUint32 b 40 (m_ExtentTableLen m);
         b = PutUint32 b 44 (m_TTLIndexLen m);
         b = PutUint64 b 48 (m_TTLIndexOff m);
         b = PutUint64 b 56 (m_FreeMapOff m);
         b = PutUint64 b 64 (m_FileSize m);
         b = PutUint64 b 72 (m_LiveBytes m);
         b = PutUint64 b 80 (m_DeadBytes m);
         b = PutUint64 b 88 (m_RecordCount m);
         b = PutUint64 b 96 (m_LastCkptUnix m);
         b = put_byte b 104 (m_CleanShutdown m);
         b = PutUint64 b 105 (m_MetaKVOff m)
     in b)"

definition MetaSlot_Marshal :: "MetaSlot \<Rightarrow> u32 \<Rightarrow> err + bytes" where
  "MetaSlot_Marshal m kind =
    (let b = MetaSlot_body m
     in case checksum kind [sub b 0 120] of
          None \<Rightarrow> Inl ErrChecksumKind
        | Some s \<Rightarrow> Inr (PutUint64 b 120 s))"

definition MetaSlot_decode :: "bytes \<Rightarrow> MetaSlot" where
  "MetaSlot_decode b = \<lparr>
     m_CommitSeq = Uint64 b 0,
     m_GlobalSeq = Uint64 b 8,
     m_SRTOff = Uint64 b 16,
     m_SRTLen = Uint32 b 24,
     m_SRTShardCount = Uint32 b 28,
     m_ExtentTableOff = Uint64 b 32,
     m_ExtentTableLen = Uint32 b 40,
     m_TTLIndexLen = Uint32 b 44,
     m_TTLIndexOff = Uint64 b 48,
     m_FreeMapOff = Uint64 b 56,
     m_FileSize = Uint64 b 64,
     m_LiveBytes = Uint64 b 72,
     m_DeadBytes = Uint64 b 80,
     m_RecordCount = Uint64 b 88,
     m_LastCkptUnix = Uint64 b 96,
     m_CleanShutdown = byte_at b 104,
     m_MetaKVOff = Uint64 b 105\<rparr>"

definition ParseMetaSlot :: "bytes \<Rightarrow> u32 \<Rightarrow> err + MetaSlot" where
  "ParseMetaSlot b kind =
    (if length b < MetaSlotSize then Inl ErrShort
     else case checksum kind [sub b 0 120] of
       None \<Rightarrow> Inl ErrChecksumKind
     | Some s \<Rightarrow>
         if s \<noteq> Uint64 b 120 then Inl ErrChecksum
         else Inr (MetaSlot_decode b))"

definition MetaLive :: "bytes \<Rightarrow> bytes \<Rightarrow> u32 \<Rightarrow> err + MetaSlot \<times> nat" where
  "MetaLive a b kind =
    (case (ParseMetaSlot a kind, ParseMetaSlot b kind) of
       (Inr ma, Inr mb) \<Rightarrow> (if m_CommitSeq mb > m_CommitSeq ma then Inr (mb, 1) else Inr (ma, 0))
     | (Inr ma, Inl _) \<Rightarrow> Inr (ma, 0)
     | (Inl _, Inr mb) \<Rightarrow> Inr (mb, 1)
     | (Inl ea, Inl _) \<Rightarrow> Inl ea)"

section \<open>segment.go\<close>

definition segMagic :: bytes where
  "segMagic = ascii ''SEG3''"

record SegHeader =
  sh_Shard :: u16
  sh_Kind :: u16
  sh_GlobalSeq :: u64
  sh_ShardSeq :: u64
  sh_PayloadLen :: u64
  sh_PrevShardSeg :: u64
  sh_TTLClass :: u32
  sh_Flags :: u32
  sh_PayloadCRC :: u64

text \<open>
  Marshal stamps the payload's length and checksum into the header value as well as
  into the bytes, so it returns both.
\<close>

definition SegHeader_Marshal :: "SegHeader \<Rightarrow> u32 \<Rightarrow> bytes \<Rightarrow> err + bytes \<times> SegHeader" where
  "SegHeader_Marshal h kind payload =
    (case checksum kind [payload] of
       None \<Rightarrow> Inl ErrChecksumKind
     | Some pc \<Rightarrow>
        (let b = replicate SegHeaderLen 0;
             b = put b 0 segMagic;
             b = PutUint16 b 4 (sh_Shard h);
             b = PutUint16 b 6 (sh_Kind h);
             b = PutUint64 b 8 (sh_GlobalSeq h);
             b = PutUint64 b 16 (sh_ShardSeq h);
             b = PutUint64 b 24 (of_nat (length payload));
             b = PutUint64 b 32 (sh_PrevShardSeg h);
             b = PutUint32 b 40 (sh_TTLClass h);
             b = PutUint32 b 44 (sh_Flags h);
             b = PutUint32 b 48 (crc32c [sub b 0 48]);
             b = PutUint64 b 56 pc
         in Inr (b, h\<lparr>sh_PayloadLen := of_nat (length payload), sh_PayloadCRC := pc\<rparr>)))"

definition ParseSegHeader :: "bytes \<Rightarrow> err + SegHeader" where
  "ParseSegHeader b =
    (if length b < SegHeaderLen then Inl ErrShort
     else if sub b 0 4 \<noteq> segMagic then Inl ErrMagic
     else if crc32c [sub b 0 48] \<noteq> Uint32 b 48 then Inl ErrChecksum
     else Inr \<lparr>
       sh_Shard = Uint16 b 4,
       sh_Kind = Uint16 b 6,
       sh_GlobalSeq = Uint64 b 8,
       sh_ShardSeq = Uint64 b 16,
       sh_PayloadLen = Uint64 b 24,
       sh_PrevShardSeg = Uint64 b 32,
       sh_TTLClass = Uint32 b 40,
       sh_Flags = Uint32 b 44,
       sh_PayloadCRC = Uint64 b 56\<rparr>)"

definition VerifyPayload :: "SegHeader \<Rightarrow> bytes \<Rightarrow> u32 \<Rightarrow> err option" where
  "VerifyPayload h payload kind =
    (if of_nat (length payload) \<noteq> sh_PayloadLen h then Some ErrLength
     else case checksum kind [payload] of
       None \<Rightarrow> Some ErrChecksumKind
     | Some pc \<Rightarrow> if pc \<noteq> sh_PayloadCRC h then Some ErrChecksum else None)"

definition Sealed :: "SegHeader \<Rightarrow> bool" where
  "Sealed h \<longleftrightarrow> sh_Flags h AND 1 \<noteq> 0"

section \<open>Round trips\<close>

lemma length_Prefix_Marshal [simp]: "length (Prefix_Marshal p) = 100"
  by (simp add: Prefix_Marshal_def Let_def int_layout_defs)

lemma ParsePrefix_append:
  "length b = 100 \<Longrightarrow> ParsePrefix (b @ r) = ParsePrefix b"
  by (simp add: ParsePrefix_def int_layout_defs layout_simps)

lemma ParsePrefix_Marshal:
  assumes "wf_Prefix p"
  shows "ParsePrefix (Prefix_Marshal p) =
    (if p_FormatMajor p = FormatMajor then Inr p else Inl ErrMajor)"
  using assms
  by (simp add: ParsePrefix_def Prefix_Marshal_def Let_def wf_Prefix_def int_layout_defs layout_simps)

lemma length_MetaSlot_body [simp]: "length (MetaSlot_body m) = 128"
  by (simp add: MetaSlot_body_def Let_def int_layout_defs)

lemma MetaSlot_decode_body: "MetaSlot_decode (put (MetaSlot_body m) 120 (le_bytes 8 s)) = m"
  by (simp add: MetaSlot_decode_def MetaSlot_body_def Let_def int_layout_defs layout_simps)

lemma ParseMetaSlot_Marshal:
  assumes "MetaSlot_Marshal m kind = Inr b"
  shows "length b = 128" "ParseMetaSlot b kind = Inr m"
  using assms
  by (auto simp: MetaSlot_Marshal_def ParseMetaSlot_def Let_def MetaSlot_decode_body
      int_layout_defs layout_simps split: option.splits)

lemma MetaSlot_Marshal_crc:
  "MetaSlot_Marshal m 1 = Inr (PutUint64 (MetaSlot_body m) 120 (ucast (crc32c [sub (MetaSlot_body m) 0 120])))"
  by (simp add: MetaSlot_Marshal_def Let_def)

lemma length_segMagic [simp]: "length segMagic = 4"
  by (simp add: segMagic_def)

lemma SegHeader_Marshal_Inr:
  assumes "SegHeader_Marshal h kind payload = Inr (b, h')"
  shows "length b = 64" "ParseSegHeader b = Inr h'" "VerifyPayload h' payload kind = None"
    and "sh_PayloadLen h' = of_nat (length payload)" "sh_GlobalSeq h' = sh_GlobalSeq h"
    and "sh_Shard h' = sh_Shard h" "sh_Kind h' = sh_Kind h" "sh_ShardSeq h' = sh_ShardSeq h"
  using assms
  by (auto simp: SegHeader_Marshal_def ParseSegHeader_def VerifyPayload_def Let_def
      int_layout_defs layout_simps split: option.splits)

lemma SegHeader_Marshal_crc: "\<exists>b h'. SegHeader_Marshal h 1 payload = Inr (b, h')"
  by (simp add: SegHeader_Marshal_def Let_def)

section \<open>Corruption of a covered span\<close>

lemma sub_put_split:
  assumes "i + length w \<le> n" "n \<le> length b"
  shows "sub (put b i w) 0 n = take i b @ w @ sub b (i + length w) (n - (i + length w))"
    and "sub b 0 n = take i b @ sub b i (length w) @ sub b (i + length w) (n - (i + length w))"
proof -
  show "sub (put b i w) 0 n = take i b @ w @ sub b (i + length w) (n - (i + length w))"
    using assms by (simp add: put_in sub_def)
  show "sub b 0 n = take i b @ sub b i (length w) @ sub b (i + length w) (n - (i + length w))"
  proof -
    have "take n b = take (i + (length w + (n - (i + length w)))) b" using assms(1) by simp
    then show ?thesis by (simp only: sub_def drop_0 take_add drop_drop add.commute)
  qed
qed

lemma crc32c_put_detects:
  assumes "i + length w \<le> n" "n \<le> length b" "length w \<le> 4" "w \<noteq> sub b i (length w)"
  shows "crc32c [sub (put b i w) 0 n] \<noteq> crc32c [sub b 0 n]"
  unfolding sub_put_split [OF assms(1,2)]
  by (rule crc32c_window) (use assms in auto)

end
