(* ===== verification/Device.thy ===== *)
theory Device
  imports Headers
begin

unbundle bit_operations_syntax

text \<open>
  The Device interface of engine/f3/akifile/file.go (ReadAt, WriteAt, Sync, Truncate,
  Size) and its two adapters.  A device is its current bytes, the bytes that survived
  the last successful Sync, whether it was opened read-only (roDevice), a script of the
  faults the next writes and syncs hit, and a predicate of the reads the medium fails; the stat
  behind Size is the read of no bytes at offset 0.
  With an empty script and no failing read it is the plain file of osDevice.

  The locale states what the writer and recovery rely on: a range reads back what was
  written to it, and a write leaves every disjoint range readable.
\<close>

section \<open>The device\<close>

datatype fault = NoFault | FailAfter nat | ShortAfter nat

record device =
  d_data :: bytes
  d_synced :: bytes
  d_readonly :: bool
  d_faults :: "fault list"
  d_badread :: "nat \<Rightarrow> nat \<Rightarrow> bool"

definition store_at :: "bytes \<Rightarrow> nat \<Rightarrow> bytes \<Rightarrow> bytes" where
  "store_at data off bs =
    (if bs = [] then data
     else take off (data @ replicate (off - length data) 0) @ bs @ drop (off + length bs) data)"

definition next_fault :: "device \<Rightarrow> fault \<times> device" where
  "next_fault d = (case d_faults d of [] \<Rightarrow> (NoFault, d) | x # xs \<Rightarrow> (x, d\<lparr>d_faults := xs\<rparr>))"

text \<open>
  The offset of a call is the int64 conversion of a uint64, so an offset with the top
  bit set is negative and the call fails.  ReadAt yields the bytes that were there and an error
  exactly when they are fewer than asked for.
\<close>

definition ReadAt :: "device \<Rightarrow> u64 \<Rightarrow> nat \<Rightarrow> bytes \<times> err option" where
  "ReadAt d off n =
    (if sint off < 0 then ([], Some ErrDevice)
     else if d_badread d (unat off) n then ([], Some ErrDevice)
     else let bs = sub (d_data d) (unat off) n
          in (bs, if length bs < n then Some EOF else None))"

definition WriteAt :: "device \<Rightarrow> bytes \<Rightarrow> u64 \<Rightarrow> device \<times> nat \<times> err option" where
  "WriteAt d bs off =
    (if d_readonly d then (d, 0, Some ErrReadOnly)
     else if sint off < 0 then (d, 0, Some ErrDevice)
     else case next_fault d of
       (NoFault, d') \<Rightarrow> (d'\<lparr>d_data := store_at (d_data d) (unat off) bs\<rparr>, length bs, None)
     | (FailAfter k, d') \<Rightarrow>
         (d'\<lparr>d_data := store_at (d_data d) (unat off) (take k bs)\<rparr>, min k (length bs), Some ErrDevice)
     | (ShortAfter k, d') \<Rightarrow>
         (d'\<lparr>d_data := store_at (d_data d) (unat off) (take k bs)\<rparr>, min k (length bs), None))"

definition Sync :: "device \<Rightarrow> device \<times> err option" where
  "Sync d =
    (if d_readonly d then (d, Some ErrReadOnly)
     else case next_fault d of
       (NoFault, d') \<Rightarrow> (d'\<lparr>d_synced := d_data d\<rparr>, None)
     | (_, d') \<Rightarrow> (d', Some ErrDevice))"

definition Truncate :: "device \<Rightarrow> nat \<Rightarrow> device \<times> err option" where
  "Truncate d n =
    (if d_readonly d then (d, Some ErrReadOnly)
     else case next_fault d of
       (NoFault, d') \<Rightarrow> (d'\<lparr>d_data := take n (d_data d @ replicate (n - length (d_data d)) 0)\<rparr>, None)
     | (_, d') \<Rightarrow> (d', Some ErrDevice))"

definition Size :: "device \<Rightarrow> nat" where
  "Size d = length (d_data d)"

definition dev_Size :: "device \<Rightarrow> err + u64" where
  "dev_Size d = (if d_badread d 0 0 then Inl ErrDevice else Inr (of_nat (Size d)))"

text \<open>The recurring call: read n bytes at off or return the error.\<close>

definition read_full :: "device \<Rightarrow> u64 \<Rightarrow> nat \<Rightarrow> err + bytes" where
  "read_full d off n =
    (case ReadAt d off n of (bs, Some e) \<Rightarrow> Inl e | (bs, None) \<Rightarrow> Inr bs)"

text \<open>A device in working order, small enough for int64 offsets.\<close>

definition healthy :: "device \<Rightarrow> bool" where
  "healthy d \<longleftrightarrow> \<not> d_readonly d \<and> d_faults d = [] \<and> (\<forall>i n. \<not> d_badread d i n)
     \<and> length (d_data d) < 2 ^ 62"

section \<open>Reads of a byte string\<close>

lemma length_store_at:
  "length (store_at data off bs) =
    (if bs = [] then length data else max (length data) (off + length bs))"
  by (auto simp: store_at_def)

lemma sub_store_same: "sub (store_at data off bs) off (length bs) = bs"
  by (simp add: store_at_def sub_def)

lemma nth_store_at:
  "k < length data \<Longrightarrow> k < off \<or> off + length bs \<le> k \<Longrightarrow> store_at data off bs ! k = data ! k"
  by (auto simp: store_at_def nth_append min_def)

lemma sub_store_other:
  assumes "i + n \<le> length data" "i + n \<le> off \<or> off + length bs \<le> i"
  shows "sub (store_at data off bs) i n = sub data i n"
proof (rule nth_equalityI)
  have len: "i + n \<le> length (store_at data off bs)"
    using assms(1) by (auto simp: length_store_at)
  then show "length (sub (store_at data off bs) i n) = length (sub data i n)"
    using assms(1) by simp
  fix k assume "k < length (sub (store_at data off bs) i n)"
  then have "k < n" using len by simp
  then show "sub (store_at data off bs) i n ! k = sub data i n ! k"
    using assms len by (auto simp: nth_sub intro!: nth_store_at)
qed

lemma sint_u64_nonneg: "0 \<le> sint (w :: u64) \<longleftrightarrow> unat w < 2 ^ 63"
proof -
  have "bit w 63 \<longleftrightarrow> 2 ^ 63 \<le> unat w"
  proof -
    have "bit w 63 \<longleftrightarrow> odd (unat w div 2 ^ 63)"
      by (metis bit_iff_odd bit_unsigned_iff possible_bit_nat bit_imp_le_length)
    moreover have "unat w div 2 ^ 63 < 2"
      using unsigned_less [of w, where 'a = nat] by (simp add: less_mult_imp_div_less)
    ultimately show ?thesis
      by (auto simp: numeral_2_eq_2 less_Suc_eq div_eq_0_iff)
        (metis One_nat_def div_greater_zero_iff less_numeral_extra(1) linorder_not_le odd_one zero_less_one)+
  qed
  moreover have "bit w 63 \<longleftrightarrow> sint w < 0" using bit_last_iff [of w] by simp
  ultimately show ?thesis by linarith
qed

lemma sint_u64_neg: "sint (w :: u64) < 0 \<longleftrightarrow> 2 ^ 63 \<le> unat w"
  using sint_u64_nonneg [of w] by linarith

section \<open>Reads and writes of a device\<close>

lemma read_full_Inr:
  "read_full d off n = Inr bs \<longleftrightarrow>
     unat off < 2 ^ 63 \<and> \<not> d_badread d (unat off) n \<and> bs = sub (d_data d) (unat off) n
     \<and> (n = 0 \<or> unat off + n \<le> length (d_data d))"
  by (auto simp: read_full_def ReadAt_def Let_def sint_u64_neg length_sub min_def
      not_less split: if_splits)

lemma length_read_full: "read_full d off n = Inr bs \<Longrightarrow> length bs = n"
  by (auto simp: read_full_Inr)

lemma read_full_healthy:
  assumes "healthy d" "unat off + n \<le> length (d_data d)"
  shows "read_full d off n = Inr (sub (d_data d) (unat off) n)"
  using assms by (auto simp: read_full_Inr healthy_def)

section \<open>The contract the writer and recovery use\<close>

text \<open>
  What a write promises even when it fails: some prefix of the bytes lands and nothing
  else changes, and a write that reports success landed whole.
\<close>

locale torn_store =
  fixes rd :: "'d \<Rightarrow> u64 \<Rightarrow> nat \<Rightarrow> err + bytes"
    and wr :: "'d \<Rightarrow> bytes \<Rightarrow> u64 \<Rightarrow> 'd \<times> nat \<times> err option"
    and ok :: "'d \<Rightarrow> bool"
    and len :: "'d \<Rightarrow> nat"
  assumes rd_nil: "ok d \<Longrightarrow> unat off < 2 ^ 62 \<Longrightarrow> rd d off 0 = Inr []"
    and wr_torn: "ok d \<Longrightarrow> unat off + length bs < 2 ^ 62 \<Longrightarrow> wr d bs off = (d', n, e) \<Longrightarrow>
      \<exists>m \<le> length bs. (e = None \<and> n = length bs \<longrightarrow> m = length bs) \<and> ok d'
        \<and> len d' = (if m = 0 then len d else max (len d) (unat off + m))
        \<and> rd d' off m = Inr (take m bs)
        \<and> (\<forall>i k x. rd d i k = Inr x \<longrightarrow> unat i + k \<le> unat off \<or> unat off + m \<le> unat i
             \<longrightarrow> rd d' i k = Inr x)"
begin

text \<open>
  A header and the payload behind it, written with two calls that stop at the first
  failure, at or past the end of the store: what landed is a prefix of the two.
\<close>

definition wr2 :: "'d \<Rightarrow> bytes \<Rightarrow> bytes \<Rightarrow> u64 \<Rightarrow> 'd \<times> bool" where
  "wr2 d hb pl off =
    (case wr d hb off of (d1, n1, e1) \<Rightarrow>
       if e1 \<noteq> None \<or> n1 \<noteq> length hb then (d1, False)
       else (case wr d1 pl (off + of_nat (length hb)) of (d2, n2, e2) \<Rightarrow>
               (d2, e2 = None \<and> n2 = length pl)))"

definition landed :: "'d \<Rightarrow> 'd \<Rightarrow> bytes \<Rightarrow> bytes \<Rightarrow> u64 \<Rightarrow> nat \<Rightarrow> bool" where
  "landed d d2 hb pl off m \<longleftrightarrow> m \<le> length hb + length pl \<and> ok d2
     \<and> len d2 = (if m = 0 then len d else unat off + m)
     \<and> (length hb \<le> m \<longrightarrow> rd d2 off (length hb) = Inr hb)
     \<and> (m = length hb + length pl \<longrightarrow> rd d2 (off + of_nat (length hb)) (length pl) = Inr pl)
     \<and> (\<forall>i k x. rd d i k = Inr x \<longrightarrow> unat i + k \<le> unat off \<longrightarrow> rd d2 i k = Inr x)"

lemma wr2_landed:
  assumes ok: "ok d" and tail: "len d \<le> unat off" and hb: "hb \<noteq> []"
    and fit: "unat off + length hb + length pl < 2 ^ 62"
    and w: "wr2 d hb pl off = (d2, success)"
  shows "\<exists>m. landed d d2 hb pl off m \<and> (success \<longrightarrow> m = length hb + length pl)"
proof -
  let ?o = "off + of_nat (length hb)"
  obtain d1 n1 e1 where w1: "wr d hb off = (d1, n1, e1)" by (cases "wr d hb off") auto
  have u: "unat ?o = unat off + length hb"
    using fit by (subst unat_add_lem [THEN iffD1]) (simp_all add: unat_of_nat)
  from wr_torn [OF ok _ w1] fit obtain m1 where
    1: "m1 \<le> length hb" "e1 = None \<and> n1 = length hb \<longrightarrow> m1 = length hb" "ok d1"
      "len d1 = (if m1 = 0 then len d else max (len d) (unat off + m1))" "rd d1 off m1 = Inr (take m1 hb)"
      "\<And>i k x. rd d i k = Inr x \<Longrightarrow> unat i + k \<le> unat off \<Longrightarrow> rd d1 i k = Inr x"
    by fastforce
  show ?thesis
  proof (cases "e1 \<noteq> None \<or> n1 \<noteq> length hb")
    case True
    with w w1 have "d2 = d1" "\<not> success" by (auto simp: wr2_def)
    moreover have "landed d d1 hb pl off m1"
      unfolding landed_def using 1 tail fit rd_nil [of d1 ?o] by (auto simp: u)
    ultimately show ?thesis by blast
  next
    case False
    obtain n2 e2 where w2: "wr d1 pl ?o = (d2, n2, e2)" "success = (e2 = None \<and> n2 = length pl)"
      using w w1 False by (auto simp: wr2_def split: prod.splits)
    have m1: "m1 = length hb" using False 1(2) by simp
    from wr_torn [OF 1(3) _ w2(1)] fit obtain m2 where
      2: "m2 \<le> length pl" "success \<longrightarrow> m2 = length pl" "ok d2"
        "len d2 = (if m2 = 0 then len d1 else max (len d1) (unat ?o + m2))" "rd d2 ?o m2 = Inr (take m2 pl)"
        "\<And>i k x. rd d1 i k = Inr x \<Longrightarrow> unat i + k \<le> unat ?o \<Longrightarrow> rd d2 i k = Inr x"
      unfolding u w2(2) by fastforce
    have "landed d d2 hb pl off (length hb + m2)"
      unfolding landed_def using 1 2 m1 tail hb by (auto simp: u max_def)
    then show ?thesis using 2(2) by blast
  qed
qed

end

text \<open>
  A device whose reads do not fail and whose size leaves room for int64 offsets.  Its
  writes may fail: the fault script is arbitrary.
\<close>

definition readable :: "device \<Rightarrow> bool" where
  "readable d \<longleftrightarrow> (\<forall>i n. \<not> d_badread d i n) \<and> length (d_data d) < 2 ^ 62"

lemma dev_Size_readable: "readable d \<Longrightarrow> dev_Size d = Inr (of_nat (Size d))"
  by (simp add: readable_def dev_Size_def)

lemma healthy_readable: "healthy d \<Longrightarrow> readable d"
  by (simp add: healthy_def readable_def)

lemma WriteAt_cases:
  assumes "WriteAt d bs off = (d', n, e)" "unat off < 2 ^ 63"
  shows "\<exists>m \<le> length bs. d_data d' = store_at (d_data d) (unat off) (take m bs)
    \<and> (e = None \<and> n = length bs \<longrightarrow> m = length bs)
    \<and> d_badread d' = d_badread d \<and> d_readonly d' = d_readonly d \<and> d_synced d' = d_synced d"
proof (cases "d_readonly d")
  case True
  with assms show ?thesis
    by (intro exI [of _ 0]) (auto simp: WriteAt_def store_at_def)
next
  case False
  have "\<not> sint off < 0" using assms(2) by (simp add: sint_u64_neg)
  with False assms(1) show ?thesis
    by (intro exI [of _ n])
      (auto simp: WriteAt_def next_fault_def min_def split: list.splits fault.splits if_splits)
qed

lemma read_full_store_same:
  assumes "readable d" "unat off + length bs < 2 ^ 62"
  shows "read_full (d\<lparr>d_data := store_at (d_data d) (unat off) bs\<rparr>) off (length bs) = Inr bs"
  using assms by (auto simp: read_full_Inr readable_def length_store_at sub_store_same)

lemma read_full_store_other:
  assumes "read_full d i k = Inr x" "unat i + k \<le> unat off \<or> unat off + length bs \<le> unat i"
    "d_data d' = store_at (d_data d) (unat off) bs" "d_badread d' = d_badread d"
  shows "read_full d' i k = Inr x"
  using assms by (auto simp: read_full_Inr length_store_at sub_store_other)

interpretation dev: torn_store read_full WriteAt readable "\<lambda>d. length (d_data d)"
proof (unfold_locales, goal_cases)
  case (1 d off)
  then show ?case by (simp add: read_full_Inr readable_def)
next
  case (2 d off bs d' n e)
  then obtain m where m: "m \<le> length bs" "d_data d' = store_at (d_data d) (unat off) (take m bs)"
      "e = None \<and> n = length bs \<longrightarrow> m = length bs" "d_badread d' = d_badread d"
    using WriteAt_cases [of d bs off d' n e] by auto
  have "read_full d' off m = Inr (take m bs)"
    using read_full_store_same [of d off "take m bs"] 2 m by (auto simp: read_full_Inr)
  moreover have "readable d'" using 2 m by (auto simp: readable_def length_store_at)
  moreover have "read_full d' i k = Inr x"
    if "read_full d i k = Inr x" "unat i + k \<le> unat off \<or> unat off + m \<le> unat i" for i k x
    by (rule read_full_store_other [OF that(1) _ m(2) m(4)]) (use that m(1) in auto)
  ultimately show ?case using m by (intro exI [of _ m]) (auto simp: length_store_at)
qed

lemma WriteAt_healthy:
  assumes "healthy d" "unat off < 2 ^ 63"
  shows "WriteAt d bs off = (d\<lparr>d_data := store_at (d_data d) (unat off) bs\<rparr>, length bs, None)"
proof -
  have "\<not> sint off < 0" using assms(2) by (simp add: sint_u64_neg)
  then show ?thesis using assms(1) by (simp add: WriteAt_def healthy_def next_fault_def)
qed

end
