(* ===== verification/Replay.thy ===== *)
theory Replay
  imports Device
begin

unbundle bit_operations_syntax

text \<open>
  Reading segments: readSegmentAt of engine/f3/akifile/writer.go and ReplayTail of
  recovery.go, the forward walk every reader of the append space shares.  The visitor
  is a function that threads a state and may return an error; a nil visitor is the one
  that keeps the state.

  seg_at and log_at describe an append space abstractly, as the list of
  segments that lie one behind the other on the 4KiB grid; ReplayTail is shown to
  visit exactly that list.
\<close>

section \<open>readSegmentAt and ReplayTail\<close>

definition readSegmentAt :: "device \<Rightarrow> u32 \<Rightarrow> u64 \<Rightarrow> err + SegHeader \<times> bytes" where
  "readSegmentAt dev kind off =
    bindE (read_full dev off SegHeaderLen) (\<lambda>hb.
    bindE (ParseSegHeader hb) (\<lambda>h.
    bindE (make_bytes (sh_PayloadLen h)) (\<lambda>_.
    bindE (read_full dev (off + SegHeaderLen) (unat (sh_PayloadLen h))) (\<lambda>payload.
      case VerifyPayload h payload kind of
        Some e \<Rightarrow> Inl e
      | None \<Rightarrow> Inr (h, payload)))))"

type_synonym 's visitor = "'s \<Rightarrow> u64 \<Rightarrow> SegHeader \<Rightarrow> bytes \<Rightarrow> 's \<times> err option"

lemma replay_advances:
  assumes "read_full d cursor 64 = Inr hb" "make_bytes pl = Inr mb"
  shows "unat cursor + 64 \<le> length (d_data d)"
    and "unat (cursor + SegmentSpan pl) = unat cursor + span (unat pl)"
    and "unat (cursor + 64) = unat cursor + 64"
proof -
  from assms(1) show c: "unat cursor + 64 \<le> length (d_data d)" by (simp add: read_full_Inr)
  from assms(1) have c63: "unat cursor < 2 ^ 63" by (simp add: read_full_Inr)
  from assms(2) have p: "unat pl \<le> 2 ^ 48" by (simp add: make_bytes_def maxAlloc_def split: if_splits)
  then have s: "unat (SegmentSpan pl) = span (unat pl)" by (intro SegmentSpan_unat) simp
  have "span (unat pl) < 64 + 2 ^ 48 + 4096" using span_bounds(2) [of "unat pl"] p by linarith
  then show "unat (cursor + SegmentSpan pl) = unat cursor + span (unat pl)"
    using c63 by (subst unat_add_lem [THEN iffD1]) (simp_all add: s)
  show "unat (cursor + 64) = unat cursor + 64"
    using c63 by (subst unat_add_lem [THEN iffD1]) simp_all
qed

function ReplayTail ::
  "device \<Rightarrow> Prefix \<Rightarrow> u64 \<Rightarrow> u64 \<Rightarrow> 's visitor \<Rightarrow> 's \<Rightarrow> u64 \<times> 's \<times> err option" where
  "ReplayTail dev prefix cursor sz visit s =
    (if cursor + SegHeaderLen \<le> sz then
       (case read_full dev cursor SegHeaderLen of
          Inl _ \<Rightarrow> (cursor, s, None)
        | Inr hb \<Rightarrow>
       (case ParseSegHeader hb of
          Inl _ \<Rightarrow> (cursor, s, None)
        | Inr h \<Rightarrow>
       (if cursor + SegHeaderLen + sh_PayloadLen h > sz then (cursor, s, None) else
       (case make_bytes (sh_PayloadLen h) of
          Inl e \<Rightarrow> (cursor, s, Some e)
        | Inr _ \<Rightarrow>
       (case read_full dev (cursor + SegHeaderLen) (unat (sh_PayloadLen h)) of
          Inl _ \<Rightarrow> (cursor, s, None)
        | Inr payload \<Rightarrow>
       (if VerifyPayload h payload (p_ChecksumKind prefix) \<noteq> None then (cursor, s, None) else
       (case visit s cursor h payload of
          (s', Some e) \<Rightarrow> (cursor, s', Some e)
        | (s', None) \<Rightarrow>
            ReplayTail dev prefix (cursor + SegmentSpan (sh_PayloadLen h)) sz visit s')))))))
     else (cursor, s, None))"
  by pat_completeness auto
termination
proof (relation "measure (\<lambda>(dev, prefix, cursor, sz, visit, s). length (d_data dev) - unat cursor)",
    goal_cases)
  case 1
  then show ?case by simp
next
  case (2 dev prefix cursor sz visit s hb h mb payload p s2)
  from replay_advances [OF 2(2) 2(5)] span_bounds(1) [of "unat (sh_PayloadLen h)"]
  show ?case by simp
qed

declare ReplayTail.simps [simp del]

section \<open>The append space as a list of segments\<close>

type_synonym seg = "u64 \<times> SegHeader \<times> bytes"

definition seg_at :: "device \<Rightarrow> u32 \<Rightarrow> u64 \<Rightarrow> SegHeader \<Rightarrow> bytes \<Rightarrow> bool" where
  "seg_at d kind off h pl \<longleftrightarrow>
     (\<exists>hb. read_full d off 64 = Inr hb \<and> ParseSegHeader hb = Inr h)
     \<and> read_full d (off + 64) (length pl) = Inr pl
     \<and> sh_PayloadLen h = of_nat (length pl) \<and> length pl \<le> maxAlloc
     \<and> VerifyPayload h pl kind = None"

fun log_at :: "device \<Rightarrow> u32 \<Rightarrow> u64 \<Rightarrow> seg list \<Rightarrow> u64 \<Rightarrow> bool" where
  "log_at d kind c [] e \<longleftrightarrow> e = c"
| "log_at d kind c ((off, h, pl) # ss) e \<longleftrightarrow>
     off = c \<and> seg_at d kind c h pl \<and> log_at d kind (c + SegmentSpan (of_nat (length pl))) ss e"

text \<open>The visitor run over a list of segments, stopping at the first error.\<close>

fun visit_all :: "'s visitor \<Rightarrow> 's \<Rightarrow> seg list \<Rightarrow> u64 \<Rightarrow> u64 \<times> 's \<times> err option" where
  "visit_all visit s [] e = (e, s, None)"
| "visit_all visit s ((off, h, pl) # ss) e =
     (case visit s off h pl of
        (s', Some x) \<Rightarrow> (off, s', Some x)
      | (s', None) \<Rightarrow> visit_all visit s' ss e)"

text \<open>No intact segment starts at c: the durable tail.\<close>

definition tail_at :: "device \<Rightarrow> u32 \<Rightarrow> u64 \<Rightarrow> u64 \<Rightarrow> bool" where
  "tail_at d kind c sz \<longleftrightarrow>
     \<not> c + 64 \<le> sz
     \<or> (case read_full d c 64 of Inl _ \<Rightarrow> True
        | Inr hb \<Rightarrow> (case ParseSegHeader hb of Inl _ \<Rightarrow> True
          | Inr h \<Rightarrow> c + 64 + sh_PayloadLen h > sz
              \<or> (unat (sh_PayloadLen h) \<le> maxAlloc
                 \<and> (case read_full d (c + 64) (unat (sh_PayloadLen h)) of Inl _ \<Rightarrow> True
                    | Inr pl \<Rightarrow> VerifyPayload h pl kind \<noteq> None))))"

lemma make_bytes_of_nat:
  "n \<le> maxAlloc \<Longrightarrow> make_bytes (of_nat n) = Inr (replicate n 0) \<and> unat (of_nat n :: u64) = n"
  by (simp add: make_bytes_def maxAlloc_def unat_of_nat)

lemma ReplayTail_stop:
  assumes "tail_at d (p_ChecksumKind prefix) c sz"
  shows "ReplayTail d prefix c sz visit s = (c, s, None)"
  using assms
  by (subst ReplayTail.simps)
    (auto simp: tail_at_def make_bytes_def split: sum.splits if_splits)

lemma seg_at_end:
  assumes "seg_at d kind c h pl"
  shows "unat c + 64 + length pl \<le> length (d_data d) \<or> (pl = [] \<and> unat c + 64 \<le> length (d_data d))"
    and "unat c < 2 ^ 63" "unat (c + 64) = unat c + 64"
    and "unat (c + SegmentSpan (of_nat (length pl))) = unat c + span (length pl)"
proof -
  from assms obtain hb where r: "read_full d c 64 = Inr hb" "read_full d (c + 64) (length pl) = Inr pl"
      "length pl \<le> maxAlloc"
    by (auto simp: seg_at_def)
  note m = make_bytes_of_nat [OF r(3)]
  from replay_advances [OF r(1) m [THEN conjunct1]] m
  show "unat (c + 64) = unat c + 64"
    "unat (c + SegmentSpan (of_nat (length pl))) = unat c + span (length pl)" by auto
  with r show "unat c + 64 + length pl \<le> length (d_data d) \<or> (pl = [] \<and> unat c + 64 \<le> length (d_data d))"
    by (auto simp: read_full_Inr)
  from r show "unat c < 2 ^ 63" by (simp add: read_full_Inr)
qed

lemma ReplayTail_seg:
  assumes "seg_at d (p_ChecksumKind prefix) c h pl" "unat c + 64 + length pl \<le> unat sz"
  shows "ReplayTail d prefix c sz visit s =
    (case visit s c h pl of
       (s', Some e) \<Rightarrow> (c, s', Some e)
     | (s', None) \<Rightarrow> ReplayTail d prefix (c + SegmentSpan (of_nat (length pl))) sz visit s')"
proof -
  from assms(1) obtain hb where
      r: "read_full d c 64 = Inr hb" "ParseSegHeader hb = Inr h" "read_full d (c + 64) (length pl) = Inr pl"
      "sh_PayloadLen h = of_nat (length pl)" "length pl \<le> maxAlloc"
      "VerifyPayload h pl (p_ChecksumKind prefix) = None"
    by (auto simp: seg_at_def)
  note m = make_bytes_of_nat [OF r(5)]
  note adv = replay_advances [OF r(1) m [THEN conjunct1]]
  have "c + 64 \<le> sz" using assms(2) adv(3) by (simp add: word_le_nat_alt)
  moreover have "unat (c + 64 + of_nat (length pl)) = unat c + 64 + length pl"
    using assms(2) unsigned_less [of sz, where 'a = nat] m adv(3)
    by (subst unat_add_lem [THEN iffD1]) simp_all
  then have "\<not> c + 64 + of_nat (length pl) > sz" using assms(2) by (simp add: word_less_nat_alt)
  ultimately show ?thesis using r m by (subst ReplayTail.simps) simp
qed

lemma ReplayTail_log:
  assumes "log_at d (p_ChecksumKind prefix) c ss e" "tail_at d (p_ChecksumKind prefix) e sz"
    and "\<forall>(off, h, pl) \<in> set ss. unat off + 64 + length pl \<le> unat sz"
  shows "ReplayTail d prefix c sz visit s = visit_all visit s ss e"
  using assms
proof (induction ss arbitrary: c s)
  case Nil
  then show ?case by (simp add: ReplayTail_stop)
next
  case (Cons x ss)
  obtain off h pl where x: "x = (off, h, pl)" by (cases x)
  with Cons.prems have "seg_at d (p_ChecksumKind prefix) c h pl" "off = c"
      "unat c + 64 + length pl \<le> unat sz"
      and rest: "log_at d (p_ChecksumKind prefix) (c + SegmentSpan (of_nat (length pl))) ss e"
    by auto
  moreover have "ReplayTail d prefix (c + SegmentSpan (of_nat (length pl))) sz visit s' = visit_all visit s' ss e" for s'
    using Cons.IH [OF rest Cons.prems(2)] Cons.prems(3) by simp
  ultimately show ?case by (simp add: ReplayTail_seg x split: prod.splits option.splits)
qed

lemma log_at_append:
  "log_at d kind c (ss @ ts) e \<longleftrightarrow> (\<exists>m. log_at d kind c ss m \<and> log_at d kind m ts e)"
  by (induction ss arbitrary: c) auto

lemma readSegmentAt_seg:
  assumes "seg_at d kind off h pl"
  shows "readSegmentAt d kind off = Inr (h, pl)"
  using assms by (auto simp: seg_at_def readSegmentAt_def make_bytes_of_nat)

end
