(* ===== verification/Writer.thy ===== *)
theory Writer
  imports Replay
begin

unbundle bit_operations_syntax

text \<open>
  The single-writer File of engine/f3/akifile/file.go and its group append
  (writer.go): Create, Open, AppendGroup, Sync, Close.  The clock is the function the
  caller supplies, read once per call of now(); f_tick counts the calls.

  layout is the abstract append: the segments a group becomes when it is laid down at a
  cursor.  The lemmas show that AppendGroup implements it, and that under any
  script of write faults the recovered log is the old one followed by a prefix of the group.
\<close>

section \<open>file.go: the open file\<close>

datatype SyncPolicy = SyncAlways | SyncEverySec | SyncNo

record CreateOptions =
  co_ShardCount :: u32
  co_SepThreshold :: u32
  co_UUID :: bytes
  co_CreatedUnixNanos :: u64
  co_Sync :: SyncPolicy
  co_SyncInterval :: int
  co_Now :: "nat \<Rightarrow> int"

record OpenOptions =
  oo_Sync :: SyncPolicy
  oo_SyncInterval :: int
  oo_Now :: "nat \<Rightarrow> int"

record File =
  f_dev :: device
  f_prefix :: Prefix
  f_cursor :: u64
  f_globalSeq :: u64
  f_commitSeq :: u64
  f_liveSlot :: nat
  f_sync :: SyncPolicy
  f_interval :: int
  f_now :: "nat \<Rightarrow> int"
  f_tick :: nat
  f_lastSync :: int

definition newFile ::
  "device \<Rightarrow> Prefix \<Rightarrow> SyncPolicy \<Rightarrow> int \<Rightarrow> (nat \<Rightarrow> int) \<Rightarrow> u64 \<Rightarrow> u64 \<Rightarrow> u64 \<Rightarrow> nat \<Rightarrow> File" where
  "newFile dev prefix sync interval now cursor seq commitSeq liveSlot = \<lparr>
     f_dev = dev,
     f_prefix = prefix,
     f_cursor = cursor,
     f_globalSeq = seq,
     f_commitSeq = commitSeq,
     f_liveSlot = liveSlot,
     f_sync = sync,
     f_interval = (if interval \<le> 0 then 1000000000 else interval),
     f_now = now,
     f_tick = 1,
     f_lastSync = now 0\<rparr>"

definition CreateOnDevice :: "device \<Rightarrow> CreateOptions \<Rightarrow> err + File" where
  "CreateOnDevice dev opts =
    (let prefix = NewPrefix (co_ShardCount opts) (co_SepThreshold opts) (co_UUID opts) (co_CreatedUnixNanos opts);
         meta = zero_MetaSlot\<lparr>m_FileSize := PageSize, m_CleanShutdown := 1\<rparr>
     in case WriteAt dev (Prefix_Marshal prefix) 0 of
          (dev, _, Some e) \<Rightarrow> Inl e
        | (dev, _, None) \<Rightarrow>
        bindE (MetaSlot_Marshal meta (p_ChecksumKind prefix)) (\<lambda>mb.
        case WriteAt dev mb (p_MetaSlotAOff prefix) of
          (dev, _, Some e) \<Rightarrow> Inl e
        | (dev, _, None) \<Rightarrow>
        (case WriteAt dev mb (p_MetaSlotBOff prefix) of
          (dev, _, Some e) \<Rightarrow> Inl e
        | (dev, _, None) \<Rightarrow>
        (case Truncate dev PageSize of
          (dev, Some e) \<Rightarrow> Inl e
        | (dev, None) \<Rightarrow>
        (case Sync dev of
          (dev, Some e) \<Rightarrow> Inl e
        | (dev, None) \<Rightarrow>
            Inr (newFile dev prefix (co_Sync opts) (co_SyncInterval opts) (co_Now opts) PageSize 0 0 0))))))"

text \<open>
  scanTail: ReplayTail from the header page with a visitor that tracks the highest seq.  Its visitor
  returns no error, but the walk itself panics on a payload length no allocation can hold.
\<close>

definition seq_visit :: "u64 visitor" where
  "seq_visit s off h payload = (if sh_GlobalSeq h > s then sh_GlobalSeq h else s, None)"

definition scanTail :: "device \<Rightarrow> Prefix \<Rightarrow> u64 \<Rightarrow> err + u64 \<times> u64" where
  "scanTail dev prefix sz =
    (case ReplayTail dev prefix (ucast (p_PageSize prefix)) sz seq_visit 0 of
       (cursor, seq, Some Panic) \<Rightarrow> Inl Panic
     | (cursor, seq, _) \<Rightarrow> Inr (cursor, seq))"

definition OpenOnDevice :: "device \<Rightarrow> OpenOptions \<Rightarrow> err + File" where
  "OpenOnDevice dev opts =
    bindE (read_full dev 0 PrefixSize) (\<lambda>hb.
    bindE (ParsePrefix hb) (\<lambda>prefix.
    bindE (dev_Size dev) (\<lambda>sz.
    bindE (read_full dev (p_MetaSlotAOff prefix) MetaSlotSize) (\<lambda>a.
    bindE (read_full dev (p_MetaSlotBOff prefix) MetaSlotSize) (\<lambda>b.
    bindE (MetaLive a b (p_ChecksumKind prefix)) (\<lambda>(live, which).
    bindE (scanTail dev prefix sz) (\<lambda>(cursor, seq).
        Inr (newFile dev prefix (oo_Sync opts) (oo_SyncInterval opts) (oo_Now opts)
               cursor seq (m_CommitSeq live) which))))))))"

section \<open>writer.go: the group append\<close>

record Pending =
  pe_Shard :: u16
  pe_Kind :: u16
  pe_ShardSeq :: u64
  pe_PrevShardSeg :: u64
  pe_TTLClass :: u32
  pe_Flags :: u32
  pe_Payload :: bytes

definition writeAt :: "File \<Rightarrow> bytes \<Rightarrow> u64 \<Rightarrow> File \<times> err option" where
  "writeAt f b off =
    (case WriteAt (f_dev f) b off of
       (dev, n, Some e) \<Rightarrow> (f\<lparr>f_dev := dev\<rparr>, Some e)
     | (dev, n, None) \<Rightarrow> (f\<lparr>f_dev := dev\<rparr>, if n \<noteq> length b then Some ErrShortWrite else None))"

definition now :: "File \<Rightarrow> File \<times> int" where
  "now f = (f\<lparr>f_tick := Suc (f_tick f)\<rparr>, f_now f (f_tick f))"

definition doSync :: "File \<Rightarrow> File \<times> err option" where
  "doSync f =
    (case Sync (f_dev f) of
       (dev, Some e) \<Rightarrow> (f\<lparr>f_dev := dev\<rparr>, Some e)
     | (dev, None) \<Rightarrow> (case now (f\<lparr>f_dev := dev\<rparr>) of (f, t) \<Rightarrow> (f\<lparr>f_lastSync := t\<rparr>, None)))"

definition maybeSync :: "File \<Rightarrow> File \<times> err option" where
  "maybeSync f =
    (case f_sync f of
       SyncAlways \<Rightarrow> doSync f
     | SyncEverySec \<Rightarrow>
         (case now f of (f, t) \<Rightarrow>
            if t - f_lastSync f \<ge> f_interval f then doSync f else (f, None))
     | SyncNo \<Rightarrow> (f, None))"

definition pending_header :: "u64 \<Rightarrow> Pending \<Rightarrow> SegHeader" where
  "pending_header seq p = \<lparr>
     sh_Shard = pe_Shard p, sh_Kind = pe_Kind p, sh_GlobalSeq = seq, sh_ShardSeq = pe_ShardSeq p,
     sh_PayloadLen = 0, sh_PrevShardSeg = pe_PrevShardSeg p, sh_TTLClass = pe_TTLClass p,
     sh_Flags = pe_Flags p, sh_PayloadCRC = 0\<rparr>"

fun append_segs :: "File \<Rightarrow> Pending list \<Rightarrow> u64 list \<Rightarrow> File \<times> u64 list \<times> err option" where
  "append_segs f [] offs = (f, offs, None)"
| "append_segs f (p # ps) offs =
    (let f = f\<lparr>f_globalSeq := f_globalSeq f + 1\<rparr>
     in case SegHeader_Marshal (pending_header (f_globalSeq f) p) (p_ChecksumKind (f_prefix f)) (pe_Payload p) of
          Inl e \<Rightarrow> (f\<lparr>f_globalSeq := f_globalSeq f - 1\<rparr>, offs, Some e)
        | Inr (hb, _) \<Rightarrow>
            (let off = f_cursor f
             in case writeAt f hb off of
                  (f, Some e) \<Rightarrow> (f, offs, Some e)
                | (f, None) \<Rightarrow>
                    (case writeAt f (pe_Payload p) (off + SegHeaderLen) of
                       (f, Some e) \<Rightarrow> (f, offs, Some e)
                     | (f, None) \<Rightarrow>
                         append_segs
                           (f\<lparr>f_cursor := off + SegmentSpan (of_nat (length (pe_Payload p)))\<rparr>)
                           ps (offs @ [off]))))"

definition AppendGroup :: "File \<Rightarrow> Pending list \<Rightarrow> File \<times> u64 list \<times> err option" where
  "AppendGroup f grp =
    (if grp = [] then (f, [], None)
     else case append_segs f grp [] of
       (f, offs, Some e) \<Rightarrow> (f, offs, Some e)
     | (f, offs, None) \<Rightarrow> (case maybeSync f of (f, e) \<Rightarrow> (f, offs, e)))"

definition ReadSegmentAt :: "File \<Rightarrow> u64 \<Rightarrow> err + SegHeader \<times> bytes" where
  "ReadSegmentAt f off = readSegmentAt (f_dev f) (p_ChecksumKind (f_prefix f)) off"

text \<open>Close returns the error of the sync, or else what closing the device returned.\<close>

definition Close :: "err option \<Rightarrow> File \<Rightarrow> File \<times> err option" where
  "Close closed f = (case doSync f of (f, Some e) \<Rightarrow> (f, Some e) | (f, None) \<Rightarrow> (f, closed))"

section \<open>The abstract append\<close>

definition seg_hdr :: "u64 \<Rightarrow> Pending \<Rightarrow> SegHeader" where
  "seg_hdr seq p = (pending_header seq p)\<lparr>
     sh_PayloadLen := of_nat (length (pe_Payload p)),
     sh_PayloadCRC := ucast (crc32c [pe_Payload p])\<rparr>"

fun layout :: "u64 \<Rightarrow> u64 \<Rightarrow> Pending list \<Rightarrow> seg list" where
  "layout c seq [] = []"
| "layout c seq (p # ps) =
    (c, seg_hdr (seq + 1) p, pe_Payload p)
    # layout (c + SegmentSpan (of_nat (length (pe_Payload p)))) (seq + 1) ps"

fun layout_end :: "u64 \<Rightarrow> Pending list \<Rightarrow> u64" where
  "layout_end c [] = c"
| "layout_end c (p # ps) = layout_end (c + SegmentSpan (of_nat (length (pe_Payload p)))) ps"

definition grp_span :: "Pending list \<Rightarrow> nat" where
  "grp_span ps = (\<Sum>p\<leftarrow>ps. span (length (pe_Payload p)))"

text \<open>A group the file has room for: int64 offsets, and payloads the runtime can allocate.\<close>

definition fits :: "u64 \<Rightarrow> Pending list \<Rightarrow> bool" where
  "fits c ps \<longleftrightarrow> unat c + grp_span ps < 2 ^ 62 \<and> (\<forall>p \<in> set ps. length (pe_Payload p) \<le> maxAlloc)"

lemma grp_span_simps [simp]:
  "grp_span [] = 0" "grp_span (p # ps) = span (length (pe_Payload p)) + grp_span ps"
  by (simp_all add: grp_span_def)

lemma SegmentSpan_of_nat:
  assumes "n \<le> maxAlloc" shows "unat (SegmentSpan (of_nat n)) = span n"
  using assms SegmentSpan_unat [of "of_nat n"] by (simp add: maxAlloc_def unat_of_nat)

lemma unat_next:
  assumes "n \<le> maxAlloc" "unat c + span n < 2 ^ 62"
  shows "unat (c + SegmentSpan (of_nat n)) = unat c + span n"
  using assms by (subst unat_add_lem [THEN iffD1]) (simp_all add: SegmentSpan_of_nat)

lemma fits_Cons:
  assumes "fits c (p # ps)"
  shows "unat (c + SegmentSpan (of_nat (length (pe_Payload p)))) = unat c + span (length (pe_Payload p))"
    and "fits (c + SegmentSpan (of_nat (length (pe_Payload p)))) ps"
    and "length (pe_Payload p) \<le> maxAlloc" "unat c + 64 + length (pe_Payload p) < 2 ^ 62"
proof -
  from assms show m: "length (pe_Payload p) \<le> maxAlloc" by (simp add: fits_def)
  from assms show n: "unat (c + SegmentSpan (of_nat (length (pe_Payload p)))) = unat c + span (length (pe_Payload p))"
    by (intro unat_next) (auto simp: fits_def)
  from assms show "fits (c + SegmentSpan (of_nat (length (pe_Payload p)))) ps"
    by (simp add: fits_def n)
  from assms span_bounds(1) [of "length (pe_Payload p)"]
  show "unat c + 64 + length (pe_Payload p) < 2 ^ 62" by (simp add: fits_def)
qed

lemma unat_layout_end: "fits c ps \<Longrightarrow> unat (layout_end c ps) = unat c + grp_span ps"
proof (induction ps arbitrary: c)
  case Nil
  then show ?case by simp
next
  case (Cons p ps)
  then show ?case using fits_Cons [OF Cons.prems] by simp
qed

lemma length_layout [simp]: "length (layout c seq ps) = length ps"
  by (induction ps arbitrary: c seq) simp_all

lemma SegHeader_Marshal_pending:
  "\<exists>hb. SegHeader_Marshal (pending_header seq p) 1 (pe_Payload p) = Inr (hb, seg_hdr seq p)"
  by (simp add: SegHeader_Marshal_def Let_def seg_hdr_def)

section \<open>One segment under faults\<close>

lemma landed_seg:
  assumes "dev.landed d d2 hb pl off (length hb + length pl)" "length hb = 64"
    and "ParseSegHeader hb = Inr h" "VerifyPayload h pl kind = None"
    and "sh_PayloadLen h = of_nat (length pl)" "length pl \<le> maxAlloc"
  shows "seg_at d2 kind off h pl"
  using assms by (auto simp: dev.landed_def seg_at_def)

lemma landed_tail:
  assumes l: "dev.landed d d2 hb pl off m" "m < 64 + length pl" "length hb = 64"
    and h: "ParseSegHeader hb = Inr h" "sh_PayloadLen h = of_nat (length pl)"
    and tail: "length (d_data d) \<le> unat off" and fit: "unat off + 64 + length pl < 2 ^ 62"
  shows "tail_at d2 kind off (of_nat (length (d_data d2)))"
proof -
  have len: "length (d_data d2) = (if m = 0 then length (d_data d) else unat off + m)"
    using l(1) by (simp add: dev.landed_def)
  then have small: "length (d_data d2) < 2 ^ 62" using tail fit l(2) by auto
  then have sz: "unat (of_nat (length (d_data d2)) :: u64) = length (d_data d2)"
    by (simp add: unat_of_nat)
  have u: "unat (off + 64) = unat off + 64"
    using fit by (subst unat_add_lem [THEN iffD1]) simp_all
  have pl: "unat (of_nat (length pl) :: u64) = length pl" using fit by (simp add: unat_of_nat)
  have v: "unat (off + 64 + of_nat (length pl)) = unat off + 64 + length pl"
    using fit by (subst unat_add_lem [THEN iffD1]) (simp_all add: u pl)
  show ?thesis
  proof (cases "m < 64")
    case True
    then have "length (d_data d2) < unat off + 64" using len tail by auto
    then have "\<not> off + 64 \<le> of_nat (length (d_data d2))"
      by (simp add: word_le_nat_alt u sz)
    then show ?thesis by (simp add: tail_at_def)
  next
    case False
    then have "read_full d2 off 64 = Inr hb" using l by (simp add: dev.landed_def)
    moreover have "length (d_data d2) < unat off + 64 + length pl" using len l(2) False by auto
    then have "off + 64 + of_nat (length pl) > of_nat (length (d_data d2))"
      by (simp add: word_less_nat_alt v sz)
    ultimately show ?thesis using h by (simp add: tail_at_def)
  qed
qed

lemma tail_at_eof:
  assumes "length (d_data d) \<le> unat c" "unat c + 64 < 2 ^ 63"
  shows "tail_at d kind c (of_nat (length (d_data d)))"
proof -
  have "unat (of_nat (length (d_data d)) :: u64) = length (d_data d)"
    using assms by (simp add: unat_of_nat)
  moreover have "unat (c + 64) = unat c + 64"
    using assms by (subst unat_add_lem [THEN iffD1]) simp_all
  ultimately have "\<not> c + 64 \<le> of_nat (length (d_data d))"
    using assms by (simp add: word_le_nat_alt)
  then show ?thesis by (simp add: tail_at_def)
qed

lemma writeAt_eq:
  "writeAt f b off =
    (case WriteAt (f_dev f) b off of (d, n, e) \<Rightarrow>
       (f\<lparr>f_dev := d\<rparr>, if e = None \<and> n = length b then None else Some (case e of Some x \<Rightarrow> x | None \<Rightarrow> ErrShortWrite)))"
  by (auto simp: writeAt_def split: prod.splits option.splits)

lemma append_segs_step:
  assumes kind: "p_ChecksumKind (f_prefix f) = 1"
    and m: "SegHeader_Marshal (pending_header (f_globalSeq f + 1) p) 1 (pe_Payload p) = Inr (hb, h)"
    and w: "dev.wr2 (f_dev f) hb (pe_Payload p) (f_cursor f) = (d2, success)" and hb: "length hb = 64"
  shows "if success
    then append_segs f (p # ps) offs =
      append_segs (f\<lparr>f_globalSeq := f_globalSeq f + 1, f_dev := d2,
          f_cursor := f_cursor f + SegmentSpan (of_nat (length (pe_Payload p)))\<rparr>) ps (offs @ [f_cursor f])
    else \<exists>e. append_segs f (p # ps) offs =
      (f\<lparr>f_globalSeq := f_globalSeq f + 1, f_dev := d2\<rparr>, offs, Some e)"
  using assms
  by (auto simp: dev.wr2_def writeAt_eq Let_def split: prod.splits if_splits)

section \<open>A group under faults\<close>

text \<open>Every range that was readable below off still reads the same.\<close>

definition below :: "device \<Rightarrow> device \<Rightarrow> u64 \<Rightarrow> bool" where
  "below d d2 off \<longleftrightarrow>
     (\<forall>i k x. read_full d i k = Inr x \<longrightarrow> unat i + k \<le> unat off \<longrightarrow> read_full d2 i k = Inr x)"

lemma below_refl [simp]: "below d d off"
  by (simp add: below_def)

lemma below_trans:
  "below d d2 off \<Longrightarrow> below d2 d3 off2 \<Longrightarrow> unat off \<le> unat off2 \<Longrightarrow> below d d3 off"
  unfolding below_def by (meson order_trans)

lemma seg_at_below:
  assumes "seg_at d kind c h pl" "below d d2 off" "unat c + 64 + length pl \<le> unat off"
  shows "seg_at d2 kind c h pl"
  using assms seg_at_end(3) [OF assms(1)] by (auto simp: seg_at_def below_def)

lemma log_at_mono: "log_at d kind c ss e \<Longrightarrow> unat c \<le> unat e"
proof (induction ss arbitrary: c)
  case Nil
  then show ?case by simp
next
  case (Cons x ss)
  obtain off h pl where x: "x = (off, h, pl)" by (cases x)
  with Cons.prems have s: "seg_at d kind c h pl" by simp
  from x Cons have "unat (c + SegmentSpan (of_nat (length pl))) \<le> unat e" by simp
  with seg_at_end(4) [OF s] show ?case by simp
qed

lemma log_at_below:
  assumes "log_at d kind c ss e" "below d d2 off" "unat e \<le> unat off"
  shows "log_at d2 kind c ss e"
  using assms
proof (induction ss arbitrary: c)
  case Nil
  then show ?case by simp
next
  case (Cons x ss)
  obtain o2 h pl where x: "x = (o2, h, pl)" by (cases x)
  let ?n = "c + SegmentSpan (of_nat (length pl))"
  from x Cons.prems have s: "o2 = c" "seg_at d kind c h pl" "log_at d kind ?n ss e" by auto
  have "unat c + 64 + length pl \<le> unat off"
    using log_at_mono [OF s(3)] seg_at_end(4) [OF s(2)] span_bounds(1) [of "length pl"] Cons.prems(3)
    by simp
  then have "seg_at d2 kind c h pl" using s(2) Cons.prems(2) by (blast intro: seg_at_below)
  then show ?case using Cons.IH [OF s(3) Cons.prems(2,3)] x s by simp
qed

lemma log_at_in_range:
  "log_at d kind c ss e \<Longrightarrow> (off, h, pl) \<in> set ss \<Longrightarrow> unat off + 64 + length pl \<le> length (d_data d)"
proof (induction ss arbitrary: c)
  case Nil
  then show ?case by simp
next
  case (Cons x ss)
  then show ?case by (cases x) (auto dest: seg_at_end(1))
qed

definition same_file :: "File \<Rightarrow> File \<Rightarrow> bool" where
  "same_file f f' \<longleftrightarrow> f_prefix f' = f_prefix f \<and> f_commitSeq f' = f_commitSeq f
     \<and> f_liveSlot f' = f_liveSlot f \<and> f_sync f' = f_sync f \<and> f_interval f' = f_interval f
     \<and> f_now f' = f_now f"

text \<open>
  What a run of the append loop over ps leaves behind: j segments were acknowledged,
  m are intact on the device, and a scan stops right behind those m.
\<close>

definition appended :: "File \<Rightarrow> File \<Rightarrow> Pending list \<Rightarrow> nat \<Rightarrow> nat \<Rightarrow> bool" where
  "appended f f' ps j m \<longleftrightarrow> j \<le> m \<and> m \<le> Suc j \<and> m \<le> length ps
     \<and> f_cursor f' = layout_end (f_cursor f) (take j ps)
     \<and> log_at (f_dev f') 1 (f_cursor f) (take m (layout (f_cursor f) (f_globalSeq f) ps))
         (layout_end (f_cursor f) (take m ps))
     \<and> tail_at (f_dev f') 1 (layout_end (f_cursor f) (take m ps)) (of_nat (length (d_data (f_dev f'))))
     \<and> below (f_dev f) (f_dev f') (f_cursor f)
     \<and> readable (f_dev f') \<and> same_file f f'"

lemma append_segs_torn:
  assumes "p_ChecksumKind (f_prefix f) = 1" "readable (f_dev f)"
    and "length (d_data (f_dev f)) \<le> unat (f_cursor f)" "fits (f_cursor f) ps"
    and "append_segs f ps offs = (f', offs', eo)"
  shows "\<exists>j m. appended f f' ps j m
    \<and> offs' = offs @ map fst (take j (layout (f_cursor f) (f_globalSeq f) ps))
    \<and> (eo = None \<longrightarrow> j = length ps \<and> length (d_data (f_dev f')) \<le> unat (f_cursor f')
         \<and> f_globalSeq f' = f_globalSeq f + of_nat (length ps))"
  using assms
proof (induction ps arbitrary: f offs)
  case Nil
  moreover from Nil have "tail_at (f_dev f) 1 (f_cursor f) (of_nat (length (d_data (f_dev f))))"
    by (intro tail_at_eof) (auto simp: fits_def)
  ultimately show ?case by (auto simp: appended_def same_file_def)
next
  case (Cons p ps)
  let ?c = "f_cursor f" and ?pl = "pe_Payload p" and ?n = "f_cursor f + SegmentSpan (of_nat (length (pe_Payload p)))"
  note fc = fits_Cons [OF Cons.prems(4)]
  obtain hb where mar: "SegHeader_Marshal (pending_header (f_globalSeq f + 1) p) 1 ?pl = Inr (hb, seg_hdr (f_globalSeq f + 1) p)"
    using SegHeader_Marshal_pending by blast
  note hd = SegHeader_Marshal_Inr [OF mar]
  obtain d2 success where w: "dev.wr2 (f_dev f) hb ?pl ?c = (d2, success)" by fastforce
  from hd(1) have ne: "hb \<noteq> []" by auto
  from dev.wr2_landed [OF Cons.prems(2,3) ne _ w] fc(4) hd(1) obtain m where
    m: "dev.landed (f_dev f) d2 hb ?pl ?c m" "success \<Longrightarrow> m = length hb + length ?pl"
    by auto
  have d2: "readable d2" "below (f_dev f) d2 ?c" using m(1) by (auto simp: dev.landed_def below_def)
  have whole: "seg_at d2 1 ?c (seg_hdr (f_globalSeq f + 1) p) ?pl" if "m = length hb + length ?pl"
    using landed_seg [OF m(1) [unfolded that] hd(1,2,3,4) fc(3)] .
  have eof: "length (d_data d2) \<le> unat ?n" if "m = length hb + length ?pl"
    using m(1) that hd(1) fc(1) span_bounds(1) [of "length ?pl"] by (simp add: dev.landed_def)
  note step = append_segs_step [OF Cons.prems(1) mar w hd(1), of ps offs]
  show ?case
  proof (cases success)
    case True
    let ?f = "f\<lparr>f_globalSeq := f_globalSeq f + 1, f_dev := d2, f_cursor := ?n\<rparr>"
    from m(2) True have full: "m = length hb + length ?pl" by simp
    have run: "append_segs ?f ps (offs @ [?c]) = (f', offs', eo)"
      using step True Cons.prems(5) by simp
    have "length (d_data (f_dev ?f)) \<le> unat (f_cursor ?f)" using eof [OF full] by simp
    then obtain j k where jk: "appended ?f f' ps j k"
        "offs' = (offs @ [?c]) @ map fst (take j (layout ?n (f_globalSeq f + 1) ps))"
        "eo = None \<longrightarrow> j = length ps \<and> length (d_data (f_dev f')) \<le> unat (f_cursor f')
           \<and> f_globalSeq f' = f_globalSeq f + 1 + of_nat (length ps)"
      using Cons.IH [of ?f "offs @ [?c]"] Cons.prems(1) d2(1) fc(2) run by auto
    have bl: "below d2 (f_dev f') ?n" using jk(1) by (simp add: appended_def)
    have "unat ?c + 64 + length ?pl \<le> unat ?n" using fc(1) span_bounds(1) [of "length ?pl"] by simp
    then have "seg_at (f_dev f') 1 ?c (seg_hdr (f_globalSeq f + 1) p) ?pl"
      by (rule seg_at_below [OF whole [OF full] bl])
    moreover have "below (f_dev f) (f_dev f') ?c"
      by (rule below_trans [OF d2(2) bl]) (simp add: fc(1))
    ultimately have "appended f f' (p # ps) (Suc j) (Suc k)"
      using jk(1) by (simp add: appended_def same_file_def)
    then show ?thesis using jk(2,3)
      by (intro exI [of _ "Suc j"] exI [of _ "Suc k"]) (auto simp: add.assoc)
  next
    case False
    with step Cons.prems(5) have f': "f' = f\<lparr>f_globalSeq := f_globalSeq f + 1, f_dev := d2\<rparr>"
        "offs' = offs" "eo \<noteq> None" by auto
    show ?thesis
    proof (cases "m = length hb + length ?pl")
      case True
      have "tail_at d2 1 ?n (of_nat (length (d_data d2)))"
        using eof [OF True] fc(1,2) by (intro tail_at_eof) (auto simp: fits_def)
      then have "appended f f' (p # ps) 0 1"
        using whole [OF True] d2 f' by (simp add: appended_def same_file_def)
      then show ?thesis using f' by auto
    next
      case False
      then have "m < 64 + length ?pl" using m(1) hd(1) by (simp add: dev.landed_def)
      then have "tail_at d2 1 ?c (of_nat (length (d_data d2)))"
        using landed_tail [OF m(1) _ hd(1,2,4) Cons.prems(3) fc(4)] by simp
      then have "appended f f' (p # ps) 0 0"
        using d2 f' by (simp add: appended_def same_file_def)
      then show ?thesis using f' by auto
    qed
  qed
qed

end
