(* ===== verification/FileLog.thy ===== *)
theory FileLog
  imports Writer
begin

unbundle bit_operations_syntax

text \<open>
  The invariant of an open .aki file and what it gives: the file holds a list of
  segments, AppendGroup appends the layout of a group to it, a reopened file has the
  same cursor, sequence and live root, and a group that was torn by write faults leaves
  the old segments plus a prefix of the group.
\<close>

section \<open>The file invariant\<close>

definition seg_seq :: "seg \<Rightarrow> u64" where
  "seg_seq s = sh_GlobalSeq (fst (snd s))"

definition last_seq :: "seg list \<Rightarrow> u64" where
  "last_seq ss = (if ss = [] then 0 else seg_seq (last ss))"

definition std_prefix :: "Prefix \<Rightarrow> bool" where
  "std_prefix p \<longleftrightarrow> wf_Prefix p \<and> p_FormatMajor p = 3 \<and> p_ChecksumKind p = 1 \<and> p_PageSize p = 16384
     \<and> p_MetaSlotAOff p = 4096 \<and> p_MetaSlotBOff p = 8192"

definition page_zero :: "device \<Rightarrow> Prefix \<Rightarrow> u64 \<Rightarrow> nat \<Rightarrow> bool" where
  "page_zero d p commitSeq liveSlot \<longleftrightarrow>
     read_full d 0 100 = Inr (Prefix_Marshal p)
     \<and> (\<exists>a b live. read_full d 4096 128 = Inr a \<and> read_full d 8192 128 = Inr b
          \<and> MetaLive a b 1 = Inr (live, liveSlot) \<and> m_CommitSeq live = commitSeq)"

definition file_inv :: "File \<Rightarrow> seg list \<Rightarrow> bool" where
  "file_inv f ss \<longleftrightarrow>
     std_prefix (f_prefix f) \<and> page_zero (f_dev f) (f_prefix f) (f_commitSeq f) (f_liveSlot f)
     \<and> readable (f_dev f) \<and> length (d_data (f_dev f)) \<le> unat (f_cursor f)
     \<and> log_at (f_dev f) 1 16384 ss (f_cursor f)
     \<and> sorted_wrt (<) (map seg_seq ss) \<and> f_globalSeq f = last_seq ss"

section \<open>Sequence numbers of a layout\<close>

lemma layout_append:
  "layout c seq (ps @ qs) = layout c seq ps @ layout (layout_end c ps) (seq + of_nat (length ps)) qs"
  by (induction ps arbitrary: c seq) (simp_all add: add.assoc)

lemma layout_end_append: "layout_end c (ps @ qs) = layout_end (layout_end c ps) qs"
  by (induction ps arbitrary: c) simp_all

lemma seg_seq_layout:
  "i < length ps \<Longrightarrow> seg_seq (layout c seq ps ! i) = seq + of_nat (Suc i)"
proof (induction ps arbitrary: c seq i)
  case Nil
  then show ?case by simp
next
  case (Cons p ps)
  then show ?case
    by (cases i) (auto simp: seg_seq_def seg_hdr_def pending_header_def add.assoc)
qed

lemma last_seq_layout: "ps \<noteq> [] \<Longrightarrow> last_seq (layout c seq ps) = seq + of_nat (length ps)"
proof -
  assume ne: "ps \<noteq> []"
  then have l: "layout c seq ps \<noteq> []" by (metis length_0_conv length_layout)
  then have "last (layout c seq ps) = layout c seq ps ! (length ps - 1)"
    by (simp add: last_conv_nth)
  with l ne show ?thesis
    by (simp add: last_seq_def seg_seq_layout)
qed

lemma unat_seq_add:
  "unat (s :: u64) + n < 2 ^ 64 \<Longrightarrow> unat (s + of_nat n) = unat s + n"
  by (subst unat_add_lem [THEN iffD1]) (simp_all add: unat_of_nat)

lemma layout_seqs_increase:
  assumes "unat seq + length ps < 2 ^ 64"
  shows "sorted_wrt (<) (map seg_seq (layout c seq ps))" "\<forall>s \<in> set (layout c seq ps). seq < seg_seq s"
proof -
  have u: "unat (seg_seq (layout c seq ps ! i)) = unat seq + Suc i" if "i < length ps" for i
    using that assms seg_seq_layout [OF that, of c seq] unat_seq_add [of seq "Suc i"] by simp
  show "sorted_wrt (<) (map seg_seq (layout c seq ps))"
    by (auto simp: sorted_wrt_iff_nth_less word_less_nat_alt u)
  show "\<forall>s \<in> set (layout c seq ps). seq < seg_seq s"
  proof
    fix s assume "s \<in> set (layout c seq ps)"
    then obtain i where "i < length ps" "layout c seq ps ! i = s" by (auto simp: in_set_conv_nth)
    with u [of i] show "seq < seg_seq s" by (simp add: word_less_nat_alt)
  qed
qed

lemma sorted_seqs_append:
  assumes "sorted_wrt (<) (map seg_seq ss)" "unat (last_seq ss) + length ps < 2 ^ 64"
  shows "sorted_wrt (<) (map seg_seq (ss @ layout c (last_seq ss) ps))"
proof -
  have le: "seg_seq s \<le> last_seq ss" if "s \<in> set ss" for s
  proof -
    from that have ne: "ss \<noteq> []" by auto
    from that obtain i where i: "i < length ss" "ss ! i = s" by (auto simp: in_set_conv_nth)
    have lst: "last_seq ss = seg_seq (ss ! (length ss - 1))" using ne by (simp add: last_seq_def last_conv_nth)
    show ?thesis
    proof (cases "i = length ss - 1")
      case True
      then show ?thesis using i lst by simp
    next
      case False
      with i have "seg_seq (ss ! i) < seg_seq (ss ! (length ss - 1))"
        using assms(1) by (auto simp: sorted_wrt_iff_nth_less)
      then show ?thesis using i lst by simp
    qed
  qed
  have "seg_seq s < seg_seq t" if "s \<in> set ss" "t \<in> set (layout c (last_seq ss) ps)" for s t
    using le [OF that(1)] layout_seqs_increase(2) [OF assms(2), of c] that(2) by (meson order_le_less_trans)
  then show ?thesis
    using assms(1) layout_seqs_increase(1) [OF assms(2), of c]
    unfolding sorted_wrt_append map_append set_map by blast
qed

section \<open>AppendGroup\<close>

lemma Sync_same: "Sync d = (d', e) \<Longrightarrow> d_data d' = d_data d \<and> d_badread d' = d_badread d"
  by (auto simp: Sync_def next_fault_def split: if_splits list.splits fault.splits)

lemma read_full_cong:
  "d_data d' = d_data d \<Longrightarrow> d_badread d' = d_badread d \<Longrightarrow> read_full d' = read_full d"
  by (intro ext) (simp add: read_full_def ReadAt_def)

definition io_same :: "File \<Rightarrow> File \<Rightarrow> bool" where
  "io_same f f' \<longleftrightarrow> d_data (f_dev f') = d_data (f_dev f) \<and> d_badread (f_dev f') = d_badread (f_dev f)
     \<and> f_cursor f' = f_cursor f \<and> f_globalSeq f' = f_globalSeq f \<and> same_file f f'"

lemma now_same: "now f = (f', t) \<Longrightarrow> io_same f f' \<and> f_dev f' = f_dev f"
  by (auto simp: now_def io_same_def same_file_def Let_def split: if_splits list.splits)

lemma io_same_refl: "io_same f f"
  by (simp add: io_same_def same_file_def)

lemma io_same_trans: "io_same f g \<Longrightarrow> io_same g h \<Longrightarrow> io_same f h"
  by (simp add: io_same_def same_file_def)

lemma doSync_same:
  assumes "doSync f = (f', e)"
  shows "io_same f f'"
proof -
  obtain d se where s: "Sync (f_dev f) = (d, se)" by force
  obtain g t where n: "now (f\<lparr>f_dev := d\<rparr>) = (g, t)" by force
  have "io_same f (f\<lparr>f_dev := d\<rparr>)" using Sync_same [OF s] by (simp add: io_same_def same_file_def)
  moreover have "io_same g (g\<lparr>f_lastSync := t\<rparr>)" by (simp add: io_same_def same_file_def)
  ultimately show ?thesis
    using assms s n now_same [OF n] by (cases se) (auto simp: doSync_def intro: io_same_trans)
qed

lemma maybeSync_io_same:
  assumes "maybeSync f = (f', e)"
  shows "io_same f f'"
proof (cases "f_sync f")
  case SyncAlways
  with assms show ?thesis by (simp add: maybeSync_def doSync_same)
next
  case SyncEverySec
  obtain g t where n: "now f = (g, t)" by force
  with assms SyncEverySec now_same [OF n] show ?thesis
    by (auto simp: maybeSync_def split: if_splits dest: doSync_same intro: io_same_trans)
next
  case SyncNo
  with assms show ?thesis by (simp add: maybeSync_def io_same_refl)
qed

lemmas maybeSync_same = maybeSync_io_same [unfolded io_same_def, THEN conjunct1]
  maybeSync_io_same [unfolded io_same_def, THEN conjunct2, THEN conjunct1]
  maybeSync_io_same [unfolded io_same_def, THEN conjunct2, THEN conjunct2, THEN conjunct1]
  maybeSync_io_same [unfolded io_same_def, THEN conjunct2, THEN conjunct2, THEN conjunct2, THEN conjunct1]
  maybeSync_io_same [unfolded io_same_def, THEN conjunct2, THEN conjunct2, THEN conjunct2, THEN conjunct2]

lemma seg_at_cong: "read_full d' = read_full d \<Longrightarrow> seg_at d' = seg_at d"
  by (intro ext) (simp add: seg_at_def)

lemma log_at_cong:
  assumes "read_full d' = read_full d" shows "log_at d' kind c ss e = log_at d kind c ss e"
  using seg_at_cong [OF assms] by (induction ss arbitrary: c) auto

lemma tail_at_cong:
  assumes "read_full d' = read_full d" shows "tail_at d' kind c sz = tail_at d kind c sz"
  unfolding tail_at_def assms by (rule refl)

lemma AppendGroup_torn:
  assumes "p_ChecksumKind (f_prefix f) = 1" "readable (f_dev f)"
    and "length (d_data (f_dev f)) \<le> unat (f_cursor f)" "fits (f_cursor f) ps"
    and run: "AppendGroup f ps = (f', offs, eo)"
  shows "\<exists>j m. appended f f' ps j m
    \<and> offs = map fst (take j (layout (f_cursor f) (f_globalSeq f) ps))
    \<and> (eo = None \<longrightarrow> j = length ps \<and> length (d_data (f_dev f')) \<le> unat (f_cursor f')
         \<and> f_globalSeq f' = f_globalSeq f + of_nat (length ps))"
proof (cases "ps = []")
  case True
  with run have "append_segs f ps [] = (f', offs, eo)" by (simp add: AppendGroup_def)
  from append_segs_torn [OF assms(1-4) this] show ?thesis by simp
next
  case False
  obtain f1 o1 e1 where a: "append_segs f ps [] = (f1, o1, e1)" by (cases "append_segs f ps []") auto
  from append_segs_torn [OF assms(1-4) a] obtain j m where
    1: "appended f f1 ps j m" "o1 = map fst (take j (layout (f_cursor f) (f_globalSeq f) ps))"
      "e1 = None \<longrightarrow> j = length ps \<and> length (d_data (f_dev f1)) \<le> unat (f_cursor f1)
         \<and> f_globalSeq f1 = f_globalSeq f + of_nat (length ps)"
    by auto
  show ?thesis
  proof (cases e1)
    case (Some e)
    with run a False have "f' = f1" "offs = o1" "eo = Some e" by (simp_all add: AppendGroup_def)
    with 1 show ?thesis by (intro exI [of _ j] exI [of _ m]) simp
  next
    case None
    obtain f2 e2 where s2: "maybeSync f1 = (f2, e2)" by force
    with run a False None have s: "maybeSync f1 = (f', eo)" "offs = o1" by (simp_all add: AppendGroup_def)
    note ms = maybeSync_same [OF s(1)] and rf = read_full_cong [OF maybeSync_same(1,2) [OF s(1)]]
    have "appended f f' ps j m"
      using 1(1) ms
      unfolding appended_def log_at_cong [OF rf] tail_at_cong [OF rf] below_def rf readable_def same_file_def
      by simp
    then show ?thesis using 1(2,3) None ms(1,3,4) s(2)
      by (intro exI [of _ j] exI [of _ m]) simp
  qed
qed

section \<open>AppendGroup on a device in working order\<close>

lemma healthy_store:
  assumes "healthy d" "unat off + length bs < 2 ^ 62"
  shows "healthy (d\<lparr>d_data := store_at (d_data d) (unat off) bs\<rparr>)"
  using assms by (auto simp: healthy_def length_store_at)

lemma wr2_healthy:
  assumes "healthy d" "unat off + 64 + length pl < 2 ^ 62" "length hb = 64"
  shows "\<exists>d2. dev.wr2 d hb pl off = (d2, True) \<and> healthy d2"
proof -
  let ?d1 = "d\<lparr>d_data := store_at (d_data d) (unat off) hb\<rparr>"
  have u: "unat (off + 64) = unat off + 64"
    using assms by (subst unat_add_lem [THEN iffD1]) simp_all
  have h1: "healthy ?d1" using assms by (intro healthy_store) auto
  have w1: "WriteAt d hb off = (?d1, length hb, None)" using assms by (intro WriteAt_healthy) auto
  have w2: "WriteAt ?d1 pl (off + 64) =
      (?d1\<lparr>d_data := store_at (d_data ?d1) (unat (off + 64)) pl\<rparr>, length pl, None)"
    using assms u by (intro WriteAt_healthy [OF h1]) auto
  have h2: "healthy (?d1\<lparr>d_data := store_at (d_data ?d1) (unat (off + 64)) pl\<rparr>)"
    using assms u by (intro healthy_store [OF h1]) auto
  show ?thesis using w1 w2 h2 assms(3) by (simp add: dev.wr2_def)
qed

lemma append_segs_healthy:
  assumes "p_ChecksumKind (f_prefix f) = 1" "healthy (f_dev f)" "fits (f_cursor f) ps"
  shows "\<exists>f' offs'. append_segs f ps offs = (f', offs', None) \<and> healthy (f_dev f')"
  using assms
proof (induction ps arbitrary: f offs)
  case Nil
  then show ?case by simp
next
  case (Cons p ps)
  note fc = fits_Cons [OF Cons.prems(3)]
  obtain hb where mar: "SegHeader_Marshal (pending_header (f_globalSeq f + 1) p) 1 (pe_Payload p)
      = Inr (hb, seg_hdr (f_globalSeq f + 1) p)"
    using SegHeader_Marshal_pending by blast
  note hb = SegHeader_Marshal_Inr(1) [OF mar]
  from wr2_healthy [OF Cons.prems(2) fc(4) hb] obtain d2 where
    w: "dev.wr2 (f_dev f) hb (pe_Payload p) (f_cursor f) = (d2, True)" "healthy d2" by blast
  show ?case
    using append_segs_step [OF Cons.prems(1) mar w(1) hb, of ps offs]
      Cons.IH [of "f\<lparr>f_globalSeq := f_globalSeq f + 1, f_dev := d2,
        f_cursor := f_cursor f + SegmentSpan (of_nat (length (pe_Payload p)))\<rparr>" "offs @ [f_cursor f]"]
      Cons.prems(1) w(2) fc(2) by simp
qed

lemma Sync_healthy: "healthy d \<Longrightarrow> Sync d = (d\<lparr>d_synced := d_data d\<rparr>, None)"
  by (simp add: Sync_def healthy_def next_fault_def)

lemma doSync_healthy:
  "healthy (f_dev f) \<Longrightarrow> \<exists>f'. doSync f = (f', None) \<and> healthy (f_dev f') \<and> d_synced (f_dev f') = d_data (f_dev f')"
  by (simp add: doSync_def Sync_healthy now_def) (simp add: healthy_def)

lemma maybeSync_healthy:
  assumes "healthy (f_dev f)"
  shows "\<exists>f'. maybeSync f = (f', None) \<and> healthy (f_dev f')"
proof (cases "f_sync f")
  case SyncAlways
  then show ?thesis using doSync_healthy [OF assms] by (auto simp: maybeSync_def)
next
  case SyncEverySec
  have "healthy (f_dev (f\<lparr>f_tick := Suc (f_tick f)\<rparr>))" using assms by simp
  from doSync_healthy [OF this] show ?thesis using SyncEverySec assms
    by (auto simp: maybeSync_def now_def)
next
  case SyncNo
  then show ?thesis using assms by (simp add: maybeSync_def)
qed

lemma AppendGroup_healthy:
  assumes "p_ChecksumKind (f_prefix f) = 1" "healthy (f_dev f)" "fits (f_cursor f) ps"
  shows "\<exists>f' offs. AppendGroup f ps = (f', offs, None) \<and> healthy (f_dev f')"
proof -
  from append_segs_healthy [OF assms] obtain f1 offs where
    1: "append_segs f ps [] = (f1, offs, None)" "healthy (f_dev f1)" by blast
  from maybeSync_healthy [OF 1(2)] obtain f2 where "maybeSync f1 = (f2, None)" "healthy (f_dev f2)" by blast
  with 1 assms(2) show ?thesis by (auto simp: AppendGroup_def)
qed

section \<open>The invariant under AppendGroup\<close>

lemma page_zero_below:
  assumes "page_zero d p c l" "below d d' off" "16384 \<le> unat off"
  shows "page_zero d' p c l"
proof -
  have "read_full d' i n = Inr x" if "read_full d i n = Inr x" "unat i + n \<le> 16384" for i n x
    using assms(2,3) that by (auto simp: below_def)
  then show ?thesis using assms(1) by (force simp: page_zero_def)
qed

lemma file_inv_cursor: "file_inv f ss \<Longrightarrow> 16384 \<le> unat (f_cursor f)"
  using log_at_mono [of "f_dev f" 1 16384 ss "f_cursor f"] by (simp add: file_inv_def)

lemma file_inv_kind: "file_inv f ss \<Longrightarrow> p_ChecksumKind (f_prefix f) = 1"
  by (simp add: file_inv_def std_prefix_def)

text \<open>Whatever the faults, the old segments and the first m of the group are what a scan finds.\<close>

lemma AppendGroup_crash:
  assumes inv: "file_inv f ss" and fit: "fits (f_cursor f) ps"
    and run: "AppendGroup f ps = (f', offs, eo)"
  shows "\<exists>j m. j \<le> m \<and> m \<le> Suc j \<and> m \<le> length ps
    \<and> offs = map fst (take j (layout (f_cursor f) (f_globalSeq f) ps))
    \<and> f_cursor f' = layout_end (f_cursor f) (take j ps)
    \<and> log_at (f_dev f') 1 16384 (ss @ take m (layout (f_cursor f) (f_globalSeq f) ps))
        (layout_end (f_cursor f) (take m ps))
    \<and> tail_at (f_dev f') 1 (layout_end (f_cursor f) (take m ps)) (of_nat (length (d_data (f_dev f'))))
    \<and> page_zero (f_dev f') (f_prefix f) (f_commitSeq f) (f_liveSlot f)
    \<and> readable (f_dev f') \<and> same_file f f'
    \<and> (eo = None \<longrightarrow> j = length ps \<and> length (d_data (f_dev f')) \<le> unat (f_cursor f')
         \<and> f_globalSeq f' = f_globalSeq f + of_nat (length ps))"
proof -
  from inv have f: "readable (f_dev f)" "length (d_data (f_dev f)) \<le> unat (f_cursor f)"
      "log_at (f_dev f) 1 16384 ss (f_cursor f)"
      "page_zero (f_dev f) (f_prefix f) (f_commitSeq f) (f_liveSlot f)"
    by (auto simp: file_inv_def)
  from AppendGroup_torn [OF file_inv_kind [OF inv] f(1,2) fit run] obtain j m where
    jm: "appended f f' ps j m" "offs = map fst (take j (layout (f_cursor f) (f_globalSeq f) ps))"
      "eo = None \<longrightarrow> j = length ps \<and> length (d_data (f_dev f')) \<le> unat (f_cursor f')
         \<and> f_globalSeq f' = f_globalSeq f + of_nat (length ps)" by blast
  have "below (f_dev f) (f_dev f') (f_cursor f)" using jm(1) by (simp add: appended_def)
  then have "log_at (f_dev f') 1 16384 ss (f_cursor f)"
      "page_zero (f_dev f') (f_prefix f) (f_commitSeq f) (f_liveSlot f)"
    using log_at_below [OF f(3)] page_zero_below [OF f(4) _ file_inv_cursor [OF inv]] by auto
  then show ?thesis using jm
    by (intro exI [of _ j] exI [of _ m]) (auto simp: appended_def log_at_append)
qed

lemma last_seq_append: "ts \<noteq> [] \<Longrightarrow> last_seq (ss @ ts) = last_seq ts"
  by (simp add: last_seq_def)

lemma AppendGroup_inv:
  assumes inv: "file_inv f ss" and fit: "fits (f_cursor f) ps"
    and seq: "unat (f_globalSeq f) + length ps < 2 ^ 64"
    and run: "AppendGroup f ps = (f', offs, None)"
  shows "file_inv f' (ss @ layout (f_cursor f) (f_globalSeq f) ps)"
    and "offs = map fst (layout (f_cursor f) (f_globalSeq f) ps)"
    and "f_cursor f' = layout_end (f_cursor f) ps"
proof -
  from AppendGroup_crash [OF inv fit run] obtain j m where
    jm: "j = length ps" "m = length ps" "offs = map fst (take j (layout (f_cursor f) (f_globalSeq f) ps))"
      "f_cursor f' = layout_end (f_cursor f) (take j ps)"
      "log_at (f_dev f') 1 16384 (ss @ take m (layout (f_cursor f) (f_globalSeq f) ps))
        (layout_end (f_cursor f) (take m ps))"
      "page_zero (f_dev f') (f_prefix f) (f_commitSeq f) (f_liveSlot f)"
      "readable (f_dev f')" "same_file f f'" "length (d_data (f_dev f')) \<le> unat (f_cursor f')"
      "f_globalSeq f' = f_globalSeq f + of_nat (length ps)"
    by auto
  from inv have gs: "f_globalSeq f = last_seq ss" "sorted_wrt (<) (map seg_seq ss)" by (auto simp: file_inv_def)
  have "f_globalSeq f' = last_seq (ss @ layout (f_cursor f) (f_globalSeq f) ps)"
    using jm(10) gs(1) last_seq_layout [of ps "f_cursor f" "f_globalSeq f"]
      last_seq_append [of "layout (f_cursor f) (f_globalSeq f) ps" ss]
    by (cases "ps = []") (auto simp flip: length_greater_0_conv)
  moreover have "sorted_wrt (<) (map seg_seq (ss @ layout (f_cursor f) (f_globalSeq f) ps))"
    unfolding gs(1) by (rule sorted_seqs_append [OF gs(2)]) (use seq gs(1) in simp)
  ultimately show "file_inv f' (ss @ layout (f_cursor f) (f_globalSeq f) ps)"
    using jm inv by (auto simp: file_inv_def same_file_def)
  show "offs = map fst (layout (f_cursor f) (f_globalSeq f) ps)"
    "f_cursor f' = layout_end (f_cursor f) ps" using jm by simp_all
qed

end
