(* ===== verification/Reopen.thy ===== *)
theory Reopen
  imports FileLog
begin

unbundle bit_operations_syntax

text \<open>
  Create and Open against the file invariant: a created file is empty and in its
  invariant, and reopening a device finds the cursor, the sequence and the live root of
  the segments that are on it, also when the last group was torn.
\<close>

section \<open>Writes on a device in working order\<close>

lemma WriteAt_reads:
  assumes "healthy d" "unat off + length bs < 2 ^ 62"
  shows "\<exists>d'. WriteAt d bs off = (d', length bs, None) \<and> healthy d'
    \<and> read_full d' off (length bs) = Inr bs
    \<and> (\<forall>i k x. read_full d i k = Inr x \<longrightarrow> unat i + k \<le> unat off \<or> unat off + length bs \<le> unat i
          \<longrightarrow> read_full d' i k = Inr x)
    \<and> d_data d' = store_at (d_data d) (unat off) bs \<and> d_synced d' = d_synced d"
proof -
  let ?d = "d\<lparr>d_data := store_at (d_data d) (unat off) bs\<rparr>"
  have "read_full ?d i k = Inr x"
    if "read_full d i k = Inr x" "unat i + k \<le> unat off \<or> unat off + length bs \<le> unat i" for i k x
    by (rule read_full_store_other [OF that]) simp_all
  then show ?thesis
    using assms healthy_store [OF assms] WriteAt_healthy [of d off bs]
      read_full_store_same [OF healthy_readable [OF assms(1)] assms(2)] by simp
qed

lemma Truncate_reads:
  assumes "healthy d" "n < 2 ^ 62"
  shows "\<exists>d'. Truncate d n = (d', None) \<and> healthy d' \<and> length (d_data d') = n
    \<and> (\<forall>i k x. read_full d i k = Inr x \<longrightarrow> unat i + k \<le> n \<longrightarrow> read_full d' i k = Inr x)"
proof -
  let ?d = "d\<lparr>d_data := take n (d_data d @ replicate (n - length (d_data d)) 0)\<rparr>"
  have "read_full ?d i k = Inr x" if "read_full d i k = Inr x" "unat i + k \<le> n" for i k x
  proof (cases "k = 0")
    case True
    with that show ?thesis by (auto simp: read_full_Inr sub_def)
  next
    case False
    with that have "unat i + k \<le> length (d_data d)" by (auto simp: read_full_Inr)
    then have "sub (take n (d_data d @ replicate (n - length (d_data d)) 0)) (unat i) k = sub (d_data d) (unat i) k"
      using that(2) by (simp add: sub_def drop_take take_append min_absorb1) linarith
    then show ?thesis using that False by (auto simp: read_full_Inr)
  qed
  moreover have "length (d_data ?d) = n" by (simp add: min_def)
  moreover have "healthy ?d" using assms \<open>length (d_data ?d) = n\<close> unfolding healthy_def by simp
  ultimately show ?thesis using assms by (simp add: Truncate_def healthy_def next_fault_def)
qed

section \<open>Create\<close>

lemma MetaLive_same:
  "ParseMetaSlot a kind = Inr m \<Longrightarrow> MetaLive a a kind = Inr (m, 0)"
  by (simp add: MetaLive_def)

lemma std_prefix_NewPrefix: "length uuid = 16 \<Longrightarrow> std_prefix (NewPrefix n t uuid nanos)"
  by (simp add: std_prefix_def NewPrefix_def wf_Prefix_def)

lemma NewPrefix_fields [simp]:
  "p_ChecksumKind (NewPrefix n t u c) = 1" "p_MetaSlotAOff (NewPrefix n t u c) = 4096"
  "p_MetaSlotBOff (NewPrefix n t u c) = 8192"
  by (simp_all add: NewPrefix_def)

lemma CreateOnDevice_inv:
  assumes dev: "healthy d" and uuid: "length (co_UUID opts) = 16"
  shows "\<exists>f. CreateOnDevice d opts = Inr f \<and> healthy (f_dev f) \<and> file_inv f []
    \<and> d_synced (f_dev f) = d_data (f_dev f) \<and> f_cursor f = 16384 \<and> f_globalSeq f = 0
    \<and> f_sync f = co_Sync opts"
proof -
  let ?p = "NewPrefix (co_ShardCount opts) (co_SepThreshold opts) (co_UUID opts) (co_CreatedUnixNanos opts)"
  let ?m = "zero_MetaSlot\<lparr>m_FileSize := PageSize, m_CleanShutdown := 1\<rparr>"
  obtain mb where mb: "MetaSlot_Marshal ?m 1 = Inr mb" using MetaSlot_Marshal_crc by blast
  note pm = ParseMetaSlot_Marshal [OF mb]
  from WriteAt_reads [OF dev, of 0 "Prefix_Marshal ?p"] obtain d1 where
    d1: "WriteAt d (Prefix_Marshal ?p) 0 = (d1, 100, None)" "healthy d1" "read_full d1 0 100 = Inr (Prefix_Marshal ?p)"
    by auto
  from WriteAt_reads [OF d1(2), of 4096 mb] pm obtain d2 where
    d2: "WriteAt d1 mb 4096 = (d2, 128, None)" "healthy d2" "read_full d2 4096 128 = Inr mb"
      "read_full d2 0 100 = Inr (Prefix_Marshal ?p)" using d1(3) by auto
  from WriteAt_reads [OF d2(2), of 8192 mb] pm obtain d3 where
    d3: "WriteAt d2 mb 8192 = (d3, 128, None)" "healthy d3" "read_full d3 8192 128 = Inr mb"
      "read_full d3 4096 128 = Inr mb" "read_full d3 0 100 = Inr (Prefix_Marshal ?p)" using d2(3,4) by auto
  from Truncate_reads [OF d3(2), of 16384] obtain d4 where
    d4: "Truncate d3 16384 = (d4, None)" "healthy d4" "length (d_data d4) = 16384"
      "read_full d4 8192 128 = Inr mb" "read_full d4 4096 128 = Inr mb" "read_full d4 0 100 = Inr (Prefix_Marshal ?p)"
    using d3(3-5) by auto
  let ?d = "d4\<lparr>d_synced := d_data d4\<rparr>"
  let ?f = "newFile ?d ?p (co_Sync opts) (co_SyncInterval opts) (co_Now opts) PageSize 0 0 0"
  have cr: "CreateOnDevice d opts = Inr ?f"
    unfolding CreateOnDevice_def using d1(1) mb d2(1) d3(1) d4(1) Sync_healthy [OF d4(2)] by (simp add: Let_def)
  have rf: "read_full ?d = read_full d4" by (rule read_full_cong) simp_all
  have "page_zero ?d ?p 0 0"
    unfolding page_zero_def rf using d4(4-6) MetaLive_same [OF pm(2)]
    by (auto simp: zero_MetaSlot_def)
  then have "file_inv ?f []"
    using std_prefix_NewPrefix [OF uuid] d4(2,3)
    by (auto simp: file_inv_def newFile_def last_seq_def healthy_def readable_def)
  moreover have "healthy (f_dev ?f)" using d4(2) by (simp add: newFile_def healthy_def)
  ultimately show ?thesis using cr by (simp add: newFile_def)
qed

section \<open>Open\<close>

lemma visit_all_seq:
  assumes "sorted_wrt (<) (map seg_seq ss)" "\<forall>x \<in> set ss. s \<le> seg_seq x"
  shows "visit_all seq_visit s ss e = (e, if ss = [] then s else last_seq ss, None)"
  using assms
proof (induction ss arbitrary: s)
  case Nil
  then show ?case by simp
next
  case (Cons x ss)
  obtain off h pl where x: "x = (off, h, pl)" by (cases x)
  have "visit_all seq_visit (seg_seq x) ss e = (e, if ss = [] then seg_seq x else last_seq ss, None)"
    using Cons by (intro Cons.IH) (auto intro: less_imp_le)
  moreover have "visit_all seq_visit s (x # ss) e = visit_all seq_visit (seg_seq x) ss e"
    using Cons.prems(2) by (auto simp: x seq_visit_def seg_seq_def)
  ultimately show ?case by (simp add: last_seq_def)
qed

text \<open>A device that holds page zero, the segments ss and then nothing intact.\<close>

definition holds :: "device \<Rightarrow> Prefix \<Rightarrow> u64 \<Rightarrow> nat \<Rightarrow> seg list \<Rightarrow> u64 \<Rightarrow> bool" where
  "holds d p commitSeq liveSlot ss e \<longleftrightarrow>
     std_prefix p \<and> page_zero d p commitSeq liveSlot \<and> readable d
     \<and> log_at d 1 16384 ss e \<and> tail_at d 1 e (of_nat (length (d_data d)))"

lemma holds_replay:
  assumes "holds d p cs ls ss e"
  shows "ReplayTail d p 16384 (of_nat (Size d)) visit s = visit_all visit s ss e"
proof -
  from assms have h: "log_at d 1 16384 ss e" "tail_at d 1 e (of_nat (length (d_data d)))"
      "p_ChecksumKind p = 1" "length (d_data d) < 2 ^ 62"
    by (auto simp: holds_def std_prefix_def readable_def)
  have "\<forall>(off, h, pl) \<in> set ss. unat off + 64 + length pl \<le> unat (of_nat (Size d) :: u64)"
    using log_at_in_range [OF h(1)] h(4) by (auto simp: Size_def unat_of_nat)
  then show ?thesis using h ReplayTail_log [of d p 16384 ss e "of_nat (Size d)" visit s] by (simp add: Size_def)
qed

lemma file_inv_holds:
  assumes "file_inv f ss" "unat (f_cursor f) < 2 ^ 62"
  shows "holds (f_dev f) (f_prefix f) (f_commitSeq f) (f_liveSlot f) ss (f_cursor f)"
  using assms tail_at_eof [of "f_dev f" "f_cursor f" 1] by (auto simp: holds_def file_inv_def)

lemma OpenOnDevice_holds:
  assumes h: "holds d p cs ls ss e" and s: "sorted_wrt (<) (map seg_seq ss)"
  shows "OpenOnDevice d opts =
    Inr (newFile d p (oo_Sync opts) (oo_SyncInterval opts) (oo_Now opts) e (last_seq ss) cs ls)"
proof -
  have v: "visit_all seq_visit 0 ss e = (e, last_seq ss, None)"
    using visit_all_seq [OF s, of 0 e] by (auto simp: last_seq_def)
  from h obtain a b live where
    pz: "read_full d 0 100 = Inr (Prefix_Marshal p)" "read_full d 4096 128 = Inr a" "read_full d 8192 128 = Inr b"
      "MetaLive a b 1 = Inr (live, ls)" "m_CommitSeq live = cs"
    by (auto simp: holds_def page_zero_def)
  from h have p: "wf_Prefix p" "p_FormatMajor p = 3" "p_ChecksumKind p = 1" "p_PageSize p = 16384"
     "p_MetaSlotAOff p = 4096" "p_MetaSlotBOff p = 8192" by (auto simp: holds_def std_prefix_def)
  have "scanTail d p (of_nat (Size d)) = Inr (e, last_seq ss)"
    using holds_replay [OF h, of seq_visit 0] v p by (simp add: scanTail_def)
  moreover have "dev_Size d = Inr (of_nat (Size d))" using h by (intro dev_Size_readable) (simp add: holds_def)
  ultimately show ?thesis
    using pz p ParsePrefix_Marshal [OF p(1)] by (simp add: OpenOnDevice_def)
qed

lemma newFile_inv:
  assumes "holds d p cs ls ss e" "sorted_wrt (<) (map seg_seq ss)" "length (d_data d) \<le> unat e"
  shows "file_inv (newFile d p sy iv nw e (last_seq ss) cs ls) ss"
  using assms by (auto simp: file_inv_def newFile_def holds_def)

section \<open>Segments of a file in its invariant\<close>

lemma log_at_seg: "log_at d kind c ss e \<Longrightarrow> (off, h, pl) \<in> set ss \<Longrightarrow> seg_at d kind off h pl"
  by (induction d kind c ss e rule: log_at.induct) auto

lemma log_at_aligned:
  "log_at d kind c ss e \<Longrightarrow> unat c mod 4096 = 0 \<Longrightarrow> (off, h, pl) \<in> set ss \<Longrightarrow> unat off mod 4096 = 0"
proof (induction d kind c ss e rule: log_at.induct)
  case (2 d kind c off' h' pl' ss e)
  then have "unat (c + SegmentSpan (of_nat (length pl'))) = unat c + span (length pl')"
    using seg_at_end(4) by auto
  moreover have "span (length pl') mod 4096 = 0" by (simp add: span_def)
  ultimately have "unat (c + SegmentSpan (of_nat (length pl'))) mod 4096 = 0" using 2 by auto
  then show ?case using 2 by auto
qed simp

section \<open>Durability\<close>

lemma doSync_synced: "doSync f = (f', None) \<Longrightarrow> d_synced (f_dev f') = d_data (f_dev f')"
  by (auto simp: doSync_def Sync_def now_def next_fault_def
      split: prod.splits option.splits if_splits list.splits fault.splits)

lemma append_segs_sync: "append_segs f ps offs = (f', offs', eo) \<Longrightarrow> f_sync f' = f_sync f"
proof (induction ps arbitrary: f offs)
  case (Cons p ps)
  then show ?case
    by (auto simp: Let_def writeAt_eq split: sum.splits prod.splits option.splits if_splits)
qed simp

lemma AppendGroup_synced:
  assumes "f_sync f = SyncAlways" "ps \<noteq> []" "AppendGroup f ps = (f', offs, None)"
  shows "d_synced (f_dev f') = d_data (f_dev f')"
proof -
  obtain f1 o1 e1 where a: "append_segs f ps [] = (f1, o1, e1)" by (cases "append_segs f ps []") auto
  with assms have e: "e1 = None" by (auto simp: AppendGroup_def split: option.splits)
  obtain f2 e2 where m: "maybeSync f1 = (f2, e2)" by force
  from a e m assms have "f2 = f'" "e2 = None" by (auto simp: AppendGroup_def)
  moreover have "f_sync f1 = SyncAlways" using append_segs_sync [OF a] assms(1) by simp
  ultimately show ?thesis using m doSync_synced by (simp add: maybeSync_def)
qed

lemma holds_cong:
  assumes "d_data d' = d_data d" "d_badread d' = d_badread d"
  shows "holds d' p cs ls ss e = holds d p cs ls ss e"
  using assms log_at_cong [OF read_full_cong [OF assms]] tail_at_cong [OF read_full_cong [OF assms]]
    read_full_cong [OF assms]
  by (simp add: holds_def page_zero_def readable_def)

lemma file_inv_dev:
  assumes "file_inv f ss" "d_data d' = d_data (f_dev f)" "d_badread d' = d_badread (f_dev f)"
  shows "file_inv (f\<lparr>f_dev := d'\<rparr>) ss"
  using assms log_at_cong [OF read_full_cong [OF assms(2,3)]] read_full_cong [OF assms(2,3)]
  by (simp add: file_inv_def page_zero_def readable_def)

lemma AppendGroup_holds:
  assumes inv: "file_inv f ss" and fit: "fits (f_cursor f) ps"
    and run: "AppendGroup f ps = (f', offs, eo)"
  shows "\<exists>m. length offs \<le> m \<and> m \<le> length ps \<and> (eo = None \<longrightarrow> m = length ps)
    \<and> holds (f_dev f') (f_prefix f) (f_commitSeq f) (f_liveSlot f)
        (ss @ take m (layout (f_cursor f) (f_globalSeq f) ps)) (layout_end (f_cursor f) (take m ps))"
proof -
  from AppendGroup_crash [OF inv fit run] obtain j m where
    jm: "j \<le> m" "m \<le> length ps" "offs = map fst (take j (layout (f_cursor f) (f_globalSeq f) ps))"
      "log_at (f_dev f') 1 16384 (ss @ take m (layout (f_cursor f) (f_globalSeq f) ps))
        (layout_end (f_cursor f) (take m ps))"
      "tail_at (f_dev f') 1 (layout_end (f_cursor f) (take m ps)) (of_nat (length (d_data (f_dev f'))))"
      "page_zero (f_dev f') (f_prefix f) (f_commitSeq f) (f_liveSlot f)" "readable (f_dev f')"
      "eo = None \<longrightarrow> j = length ps"
    by auto
  moreover have "std_prefix (f_prefix f)" using inv by (simp add: file_inv_def)
  ultimately show ?thesis by (intro exI [of _ m]) (auto simp: holds_def)
qed

lemma take_layout: "take m (layout c seq ps) = layout c seq (take m ps)"
  by (induction ps arbitrary: m c seq) (auto simp: take_Cons split: nat.splits)

lemma layout_seqs_sorted:
  assumes "file_inv f ss" "unat (f_globalSeq f) + length ps < 2 ^ 64"
  shows "sorted_wrt (<) (map seg_seq (ss @ take m (layout (f_cursor f) (f_globalSeq f) ps)))"
  using assms sorted_seqs_append [of ss "take m ps" "f_cursor f"] by (simp add: file_inv_def take_layout)

end
