(* ===== verification/FileProps.thy ===== *)
theory FileProps
  imports Reopen
begin

unbundle bit_operations_syntax

text \<open>
  The properties of the open file: what AppendGroup, ReadSegmentAt, Create and Open do to
  the list of segments on the device, without faults, with torn writes and across a
  power cut.  The witnesses run on a fresh file created on an empty device.
\<close>

section \<open>A concrete file\<close>

definition demo_dev :: device where
  "demo_dev = \<lparr>d_data = [], d_synced = [], d_readonly = False, d_faults = [], d_badread = (\<lambda>_ _. False)\<rparr>"

definition demo_opts :: CreateOptions where
  "demo_opts = \<lparr>co_ShardCount = 4, co_SepThreshold = 64, co_UUID = replicate 16 7, co_CreatedUnixNanos = 1,
     co_Sync = SyncAlways, co_SyncInterval = 0, co_Now = int\<rparr>"

definition demo_open :: OpenOptions where
  "demo_open = \<lparr>oo_Sync = SyncAlways, oo_SyncInterval = 0, oo_Now = int\<rparr>"

definition demo_pending :: Pending where
  "demo_pending = \<lparr>pe_Shard = 1, pe_Kind = 1, pe_ShardSeq = 1, pe_PrevShardSeg = 0, pe_TTLClass = 0,
     pe_Flags = 1, pe_Payload = [104, 105]\<rparr>"

lemma healthy_demo: "healthy demo_dev" and length_demo: "length (co_UUID demo_opts) = 16"
  by (simp_all add: demo_dev_def demo_opts_def healthy_def)

lemma fits_demo: "fits 16384 [demo_pending]"
  by (simp add: fits_def demo_pending_def span_def maxAlloc_def)

lemma demo_file:
  obtains f where "CreateOnDevice demo_dev demo_opts = Inr f" "healthy (f_dev f)" "file_inv f []"
    "f_cursor f = 16384" "f_globalSeq f = 0" "f_sync f = SyncAlways"
  using CreateOnDevice_inv [OF healthy_demo length_demo] by (auto simp: demo_opts_def)

lemma demo_append:
  assumes "length (pe_Payload p) < 2 ^ 32"
  obtains f f' where "CreateOnDevice demo_dev demo_opts = Inr f" "AppendGroup f [p] = (f', [16384], None)"
    "healthy (f_dev f')" "file_inv f' [(16384, seg_hdr 1 p, pe_Payload p)]" "same_file f f'"
    "f_globalSeq f' = 1" "unat (f_cursor f') = 16384 + span (length (pe_Payload p))"
proof -
  obtain f where f: "CreateOnDevice demo_dev demo_opts = Inr f" "healthy (f_dev f)" "file_inv f []"
    "f_cursor f = 16384" "f_globalSeq f = 0" by (rule demo_file)
  have fit: "fits (f_cursor f) [p]" "unat (f_globalSeq f) + length [p] < 2 ^ 64"
    using assms f(4,5) span_bounds(2) [of "length (pe_Payload p)"] by (simp_all add: fits_def maxAlloc_def)
  obtain f' offs where a: "AppendGroup f [p] = (f', offs, None)" "healthy (f_dev f')"
    using AppendGroup_healthy [OF file_inv_kind [OF f(3)] f(2) fit(1)] by blast
  note i = AppendGroup_inv [OF f(3) fit a(1)]
  from AppendGroup_crash [OF f(3) fit(1) a(1)] have "same_file f f'" by blast
  moreover have "f_globalSeq f' = 1"
    using i(1) f(5) by (simp add: file_inv_def last_seq_def seg_seq_def seg_hdr_def pending_header_def)
  moreover have "unat (f_cursor f') = 16384 + span (length (pe_Payload p))"
    using i(3) unat_layout_end [OF fit(1)] f(4) by simp
  ultimately show ?thesis using that [OF f(1), of f'] a i f(4,5) by simp
qed

section \<open>The properties\<close>

text \<open>
  C1. AppendGroup implements the abstract append: on a device in working order it returns no
  error and the offsets of the layout, and the file then holds its old segments followed
  by the group's, in order, with increasing sequence numbers.
\<close>

theorem append_group_refines:
  assumes "file_inv f ss" "healthy (f_dev f)" "fits (f_cursor f) ps"
    and "unat (f_globalSeq f) + length ps < 2 ^ 64"
  shows "\<exists>f'. AppendGroup f ps = (f', map fst (layout (f_cursor f) (f_globalSeq f) ps), None)
    \<and> healthy (f_dev f') \<and> file_inv f' (ss @ layout (f_cursor f) (f_globalSeq f) ps)
    \<and> f_cursor f' = layout_end (f_cursor f) ps"
proof -
  from AppendGroup_healthy [OF file_inv_kind [OF assms(1)] assms(2,3)] obtain f' offs where
    "AppendGroup f ps = (f', offs, None)" "healthy (f_dev f')" by blast
  with AppendGroup_inv [OF assms(1,3,4)] show ?thesis by blast
qed

theorem append_group_refines_witness:
  "\<exists>f f'. CreateOnDevice demo_dev demo_opts = Inr f \<and> AppendGroup f [demo_pending] = (f', [16384], None)
     \<and> file_inv f' [(16384, seg_hdr 1 demo_pending, [104, 105])]"
proof -
  obtain f where f: "CreateOnDevice demo_dev demo_opts = Inr f" "healthy (f_dev f)" "file_inv f []"
    "f_cursor f = 16384" "f_globalSeq f = 0" by (rule demo_file)
  from append_group_refines [OF f(3,2), of "[demo_pending]"] fits_demo f(4,5)
  show ?thesis using f(1) by (auto simp: demo_pending_def)
qed

text \<open>
  C2. Torn groups: whatever writes fail or come up short while a group is appended, the
  file reopens with its old segments followed by a prefix of the group that covers every
  offset AppendGroup returned, the whole group if it returned no error, and with the root
  the file had.
\<close>

theorem append_group_crash_recovers:
  assumes "file_inv f ss" "fits (f_cursor f) ps" "unat (f_globalSeq f) + length ps < 2 ^ 64"
    and "AppendGroup f ps = (f', offs, eo)"
  shows "\<exists>m g. length offs \<le> m \<and> m \<le> length ps \<and> (eo = None \<longrightarrow> m = length ps)
    \<and> OpenOnDevice (f_dev f') opts = Inr g
    \<and> f_cursor g = layout_end (f_cursor f) (take m ps)
    \<and> f_globalSeq g = last_seq (ss @ take m (layout (f_cursor f) (f_globalSeq f) ps))
    \<and> f_commitSeq g = f_commitSeq f \<and> f_liveSlot g = f_liveSlot f
    \<and> (\<forall>visit s. ReplayTail (f_dev g) (f_prefix g) 16384 (of_nat (Size (f_dev g))) visit s
         = visit_all visit s (ss @ take m (layout (f_cursor f) (f_globalSeq f) ps)) (f_cursor g))"
proof -
  from AppendGroup_holds [OF assms(1,2,4)] obtain m where
    m: "length offs \<le> m" "m \<le> length ps" "eo = None \<longrightarrow> m = length ps"
      "holds (f_dev f') (f_prefix f) (f_commitSeq f) (f_liveSlot f)
        (ss @ take m (layout (f_cursor f) (f_globalSeq f) ps)) (layout_end (f_cursor f) (take m ps))"
    by blast
  note o = OpenOnDevice_holds [OF m(4) layout_seqs_sorted [OF assms(1,3)], of opts]
  show ?thesis
    by (rule exI [of _ m], rule exI, intro conjI, rule m(1), rule m(2), rule m(3), rule o)
      (simp_all add: newFile_def holds_replay [OF m(4)])
qed

theorem append_group_crash_recovers_witness:
  "\<exists>f f' offs eo g m. CreateOnDevice demo_dev demo_opts = Inr f
     \<and> AppendGroup (f\<lparr>f_dev := (f_dev f)\<lparr>d_faults := [NoFault, ShortAfter 1]\<rparr>\<rparr>) [demo_pending] = (f', offs, eo)
     \<and> OpenOnDevice (f_dev f') demo_open = Inr g \<and> m \<le> 1
     \<and> f_cursor g = layout_end 16384 (take m [demo_pending])"
proof -
  obtain f where f: "CreateOnDevice demo_dev demo_opts = Inr f" "file_inv f []"
    "f_cursor f = 16384" "f_globalSeq f = 0" by (rule demo_file)
  let ?f = "f\<lparr>f_dev := (f_dev f)\<lparr>d_faults := [NoFault, ShortAfter 1]\<rparr>\<rparr>"
  have i: "file_inv ?f []" by (rule file_inv_dev [OF f(2)]) simp_all
  obtain f' offs eo where a: "AppendGroup ?f [demo_pending] = (f', offs, eo)"
    by (cases "AppendGroup ?f [demo_pending]") auto
  have fit: "fits (f_cursor ?f) [demo_pending]" "unat (f_globalSeq ?f) + length [demo_pending] < 2 ^ 64"
    using fits_demo f(3,4) by simp_all
  from append_group_crash_recovers [OF i fit a, of demo_open] obtain m g where
    "OpenOnDevice (f_dev f') demo_open = Inr g" "m \<le> 1" "f_cursor g = layout_end 16384 (take m [demo_pending])"
    using f(3) by auto
  with f(1) a show ?thesis by blast
qed

text \<open>
  C13. Durability: under SyncAlways, when AppendGroup has returned without an error a power
  cut that throws away every byte not yet synced loses nothing: the reopened file holds the
  old segments and the whole group.
\<close>

theorem append_group_durable:
  assumes "file_inv f ss" "fits (f_cursor f) ps" "unat (f_globalSeq f) + length ps < 2 ^ 64"
    and "f_sync f = SyncAlways" "ps \<noteq> []" "AppendGroup f ps = (f', offs, None)"
  shows "\<exists>g. OpenOnDevice ((f_dev f')\<lparr>d_data := d_synced (f_dev f')\<rparr>) opts = Inr g
    \<and> file_inv g (ss @ layout (f_cursor f) (f_globalSeq f) ps)"
proof -
  let ?ss = "ss @ layout (f_cursor f) (f_globalSeq f) ps"
  note sy = AppendGroup_synced [OF assms(4-6)]
  have dev: "(f_dev f')\<lparr>d_data := d_synced (f_dev f')\<rparr> = f_dev f'" using sy by simp
  have inv: "file_inv f' ?ss" by (rule AppendGroup_inv(1) [OF assms(1-3,6)])
  have c: "unat (f_cursor f') < 2 ^ 62"
    using AppendGroup_inv(3) [OF assms(1-3,6)] unat_layout_end [OF assms(2)] assms(2) by (simp add: fits_def)
  have s: "sorted_wrt (<) (map seg_seq ?ss)" using inv by (simp add: file_inv_def)
  note h = file_inv_holds [OF inv c]
  show ?thesis
    unfolding dev using OpenOnDevice_holds [OF h s, of opts] newFile_inv [OF h s] inv by (simp add: file_inv_def)
qed

theorem append_group_durable_witness:
  "\<exists>f f' g. CreateOnDevice demo_dev demo_opts = Inr f \<and> AppendGroup f [demo_pending] = (f', [16384], None)
     \<and> OpenOnDevice ((f_dev f')\<lparr>d_data := d_synced (f_dev f')\<rparr>) demo_open = Inr g
     \<and> file_inv g (layout 16384 0 [demo_pending])"
proof -
  obtain f where f: "CreateOnDevice demo_dev demo_opts = Inr f" "healthy (f_dev f)" "file_inv f []"
    "f_cursor f = 16384" "f_globalSeq f = 0" "f_sync f = SyncAlways" by (rule demo_file)
  have fit: "fits (f_cursor f) [demo_pending]" "unat (f_globalSeq f) + length [demo_pending] < 2 ^ 64"
    using fits_demo f(4,5) by simp_all
  obtain f' offs where a: "AppendGroup f [demo_pending] = (f', offs, None)"
    using AppendGroup_healthy [OF file_inv_kind [OF f(3)] f(2) fit(1)] by blast
  then have "offs = [16384]" using AppendGroup_inv(2) [OF f(3) fit a] f(4,5) by simp
  with a f(1) append_group_durable [OF f(3) fit f(6) _ a, of demo_open] f(4,5) show ?thesis by auto
qed

text \<open>
  C27. A clean reopen is faithful: opening the device of a file in its invariant gives a file
  in its invariant with the same segments, cursor, sequence, commit sequence and live slot.
\<close>

theorem open_after_append:
  assumes "file_inv f ss" "unat (f_cursor f) < 2 ^ 62"
  shows "\<exists>g. OpenOnDevice (f_dev f) opts = Inr g \<and> file_inv g ss \<and> f_dev g = f_dev f
    \<and> f_prefix g = f_prefix f \<and> f_cursor g = f_cursor f \<and> f_globalSeq g = f_globalSeq f
    \<and> f_commitSeq g = f_commitSeq f \<and> f_liveSlot g = f_liveSlot f"
proof -
  have s: "sorted_wrt (<) (map seg_seq ss)" "last_seq ss = f_globalSeq f"
    using assms(1) by (simp_all add: file_inv_def)
  note h = file_inv_holds [OF assms]
  show ?thesis
    using OpenOnDevice_holds [OF h s(1), of opts] newFile_inv [OF h s(1)] assms(1) s(2)
    by (simp add: file_inv_def newFile_def)
qed

theorem open_after_append_witness:
  "\<exists>f g. CreateOnDevice demo_dev demo_opts = Inr f \<and> OpenOnDevice (f_dev f) demo_open = Inr g
     \<and> file_inv g [] \<and> f_cursor g = 16384 \<and> f_globalSeq g = 0"
proof -
  obtain f where f: "CreateOnDevice demo_dev demo_opts = Inr f" "file_inv f []"
    "f_cursor f = 16384" "f_globalSeq f = 0" by (rule demo_file)
  from open_after_append [OF f(2), of demo_open] f show ?thesis by auto
qed

end
