(* ===== verification/Rows.thy ===== *)
theory Rows
  imports Format
begin

unbundle bit_operations_syntax

text \<open>
  Fixed-size rows.  Every root of the file (extent map, shard root table, barrier, free
  map, seg-stats, index checkpoint, chunk descriptors) is a header and a run of rows of one size.
  dec_rows is the loop the decoders share, put_rows the loop of the encoders that fill a buffer they
  made and append_rows that of the encoders that append.  The locale
  row_codec states what a row codec promises; its lemmas turn that into the
  round trip and the no-over-read property of the whole run.
\<close>

section \<open>The loops over rows\<close>

fun dec_rows :: "(bytes \<Rightarrow> err + 'r) \<Rightarrow> nat \<Rightarrow> bytes \<Rightarrow> nat \<Rightarrow> nat \<Rightarrow> err + 'r list" where
  "dec_rows dec sz b off 0 = Inr []"
| "dec_rows dec sz b off (Suc n) =
    bindE (slice b off (off + sz)) (\<lambda>w.
    bindE (dec w) (\<lambda>r.
    bindE (dec_rows dec sz b (off + sz) n) (\<lambda>rs.
      Inr (r # rs))))"

fun put_rows :: "('r \<Rightarrow> bytes) \<Rightarrow> nat \<Rightarrow> bytes \<Rightarrow> nat \<Rightarrow> 'r list \<Rightarrow> bytes" where
  "put_rows enc sz b off [] = b"
| "put_rows enc sz b off (r # rs) = put_rows enc sz (put b off (enc r)) (off + sz) rs"

fun append_rows :: "(bytes \<Rightarrow> 'r \<Rightarrow> bytes) \<Rightarrow> bytes \<Rightarrow> 'r list \<Rightarrow> bytes" where
  "append_rows app dst [] = dst"
| "append_rows app dst (r # rs) = append_rows app (app dst r) rs"

text \<open>
  The count-prefixed run: a payload too short for its header is ErrShort, and a count the rest
  of the payload has no room for is ErrLength, before the slice of rows is made; esz is the size
  of a row in memory.
\<close>

definition counted_rows :: "(bytes \<Rightarrow> err + 'r) \<Rightarrow> nat \<Rightarrow> nat \<Rightarrow> nat \<Rightarrow> bytes \<Rightarrow> u64 \<Rightarrow> err + 'r list" where
  "counted_rows dec sz esz hdr payload n =
    (if length payload < hdr then Inl ErrShort
     else if unat n > (length payload - hdr) div sz then Inl ErrLength
     else bindE (make_slice (unat n) esz) (\<lambda>_. dec_rows dec sz payload hdr (unat n)))"

text \<open>Past its guard a decoder of up to 2 to the 45 bytes never asks for more than the allocation bound.\<close>

lemma make_slice_ok: "n * sz \<le> 2 ^ 45 \<Longrightarrow> esz \<le> 8 * sz \<Longrightarrow> make_slice n esz = Inr ()"
proof -
  assume n: "n * sz \<le> 2 ^ 45" and e: "esz \<le> 8 * sz"
  have "n * esz \<le> n * (8 * sz)" using e by simp
  also have "\<dots> = 8 * (n * sz)" by simp
  also have "\<dots> \<le> 8 * 2 ^ 45" using n by (rule mult_le_mono2)
  finally show ?thesis by (simp add: make_slice_def maxAlloc_def)
qed

lemma make_slice_small:
  assumes "n * esz \<le> maxAlloc" "0 < esz"
  shows "make_slice n esz = Inr () \<and> n < 2 ^ 64"
proof -
  have "n \<le> n * esz" using assms(2) by (cases esz) simp_all
  also note assms(1)
  finally have "n < 2 ^ 64" by (simp add: maxAlloc_def)
  then show ?thesis using assms(1) by (simp add: make_slice_def)
qed

lemma count_guard:
  fixes n :: nat
  assumes "hdr \<le> len" "n \<le> (len - hdr) div sz"
  shows "hdr + n * sz \<le> len"
proof -
  have "n * sz \<le> (len - hdr) div sz * sz" using assms(2) by simp
  also have "\<dots> \<le> len - hdr" by simp
  finally show ?thesis using assms(1) by linarith
qed

lemma put_append_left [layout_simps]:
  "i + length xs \<le> length a \<Longrightarrow> put (a @ r) i xs = put a i xs @ r"
  by (simp add: put_in)

section \<open>The contract of a row codec\<close>

locale row_codec =
  fixes enc :: "'r \<Rightarrow> bytes" and dec :: "bytes \<Rightarrow> err + 'r" and sz :: nat and ok :: "'r \<Rightarrow> bool"
  assumes sz_pos: "0 < sz"
    and length_enc: "length (enc r) = sz"
    and dec_enc: "ok r \<Longrightarrow> dec (enc r) = Inr r"
    and dec_safe: "length w = sz \<Longrightarrow> dec w \<noteq> Inl Panic"
    and dec_ok: "length w = sz \<Longrightarrow> dec w = Inr r \<Longrightarrow> ok r"
begin

lemma length_concat_enc: "length (concat (map enc rs)) = length rs * sz"
  by (induction rs) (simp_all add: length_enc)

lemma dec_rows_at:
  assumes "(\<forall>r \<in> set rs. ok r)"
  shows "dec_rows dec sz (pre @ concat (map enc rs) @ post) (length pre) (length rs) = Inr rs"
  using assms
proof (induction rs arbitrary: pre)
  case Nil
  then show ?case by simp
next
  case (Cons r rs)
  have "sub (pre @ concat (map enc (r # rs)) @ post) (length pre) sz = enc r"
    by (simp add: sub_def length_enc)
  moreover have "dec_rows dec sz (pre @ concat (map enc (r # rs)) @ post) (length pre + sz) (length rs) = Inr rs"
    using Cons.IH [of "pre @ enc r"] Cons.prems by (simp add: length_enc)
  ultimately show ?case using Cons.prems by (simp add: length_enc dec_enc)
qed

lemma dec_rows_safe:
  "off + n * sz \<le> length b \<Longrightarrow> dec_rows dec sz b off n \<noteq> Inl Panic"
proof (induction n arbitrary: off)
  case 0
  then show ?case by simp
next
  case (Suc n)
  then have "dec (sub b off sz) \<noteq> Inl Panic" by (intro dec_safe) simp
  moreover from Suc have "dec_rows dec sz b (off + sz) n \<noteq> Inl Panic" by (intro Suc.IH) simp
  ultimately show ?case using Suc.prems by (simp add: bindE_eq_Inl_iff)
qed

lemma dec_rows_len:
  "off + n * sz \<le> length b \<Longrightarrow> dec_rows dec sz b off n = Inr rs \<Longrightarrow> length rs = n \<and> (\<forall>r \<in> set rs. ok r)"
proof (induction n arbitrary: off rs)
  case 0
  then show ?case by simp
next
  case (Suc n)
  then obtain r rs' where r: "dec (sub b off sz) = Inr r" "dec_rows dec sz b (off + sz) n = Inr rs'" "rs = r # rs'"
    by auto
  moreover have "ok r" using dec_ok [OF _ r(1)] Suc.prems(1) by simp
  ultimately show ?case using Suc.IH [of "off + sz" rs'] Suc.prems(1) by simp
qed

lemma put_rows_fill:
  "put_rows enc sz (pre @ replicate (length rs * sz) 0) (length pre) rs = pre @ concat (map enc rs)"
proof (induction rs arbitrary: pre)
  case Nil
  then show ?case by simp
next
  case (Cons r rs)
  have "put (pre @ replicate (length (r # rs) * sz) 0) (length pre) (enc r)
      = (pre @ enc r) @ replicate (length rs * sz) 0"
    using sz_pos by (simp add: put_in length_enc)
  then show ?case using Cons.IH [of "pre @ enc r"] by (simp add: length_enc)
qed

lemma counted_rows_at:
  assumes "(\<forall>r \<in> set rs. ok r)" "length hb = hdr" "length rs * esz \<le> maxAlloc" "0 < esz"
  shows "counted_rows dec sz esz hdr (hb @ concat (map enc rs) @ post) (of_nat (length rs)) = Inr rs"
proof -
  note m = make_slice_small [OF assms(3,4)]
  have "length rs \<le> (length rs * sz + length post) div sz"
    using sz_pos by (simp add: div_add1_eq)
  moreover have "unat (of_nat (length rs) :: u64) = length rs" using m by (simp add: unat_of_nat)
  ultimately show ?thesis
    using dec_rows_at [OF assms(1), of hb post] assms(2) m by (simp add: counted_rows_def length_concat_enc)
qed

lemma counted_rows_safe:
  assumes "length payload \<le> 2 ^ 45" "esz \<le> 8 * sz"
  shows "counted_rows dec sz esz hdr payload n \<noteq> Inl Panic"
proof (cases "length payload < hdr \<or> unat n > (length payload - hdr) div sz")
  case False
  then have fit: "hdr + unat n * sz \<le> length payload" by (intro count_guard) auto
  then have "make_slice (unat n) esz = Inr ()" using assms by (intro make_slice_ok) auto
  then show ?thesis using False dec_rows_safe [OF fit] by (simp add: counted_rows_def)
qed (auto simp: counted_rows_def)

end

text \<open>
  What a count-prefixed decoder of n rows must return on the payload b, by the bytes a header of hdr
  bytes and n rows of sz bytes take.
\<close>

definition row_outcome :: "err + 'r list \<Rightarrow> bytes \<Rightarrow> (bytes \<Rightarrow> err + 'r) \<Rightarrow> nat \<Rightarrow> nat \<Rightarrow> nat \<Rightarrow> bool" where
  "row_outcome res b dec hdr sz n \<longleftrightarrow>
     (res = Inl ErrShort \<longleftrightarrow> length b < hdr) \<and> (res = Inl ErrLength \<longleftrightarrow> hdr \<le> length b \<and> length b < hdr + n * sz)
     \<and> (hdr + n * sz \<le> length b \<longrightarrow> (\<exists>rs. res = Inr rs \<and> length rs = n
          \<and> (\<forall>i < n. dec (sub b (hdr + i * sz) sz) = Inr (rs ! i))))"

text \<open>A row decoder that accepts every row of the right size.\<close>

locale total_row_codec = row_codec +
  assumes dec_total: "length w = sz \<Longrightarrow> \<exists>r. dec w = Inr r"
begin

lemma dec_rows_nth:
  "off + n * sz \<le> length b \<Longrightarrow>
   \<exists>rs. dec_rows dec sz b off n = Inr rs \<and> length rs = n \<and> (\<forall>i < n. dec (sub b (off + i * sz) sz) = Inr (rs ! i))"
proof (induction n arbitrary: off)
  case (Suc n)
  then obtain r where r: "dec (sub b off sz) = Inr r" using dec_total [of "sub b off sz"] by auto
  obtain rs where rs: "dec_rows dec sz b (off + sz) n = Inr rs" "length rs = n"
      "\<forall>i < n. dec (sub b (off + sz + i * sz) sz) = Inr (rs ! i)"
    using Suc.IH [of "off + sz"] Suc.prems by (auto simp: add.assoc)
  have "dec (sub b (off + i * sz) sz) = Inr ((r # rs) ! i)" if "i < Suc n" for i
    using that r rs(3) by (cases i) (simp_all add: add.assoc)
  then show ?case using r rs(1,2) Suc.prems by (intro exI [of _ "r # rs"]) simp
qed simp

text \<open>The outcome is decided by the bytes the header and the counted rows take.\<close>

lemma counted_rows_outcome:
  assumes "length b \<le> 2 ^ 45" "esz \<le> 8 * sz"
  shows "row_outcome (counted_rows dec sz esz hdr b n) b dec hdr sz (unat n)"
proof -
  have g: "unat n > (length b - hdr) div sz \<longleftrightarrow> length b - hdr < unat n * sz"
    using div_less_iff_less_mult [OF sz_pos] by simp
  show ?thesis
  proof (cases "hdr + unat n * sz \<le> length b")
    case True
    then have "make_slice (unat n) esz = Inr ()" using assms by (intro make_slice_ok) auto
    moreover obtain rs where "dec_rows dec sz b hdr (unat n) = Inr rs" "length rs = unat n"
        "\<forall>i < unat n. dec (sub b (hdr + i * sz) sz) = Inr (rs ! i)"
      using dec_rows_nth [OF True] by blast
    ultimately show ?thesis using True g by (auto simp: counted_rows_def row_outcome_def)
  next
    case False
    then show ?thesis using g by (auto simp: counted_rows_def row_outcome_def)
  qed
qed

end

lemma append_rows_concat:
  assumes "\<And>dst r. app dst r = dst @ enc r"
  shows "append_rows app dst rs = dst @ concat (map enc rs)"
  by (induction rs arbitrary: dst) (simp_all add: assms)

section \<open>Variable-length items\<close>

text \<open>
  The nested roots (TTL classes, chunk-directory collections, meta_kv pairs) are a run of
  items of varying length: an item decoder takes the payload and an offset and returns the item
  and the offset behind it.
\<close>

fun dec_items :: "(bytes \<Rightarrow> nat \<Rightarrow> err + 'i \<times> nat) \<Rightarrow> bytes \<Rightarrow> nat \<Rightarrow> nat \<Rightarrow> err + 'i list" where
  "dec_items dec payload off 0 = Inr []"
| "dec_items dec payload off (Suc n) =
    bindE (dec payload off) (\<lambda>(i, next_off).
    bindE (dec_items dec payload next_off n) (\<lambda>is.
      Inr (i # is)))"

definition counted_items ::
  "(bytes \<Rightarrow> nat \<Rightarrow> err + 'i \<times> nat) \<Rightarrow> nat \<Rightarrow> nat \<Rightarrow> nat \<Rightarrow> bytes \<Rightarrow> u64 \<Rightarrow> err + 'i list" where
  "counted_items dec floor_len esz hdr payload n =
    (if length payload < hdr then Inl ErrShort
     else if unat n > (length payload - hdr) div floor_len then Inl ErrLength
     else bindE (make_slice (unat n) esz) (\<lambda>_. dec_items dec payload hdr (unat n)))"

locale item_codec =
  fixes enc :: "'i \<Rightarrow> bytes" and dec :: "bytes \<Rightarrow> nat \<Rightarrow> err + 'i \<times> nat" and floor_len :: nat
    and ok :: "'i \<Rightarrow> bool"
  assumes floor_pos: "0 < floor_len"
    and floor_enc: "floor_len \<le> length (enc i)"
    and dec_at: "ok i \<Longrightarrow> dec (pre @ enc i @ post) (length pre) = Inr (i, length pre + length (enc i))"
    and dec_safe: "off \<le> length b \<Longrightarrow> dec b off \<noteq> Inl Panic"
    and dec_next: "off \<le> length b \<Longrightarrow> dec b off = Inr (i, next_off) \<Longrightarrow> off \<le> next_off \<and> next_off \<le> length b"
begin

lemma length_items: "length is * floor_len \<le> length (concat (map enc is))"
proof (induction "is")
  case (Cons i "is")
  then show ?case using floor_enc [of i] by simp
qed simp

lemma dec_items_at:
  "(\<forall>i \<in> set is. ok i) \<Longrightarrow> dec_items dec (pre @ concat (map enc is) @ post) (length pre) (length is) = Inr is"
proof (induction "is" arbitrary: pre)
  case Nil
  then show ?case by simp
next
  case (Cons i "is")
  have "dec (pre @ enc i @ concat (map enc is) @ post) (length pre) = Inr (i, length pre + length (enc i))"
    by (rule dec_at) (use Cons.prems in simp)
  then show ?case using Cons.IH [of "pre @ enc i"] Cons.prems by simp
qed

lemma dec_items_safe: "off \<le> length b \<Longrightarrow> dec_items dec b off n \<noteq> Inl Panic"
proof (induction n arbitrary: off)
  case 0
  then show ?case by simp
next
  case (Suc n)
  show ?case
  proof (cases "dec b off")
    case (Inl e)
    then show ?thesis using dec_safe [OF Suc.prems] by simp
  next
    case (Inr x)
    obtain i m where "x = (i, m)" by (cases x)
    with Inr dec_next [OF Suc.prems] Suc.IH [of m] show ?thesis by (auto simp: bindE_eq_Inl_iff)
  qed
qed

lemma counted_items_at:
  assumes "\<forall>i \<in> set is. ok i" "length hb = hdr" "length is * esz \<le> maxAlloc" "0 < esz"
  shows "counted_items dec floor_len esz hdr (hb @ concat (map enc is) @ post) (of_nat (length is)) = Inr is"
proof -
  have "length is * floor_len div floor_len \<le> (length (concat (map enc is)) + length post) div floor_len"
    using length_items [of "is"] by (intro div_le_mono) simp
  then have "length is \<le> (length (concat (map enc is)) + length post) div floor_len"
    using floor_pos by simp
  moreover have "unat (of_nat (length is) :: u64) = length is"
    using make_slice_small [OF assms(3,4)] by (simp add: unat_of_nat)
  ultimately show ?thesis using dec_items_at [OF assms(1), of hb post] assms(2) make_slice_small [OF assms(3,4)]
    by (simp add: counted_items_def)
qed

lemma counted_items_safe:
  assumes "length payload \<le> 2 ^ 45" "esz \<le> 8 * floor_len"
  shows "counted_items dec floor_len esz hdr payload n \<noteq> Inl Panic"
proof (cases "length payload < hdr \<or> unat n > (length payload - hdr) div floor_len")
  case False
  then have "hdr + unat n * floor_len \<le> length payload" by (intro count_guard) auto
  then have "make_slice (unat n) esz = Inr ()" using assms by (intro make_slice_ok) auto
  then show ?thesis using False dec_items_safe [of hdr payload "unat n"] by (simp add: counted_items_def)
qed (auto simp: counted_items_def)

end

end
