(* ===== verification/Tables.thy ===== *)
theory Tables
  imports Rows Headers
begin

unbundle bit_operations_syntax

text \<open>
  The flat root tables of engine/f3/akifile: the extent map (extent.go), the shard root
  table (srt.go), the snapshot barrier (barrier.go) and the free map (freemap.go).  Each
  row codec interprets row_codec.
\<close>

section \<open>extent.go\<close>

record Extent =
  ext_Kind :: u32
  ext_Flags :: u32
  ext_StartOff :: u64
  ext_Length :: u64

definition putExtent :: "Extent \<Rightarrow> bytes" where
  "putExtent e =
    (let b = replicate ExtentSize 0;
         b = PutUint32 b 0 (ext_Kind e);
         b = PutUint32 b 4 (ext_Flags e);
         b = PutUint64 b 8 (ext_StartOff e);
         b = PutUint64 b 16 (ext_Length e)
     in b)"

definition getExtent :: "bytes \<Rightarrow> Extent" where
  "getExtent b = \<lparr>
     ext_Kind = Uint32 b 0,
     ext_Flags = Uint32 b 4,
     ext_StartOff = Uint64 b 8,
     ext_Length = Uint64 b 16\<rparr>"

definition MarshalExtents :: "Extent list \<Rightarrow> bytes" where
  "MarshalExtents es = put_rows putExtent ExtentSize (replicate (length es * ExtentSize) 0) 0 es"

definition ParseExtents :: "bytes \<Rightarrow> err + Extent list" where
  "ParseExtents b =
    (if length b mod ExtentSize \<noteq> 0 then Inl ErrLength
     else dec_rows (\<lambda>w. Inr (getExtent w)) ExtentSize b 0 (length b div ExtentSize))"

interpretation extent: row_codec putExtent "\<lambda>w. Inr (getExtent w)" 24 "\<lambda>_. True"
  by unfold_locales (simp_all add: putExtent_def getExtent_def Let_def int_layout_defs layout_simps)

section \<open>srt.go\<close>

definition srtMagic :: bytes where
  "srtMagic = ascii ''SRT3''"

abbreviation (input) SRTSnapshotRoot :: "'a::one" where "SRTSnapshotRoot \<equiv> 1"

record SRTRow =
  sr_IndexCkptOff :: u64
  sr_IndexCkptLen :: u64
  sr_ChunkdirOff :: u64
  sr_ChunkdirLen :: u64
  sr_SegstatsOff :: u64
  sr_SegstatsLen :: u64
  sr_CkptLogPos :: u64
  sr_ShardSeqHigh :: u64
  sr_FirstTailSeg :: u64
  sr_LiveRecords :: u64

record SRT =
  srt_Gen :: u64
  srt_SnapWbar :: u64
  srt_Flags :: u32
  srt_Rows :: "SRTRow list"

definition IsSnapshotRoot :: "SRT \<Rightarrow> bool" where
  "IsSnapshotRoot s \<longleftrightarrow> srt_Flags s AND SRTSnapshotRoot \<noteq> 0"

definition putSRTRow :: "SRTRow \<Rightarrow> bytes" where
  "putSRTRow r =
    (let b = replicate SRTRowSize 0;
         b = PutUint64 b 0 (sr_IndexCkptOff r);
         b = PutUint64 b 8 (sr_IndexCkptLen r);
         b = PutUint64 b 16 (sr_ChunkdirOff r);
         b = PutUint64 b 24 (sr_ChunkdirLen r);
         b = PutUint64 b 32 (sr_SegstatsOff r);
         b = PutUint64 b 40 (sr_SegstatsLen r);
         b = PutUint64 b 48 (sr_CkptLogPos r);
         b = PutUint64 b 56 (sr_ShardSeqHigh r);
         b = PutUint64 b 64 (sr_FirstTailSeg r);
         b = PutUint64 b 72 (sr_LiveRecords r)
     in b)"

definition getSRTRow :: "bytes \<Rightarrow> SRTRow" where
  "getSRTRow b = \<lparr>
     sr_IndexCkptOff = Uint64 b 0,
     sr_IndexCkptLen = Uint64 b 8,
     sr_ChunkdirOff = Uint64 b 16,
     sr_ChunkdirLen = Uint64 b 24,
     sr_SegstatsOff = Uint64 b 32,
     sr_SegstatsLen = Uint64 b 40,
     sr_CkptLogPos = Uint64 b 48,
     sr_ShardSeqHigh = Uint64 b 56,
     sr_FirstTailSeg = Uint64 b 64,
     sr_LiveRecords = Uint64 b 72\<rparr>"

definition SRT_Marshal :: "SRT \<Rightarrow> u32 \<Rightarrow> err + bytes" where
  "SRT_Marshal s kind =
    (let b = replicate (SRTHeaderLen + length (srt_Rows s) * SRTRowSize) 0;
         b = put b 0 srtMagic;
         b = PutUint32 b 4 (of_nat (length (srt_Rows s)));
         b = PutUint64 b 8 (srt_Gen s);
         b = PutUint64 b 16 (srt_SnapWbar s);
         b = PutUint32 b 24 (srt_Flags s);
         b = put_rows putSRTRow SRTRowSize b SRTHeaderLen (srt_Rows s)
     in case checksum kind [sub b 0 32, drop SRTHeaderLen b] of
          None \<Rightarrow> Inl ErrChecksumKind
        | Some s \<Rightarrow> Inr (PutUint64 b 32 s))"

definition ParseSRT :: "bytes \<Rightarrow> u32 \<Rightarrow> err + SRT" where
  "ParseSRT b kind =
    (if length b < SRTHeaderLen then Inl ErrShort
     else if sub b 0 4 \<noteq> srtMagic then Inl ErrMagic
     else let n = unat (Uint32 b 4) in
       if length b < SRTHeaderLen + n * SRTRowSize then Inl ErrShort
       else case checksum kind [sub b 0 32, sub b SRTHeaderLen (n * SRTRowSize)] of
         None \<Rightarrow> Inl ErrChecksumKind
       | Some s \<Rightarrow>
           if s \<noteq> Uint64 b 32 then Inl ErrChecksum
           else bindE (dec_rows (\<lambda>w. Inr (getSRTRow w)) SRTRowSize b SRTHeaderLen n) (\<lambda>rows.
             Inr \<lparr>srt_Gen = Uint64 b 8, srt_SnapWbar = Uint64 b 16, srt_Flags = Uint32 b 24, srt_Rows = rows\<rparr>))"

interpretation srtrow: row_codec putSRTRow "\<lambda>w. Inr (getSRTRow w)" 80 "\<lambda>_. True"
  by unfold_locales (simp_all add: putSRTRow_def getSRTRow_def Let_def int_layout_defs layout_simps)

section \<open>barrier.go\<close>

definition BarrierMagic :: bytes where
  "BarrierMagic = ascii ''BAR3''"

abbreviation (input) BarrierHeaderLen :: "'a::numeral" where "BarrierHeaderLen \<equiv> 24"
abbreviation (input) BarrierShardSize :: "'a::numeral" where "BarrierShardSize \<equiv> 16"

record BarrierHeader =
  bh_Wbar :: u64
  bh_ShardCount :: u64

record BarrierShard =
  bs_TailSeg :: u64
  bs_TailSeq :: u64

definition AppendBarrierHeader :: "bytes \<Rightarrow> BarrierHeader \<Rightarrow> bytes" where
  "AppendBarrierHeader dst h =
    (let b = replicate BarrierHeaderLen 0;
         b = put b 0 BarrierMagic;
         b = PutUint64 b 8 (bh_Wbar h);
         b = PutUint64 b 16 (bh_ShardCount h)
     in dst @ b)"

definition AppendBarrierShard :: "bytes \<Rightarrow> BarrierShard \<Rightarrow> bytes" where
  "AppendBarrierShard dst s =
    (let b = replicate BarrierShardSize 0;
         b = PutUint64 b 0 (bs_TailSeg s);
         b = PutUint64 b 8 (bs_TailSeq s)
     in dst @ b)"

definition MarshalBarrier :: "BarrierHeader \<Rightarrow> BarrierShard list \<Rightarrow> bytes" where
  "MarshalBarrier h shards = append_rows AppendBarrierShard (AppendBarrierHeader [] h) shards"

definition ParseBarrierHeader :: "bytes \<Rightarrow> err + BarrierHeader" where
  "ParseBarrierHeader b =
    (if length b < BarrierHeaderLen then Inl ErrShort
     else if sub b 0 4 \<noteq> BarrierMagic then Inl ErrMagic
     else Inr \<lparr>bh_Wbar = Uint64 b 8, bh_ShardCount = Uint64 b 16\<rparr>)"

definition getBarrierShard :: "bytes \<Rightarrow> BarrierShard" where
  "getBarrierShard b = \<lparr>bs_TailSeg = Uint64 b 0, bs_TailSeq = Uint64 b 8\<rparr>"

definition BarrierShards :: "bytes \<Rightarrow> BarrierHeader \<Rightarrow> err + BarrierShard list" where
  "BarrierShards payload h =
    counted_rows (\<lambda>w. Inr (getBarrierShard w)) BarrierShardSize 16 BarrierHeaderLen payload (bh_ShardCount h)"

fun BarrierConsistent :: "BarrierHeader \<Rightarrow> BarrierShard list \<Rightarrow> bool" where
  "BarrierConsistent h [] = True"
| "BarrierConsistent h (s # shards) =
    (if bs_TailSeq s > bh_Wbar h then False else BarrierConsistent h shards)"

interpretation barshard: total_row_codec "AppendBarrierShard []" "\<lambda>w. Inr (getBarrierShard w)" 16 "\<lambda>_. True"
  by unfold_locales (simp_all add: AppendBarrierShard_def getBarrierShard_def Let_def int_layout_defs layout_simps)

section \<open>freemap.go\<close>

definition FreeMapMagic :: bytes where
  "FreeMapMagic = ascii ''FRM3''"

abbreviation (input) FreeMapHeaderLen :: "'a::numeral" where "FreeMapHeaderLen \<equiv> 16"
abbreviation (input) FreeExtentSize :: "'a::numeral" where "FreeExtentSize \<equiv> 24"
abbreviation (input) FreeMapPending :: u32 where "FreeMapPending \<equiv> 1"

record FreeMapHeader =
  fm_EntryCount :: u64

record FreeExtent =
  fe_StartOff :: u64
  fe_Length :: u64
  fe_Flags :: u32

definition AppendFreeMapHeader :: "bytes \<Rightarrow> FreeMapHeader \<Rightarrow> bytes" where
  "AppendFreeMapHeader dst h =
    (let b = replicate FreeMapHeaderLen 0;
         b = put b 0 FreeMapMagic;
         b = PutUint64 b 8 (fm_EntryCount h)
     in dst @ b)"

definition AppendFreeExtent :: "bytes \<Rightarrow> FreeExtent \<Rightarrow> bytes" where
  "AppendFreeExtent dst e =
    (let b = replicate FreeExtentSize 0;
         b = PutUint64 b 0 (fe_StartOff e);
         b = PutUint64 b 8 (fe_Length e);
         b = PutUint32 b 16 (fe_Flags e)
     in dst @ b)"

definition ParseFreeMapHeader :: "bytes \<Rightarrow> err + FreeMapHeader" where
  "ParseFreeMapHeader b =
    (if length b < FreeMapHeaderLen then Inl ErrShort
     else if sub b 0 4 \<noteq> FreeMapMagic then Inl ErrMagic
     else Inr \<lparr>fm_EntryCount = Uint64 b 8\<rparr>)"

definition ParseFreeExtent :: "bytes \<Rightarrow> err + FreeExtent" where
  "ParseFreeExtent b =
    (if length b < FreeExtentSize then Inl ErrShort
     else Inr \<lparr>fe_StartOff = Uint64 b 0, fe_Length = Uint64 b 8, fe_Flags = Uint32 b 16\<rparr>)"

definition FreeExtents :: "bytes \<Rightarrow> FreeMapHeader \<Rightarrow> err + FreeExtent list" where
  "FreeExtents payload h =
    counted_rows ParseFreeExtent FreeExtentSize 24 FreeMapHeaderLen payload (fm_EntryCount h)"

fun FreeMapTotals_from :: "FreeExtent list \<Rightarrow> u64 \<Rightarrow> u64 \<Rightarrow> u64 \<times> u64" where
  "FreeMapTotals_from [] free pending = (free, pending)"
| "FreeMapTotals_from (e # es) free pending =
    (if fe_Flags e AND FreeMapPending \<noteq> 0
     then FreeMapTotals_from es free (pending + fe_Length e)
     else FreeMapTotals_from es (free + fe_Length e) pending)"

definition FreeMapTotals :: "FreeExtent list \<Rightarrow> u64 \<times> u64" where
  "FreeMapTotals entries = FreeMapTotals_from entries 0 0"

interpretation freeext: total_row_codec "AppendFreeExtent []" ParseFreeExtent 24 "\<lambda>_. True"
  by unfold_locales (simp_all add: AppendFreeExtent_def ParseFreeExtent_def Let_def int_layout_defs layout_simps)

section \<open>Round trips\<close>

lemma ParseExtents_Marshal: "ParseExtents (MarshalExtents es) = Inr es"
  using extent.dec_rows_at [of es "[]" "[]"] extent.put_rows_fill [of "[]" es] extent.length_concat_enc [of es]
  by (simp add: ParseExtents_def MarshalExtents_def)

lemma ParseExtents_safe: "ParseExtents b \<noteq> Inl Panic"
proof -
  have "0 + length b div 24 * 24 \<le> length b" by simp
  from extent.dec_rows_safe [OF this] show ?thesis by (simp add: ParseExtents_def)
qed

text \<open>The table is a 40-byte header and the rows.\<close>

lemma SRT_Marshal_split:
  assumes "SRT_Marshal s kind = Inr b"
  shows "\<exists>hb c. length hb = 40 \<and> b = PutUint64 hb 32 c @ concat (map putSRTRow (srt_Rows s))
    \<and> checksum kind [sub hb 0 32, concat (map putSRTRow (srt_Rows s))] = Some c
    \<and> sub hb 0 4 = srtMagic \<and> Uint32 hb 4 = of_nat (length (srt_Rows s)) \<and> Uint64 hb 8 = srt_Gen s
    \<and> Uint64 hb 16 = srt_SnapWbar s \<and> Uint32 hb 24 = srt_Flags s"
proof -
  let ?n = "length (srt_Rows s)"
  define hb where "hb = PutUint32 (PutUint64 (PutUint64 (PutUint32 (put (replicate 40 0) 0 srtMagic) 4
    (of_nat ?n)) 8 (srt_Gen s)) 16 (srt_SnapWbar s)) 24 (srt_Flags s)"
  have m: "length srtMagic = 4" by (simp add: srtMagic_def)
  have l: "length hb = 40" by (simp add: hb_def int_layout_defs)
  have h: "PutUint32 (PutUint64 (PutUint64 (PutUint32 (put (replicate (40 + ?n * 80) 0) 0 srtMagic) 4
    (of_nat ?n)) 8 (srt_Gen s)) 16 (srt_SnapWbar s)) 24 (srt_Flags s) = hb @ replicate (?n * 80) 0"
    by (simp add: hb_def int_layout_defs layout_simps replicate_add m)
  note f = srtrow.put_rows_fill [of hb "srt_Rows s", unfolded l]
  let ?rows = "concat (map putSRTRow (srt_Rows s))"
  from assms obtain c where c: "checksum kind [sub (hb @ ?rows) 0 32, drop 40 (hb @ ?rows)] = Some c"
      "b = PutUint64 (hb @ ?rows) 32 c"
    unfolding SRT_Marshal_def Let_def h f by (auto split: option.splits)
  have "sub hb 0 4 = srtMagic" "Uint32 hb 4 = of_nat ?n" "Uint64 hb 8 = srt_Gen s"
    "Uint64 hb 16 = srt_SnapWbar s" "Uint32 hb 24 = srt_Flags s"
    by (simp_all add: hb_def int_layout_defs layout_simps m)
  moreover have "b = PutUint64 hb 32 c @ ?rows" using c(2) l by (simp add: int_layout_defs layout_simps)
  moreover have "checksum kind [sub hb 0 32, ?rows] = Some c" using c(1) l by (simp add: layout_simps)
  ultimately show ?thesis using l by blast
qed

lemma ParseSRT_Marshal:
  assumes "SRT_Marshal s kind = Inr b" "length (srt_Rows s) < 2 ^ 32"
  shows "ParseSRT b kind = Inr s" and "length b = 40 + length (srt_Rows s) * 80"
proof -
  let ?rows = "concat (map putSRTRow (srt_Rows s))"
  from SRT_Marshal_split [OF assms(1)] obtain hb c where
    h: "length hb = 40" "b = PutUint64 hb 32 c @ ?rows" "checksum kind [sub hb 0 32, ?rows] = Some c"
      "sub hb 0 4 = srtMagic" "Uint32 hb 4 = of_nat (length (srt_Rows s))" "Uint64 hb 8 = srt_Gen s"
      "Uint64 hb 16 = srt_SnapWbar s" "Uint32 hb 24 = srt_Flags s" by blast
  let ?h = "PutUint64 hb 32 c"
  have l: "length ?h = 40" using h(1) by (simp add: int_layout_defs)
  have rl: "length ?rows = length (srt_Rows s) * 80" by (rule srtrow.length_concat_enc)
  have e: "sub b 0 4 = sub hb 0 4" "Uint32 b 4 = Uint32 hb 4" "Uint64 b 8 = Uint64 hb 8" "Uint64 b 16 = Uint64 hb 16"
    "Uint32 b 24 = Uint32 hb 24" "Uint64 b 32 = c" "sub b 0 32 = sub hb 0 32"
    using h(1) unfolding h(2) by (simp_all add: int_layout_defs layout_simps)
  have r: "sub b 40 (length (srt_Rows s) * 80) = ?rows" unfolding h(2) using l rl by (simp add: layout_simps sub_all)
  have n: "unat (Uint32 b 4) = length (srt_Rows s)" using assms(2) h(5) e(2) by (simp add: unat_of_nat)
  have d: "dec_rows (\<lambda>w. Inr (getSRTRow w)) 80 b 40 (length (srt_Rows s)) = Inr (srt_Rows s)"
    using srtrow.dec_rows_at [of "srt_Rows s" ?h "[]"] l by (simp add: h(2))
  show lb: "length b = 40 + length (srt_Rows s) * 80" unfolding h(2) using l rl by simp
  show "ParseSRT b kind = Inr s"
    unfolding ParseSRT_def n Let_def using lb e r d h by simp
qed

lemma SRT_Marshal_crc: "\<exists>b. SRT_Marshal s 1 = Inr b"
  by (simp add: SRT_Marshal_def Let_def)

lemma ParseSRT_safe: "ParseSRT b kind \<noteq> Inl Panic"
proof -
  have "dec_rows (\<lambda>w. Inr (getSRTRow w)) 80 b 40 (unat (Uint32 b 4)) \<noteq> Inl Panic"
    if "\<not> length b < 40 + unat (Uint32 b 4) * 80"
    using that by (intro srtrow.dec_rows_safe) simp
  then show ?thesis by (auto simp: ParseSRT_def Let_def bindE_eq_Inl_iff split: option.splits)
qed

lemma length_BarrierMagic [simp]: "length BarrierMagic = 4" by (simp add: BarrierMagic_def)
lemma length_FreeMapMagic [simp]: "length FreeMapMagic = 4" by (simp add: FreeMapMagic_def)

lemma AppendBarrierShard_append: "AppendBarrierShard dst s = dst @ AppendBarrierShard [] s"
  by (simp add: AppendBarrierShard_def Let_def)

lemma AppendFreeExtent_append: "AppendFreeExtent dst e = dst @ AppendFreeExtent [] e"
  by (simp add: AppendFreeExtent_def Let_def)

lemma MarshalBarrier_split:
  "\<exists>hb. length hb = 24 \<and> MarshalBarrier h shards = hb @ concat (map (AppendBarrierShard []) shards)
    \<and> (\<forall>r. ParseBarrierHeader (hb @ r) = Inr h)"
proof -
  let ?h = "AppendBarrierHeader [] h"
  have "ParseBarrierHeader (?h @ r) = Inr h" for r
    by (simp add: AppendBarrierHeader_def ParseBarrierHeader_def Let_def int_layout_defs layout_simps)
  moreover have "length ?h = 24" by (simp add: AppendBarrierHeader_def Let_def int_layout_defs)
  moreover have "MarshalBarrier h shards = ?h @ concat (map (AppendBarrierShard []) shards)"
    unfolding MarshalBarrier_def by (rule append_rows_concat) (rule AppendBarrierShard_append)
  ultimately show ?thesis by blast
qed

lemma BarrierConsistent_all: "BarrierConsistent h shards \<longleftrightarrow> (\<forall>s \<in> set shards. bs_TailSeq s \<le> bh_Wbar h)"
  by (induction shards) auto

lemma FreeMapTotals_from_sum:
  "FreeMapTotals_from es f p =
    (f + (\<Sum>e\<leftarrow>filter (\<lambda>e. fe_Flags e AND 1 = 0) es. fe_Length e),
     p + (\<Sum>e\<leftarrow>filter (\<lambda>e. fe_Flags e AND 1 \<noteq> 0) es. fe_Length e))"
  by (induction es f p rule: FreeMapTotals_from.induct) (simp_all add: add.assoc)

end
