(* ===== verification/KvTtl.thy ===== *)
theory KvTtl
  imports Rows
begin

unbundle bit_operations_syntax

text \<open>
  The two roots with variable-length items: the meta_kv string map
  (engine/f3/akifile/metakv.go) and the TTL class index (ttlindex.go).  Offsets into a payload are
  natural numbers: they never exceed the payload's length, which is an int.
\<close>

section \<open>metakv.go\<close>

definition MetaKVMagic :: bytes where
  "MetaKVMagic = ascii ''MKV3''"

abbreviation (input) MetaKVHeaderLen :: "'a::numeral" where "MetaKVHeaderLen \<equiv> 16"
abbreviation (input) MetaKVPairOverhead :: "'a::numeral" where "MetaKVPairOverhead \<equiv> 8"

record MetaKVHeader =
  mk_EntryCount :: u64

record MetaKVPair =
  kv_Key :: bytes
  kv_Value :: bytes

definition AppendMetaKVHeader :: "bytes \<Rightarrow> MetaKVHeader \<Rightarrow> bytes" where
  "AppendMetaKVHeader dst h =
    (let b = replicate MetaKVHeaderLen 0;
         b = put b 0 MetaKVMagic;
         b = PutUint64 b 8 (mk_EntryCount h)
     in dst @ b)"

definition AppendMetaKVPair :: "bytes \<Rightarrow> bytes \<Rightarrow> bytes \<Rightarrow> bytes" where
  "AppendMetaKVPair dst key val =
    (let hdr = PutUint32 (replicate 4 0) 0 (of_nat (length key));
         dst = dst @ hdr;
         dst = dst @ key;
         hdr = PutUint32 hdr 0 (of_nat (length val));
         dst = dst @ hdr
     in dst @ val)"

definition ParseMetaKVHeader :: "bytes \<Rightarrow> err + MetaKVHeader" where
  "ParseMetaKVHeader b =
    (if length b < MetaKVHeaderLen then Inl ErrShort
     else if sub b 0 4 \<noteq> MetaKVMagic then Inl ErrMagic
     else Inr \<lparr>mk_EntryCount = Uint64 b 8\<rparr>)"

definition readMetaKVField :: "bytes \<Rightarrow> nat \<Rightarrow> nat \<Rightarrow> err + bytes \<times> nat" where
  "readMetaKVField payload off n =
    (if off + 4 > n then Inl ErrLength
     else bindE (slice payload off (off + 4)) (\<lambda>w.
       let l = unat (Uint32 w 0); off = off + 4
       in if l > n - off then Inl ErrLength
          else bindE (slice payload off (off + l)) (\<lambda>field. Inr (field, off + l))))"

definition readMetaKVPair :: "bytes \<Rightarrow> nat \<Rightarrow> err + MetaKVPair \<times> nat" where
  "readMetaKVPair payload off =
    bindE (readMetaKVField payload off (length payload)) (\<lambda>(key, next_off).
    bindE (readMetaKVField payload next_off (length payload)) (\<lambda>(val, next_off).
      Inr (\<lparr>kv_Key = key, kv_Value = val\<rparr>, next_off)))"

definition MetaKVPairs :: "bytes \<Rightarrow> MetaKVHeader \<Rightarrow> err + MetaKVPair list" where
  "MetaKVPairs payload h =
    counted_items readMetaKVPair MetaKVPairOverhead 48 MetaKVHeaderLen payload (mk_EntryCount h)"

fun MetaKVLookup :: "MetaKVPair list \<Rightarrow> bytes \<Rightarrow> bytes option" where
  "MetaKVLookup [] key = None"
| "MetaKVLookup (p # pairs) key = (if kv_Key p = key then Some (kv_Value p) else MetaKVLookup pairs key)"

definition pair_bytes :: "MetaKVPair \<Rightarrow> bytes" where
  "pair_bytes p = AppendMetaKVPair [] (kv_Key p) (kv_Value p)"

definition pair_ok :: "MetaKVPair \<Rightarrow> bool" where
  "pair_ok p \<longleftrightarrow> length (kv_Key p) < 2 ^ 32 \<and> length (kv_Value p) < 2 ^ 32"

lemma put_le4 [simp]: "length b = 4 \<Longrightarrow> put b 0 (le_bytes 4 w) = le_bytes 4 w"
  by (simp add: put_in)

lemma pair_bytes_eq:
  "pair_bytes p = le_bytes 4 (of_nat (length (kv_Key p)) :: u32) @ kv_Key p
     @ le_bytes 4 (of_nat (length (kv_Value p)) :: u32) @ kv_Value p"
  by (simp add: pair_bytes_def AppendMetaKVPair_def Let_def int_layout_defs)

lemma readMetaKVField_at:
  assumes "length x < 2 ^ 32" "b = pre @ le_bytes 4 (of_nat (length x) :: u32) @ x @ post"
  shows "readMetaKVField b (length pre) (length b) = Inr (x, length pre + 4 + length x)"
proof -
  have u: "unat (of_nat (length x) :: u32) = length x" using assms(1) by (simp add: unat_of_nat)
  have "sub b (length pre) 4 = le_bytes 4 (of_nat (length x) :: u32)" "sub b (length pre + 4) (length x) = x"
    by (simp_all add: assms(2) sub_def)
  then show ?thesis using u by (simp add: readMetaKVField_def assms(2) Let_def int_layout_defs sub_all)
qed

lemma readMetaKVField_safe:
  "readMetaKVField b off (length b) \<noteq> Inl Panic"
  by (auto simp: readMetaKVField_def Let_def slice_def)

lemma readMetaKVField_next:
  "readMetaKVField b off (length b) = Inr (x, m) \<Longrightarrow> off \<le> m \<and> m \<le> length b"
  by (auto simp: readMetaKVField_def Let_def slice_def split: if_splits)

lemma readMetaKVPair_at:
  assumes "pair_ok p"
  shows "readMetaKVPair (pre @ pair_bytes p @ post) (length pre) = Inr (p, length pre + length (pair_bytes p))"
proof -
  let ?b = "pre @ pair_bytes p @ post"
  let ?k = "le_bytes 4 (of_nat (length (kv_Key p)) :: u32) @ kv_Key p"
  have "readMetaKVField ?b (length pre) (length ?b) = Inr (kv_Key p, length pre + 4 + length (kv_Key p))"
    by (rule readMetaKVField_at) (use assms in \<open>auto simp: pair_ok_def pair_bytes_eq\<close>)
  moreover have "readMetaKVField ?b (length (pre @ ?k)) (length ?b)
      = Inr (kv_Value p, length (pre @ ?k) + 4 + length (kv_Value p))"
    by (rule readMetaKVField_at) (use assms in \<open>auto simp: pair_ok_def pair_bytes_eq\<close>)
  ultimately show ?thesis by (simp add: readMetaKVPair_def pair_bytes_eq add.assoc)
qed

interpretation kvpair: item_codec pair_bytes readMetaKVPair 8 pair_ok
proof (unfold_locales, goal_cases)
  case 1
  then show ?case by simp
next
  case (2 i)
  then show ?case by (simp add: pair_bytes_eq)
next
  case (3 i pre post)
  then show ?case by (rule readMetaKVPair_at)
next
  case (4 off b)
  then show ?case using readMetaKVField_safe by (auto simp: readMetaKVPair_def bindE_eq_Inl_iff)
next
  case (5 off b i m)
  then obtain k n v where "readMetaKVField b off (length b) = Inr (k, n)" "readMetaKVField b n (length b) = Inr (v, m)"
    by (auto simp: readMetaKVPair_def)
  then show ?case using readMetaKVField_next by (meson order_trans)
qed

section \<open>ttlindex.go\<close>

definition TTLIndexMagic :: bytes where
  "TTLIndexMagic = ascii ''TTL3''"

abbreviation (input) TTLIndexHeaderLen :: "'a::numeral" where "TTLIndexHeaderLen \<equiv> 16"
abbreviation (input) TTLClassHeaderLen :: "'a::numeral" where "TTLClassHeaderLen \<equiv> 16"
abbreviation (input) TTLSegmentSize :: "'a::numeral" where "TTLSegmentSize \<equiv> 8"

record TTLIndexHeader =
  ti_ClassCount :: u64

record TTLClass =
  tc_Class :: u32
  tc_ExpiryUpperUnix :: u64
  tc_Segments :: "u64 list"

definition AppendTTLIndexHeader :: "bytes \<Rightarrow> TTLIndexHeader \<Rightarrow> bytes" where
  "AppendTTLIndexHeader dst h =
    (let b = replicate TTLIndexHeaderLen 0;
         b = put b 0 TTLIndexMagic;
         b = PutUint64 b 8 (ti_ClassCount h)
     in dst @ b)"

definition AppendTTLClassHeader :: "bytes \<Rightarrow> u32 \<Rightarrow> u32 \<Rightarrow> u64 \<Rightarrow> bytes" where
  "AppendTTLClassHeader dst cls segmentCount expiryUpperUnix =
    (let b = replicate TTLClassHeaderLen 0;
         b = PutUint32 b 0 cls;
         b = PutUint32 b 4 segmentCount;
         b = PutUint64 b 8 expiryUpperUnix
     in dst @ b)"

definition AppendTTLSegment :: "bytes \<Rightarrow> u64 \<Rightarrow> bytes" where
  "AppendTTLSegment dst segOff =
    (let b = replicate TTLSegmentSize 0;
         b = PutUint64 b 0 segOff
     in dst @ b)"

definition ParseTTLIndexHeader :: "bytes \<Rightarrow> err + TTLIndexHeader" where
  "ParseTTLIndexHeader b =
    (if length b < TTLIndexHeaderLen then Inl ErrShort
     else if sub b 0 4 \<noteq> TTLIndexMagic then Inl ErrMagic
     else Inr \<lparr>ti_ClassCount = Uint64 b 8\<rparr>)"

definition readTTLClass :: "bytes \<Rightarrow> nat \<Rightarrow> err + TTLClass \<times> nat" where
  "readTTLClass payload off =
    (if off + TTLClassHeaderLen > length payload then Inl ErrLength
     else bindE (slice payload off (off + TTLClassHeaderLen)) (\<lambda>w.
       let cls = Uint32 w 0;
           segCount = Uint32 w 4;
           expiry = Uint64 w 8;
           off = off + TTLClassHeaderLen;
           need = unat segCount * TTLSegmentSize
       in if need > length payload - off then Inl ErrLength
          else bindE (dec_rows (\<lambda>w. Inr (Uint64 w 0)) TTLSegmentSize payload off (unat segCount)) (\<lambda>segs.
            Inr (\<lparr>tc_Class = cls, tc_ExpiryUpperUnix = expiry, tc_Segments = segs\<rparr>, off + need))))"

definition TTLClasses :: "bytes \<Rightarrow> TTLIndexHeader \<Rightarrow> err + TTLClass list" where
  "TTLClasses payload h =
    counted_items readTTLClass TTLClassHeaderLen 40 TTLIndexHeaderLen payload (ti_ClassCount h)"

fun ExpiredSegments_from :: "u64 list \<Rightarrow> TTLClass list \<Rightarrow> u64 \<Rightarrow> u64 list" where
  "ExpiredSegments_from out [] nowUnix = out"
| "ExpiredSegments_from out (c # classes) nowUnix =
    (if tc_ExpiryUpperUnix c \<le> nowUnix
     then ExpiredSegments_from (out @ tc_Segments c) classes nowUnix
     else ExpiredSegments_from out classes nowUnix)"

definition ExpiredSegments :: "TTLClass list \<Rightarrow> u64 \<Rightarrow> u64 list" where
  "ExpiredSegments classes nowUnix = ExpiredSegments_from [] classes nowUnix"

text \<open>The image of one class, the way the encoder's three calls compose.\<close>

definition class_bytes :: "TTLClass \<Rightarrow> bytes" where
  "class_bytes c = append_rows AppendTTLSegment
    (AppendTTLClassHeader [] (tc_Class c) (of_nat (length (tc_Segments c))) (tc_ExpiryUpperUnix c)) (tc_Segments c)"

definition class_ok :: "TTLClass \<Rightarrow> bool" where
  "class_ok c \<longleftrightarrow> length (tc_Segments c) < 2 ^ 32"

interpretation ttlseg: row_codec "AppendTTLSegment []" "\<lambda>w. Inr (Uint64 w 0)" 8 "\<lambda>_. True"
  by unfold_locales (simp_all add: AppendTTLSegment_def Let_def int_layout_defs layout_simps)

lemma AppendTTLSegment_append: "AppendTTLSegment dst s = dst @ AppendTTLSegment [] s"
  by (simp add: AppendTTLSegment_def Let_def)

lemma class_bytes_split:
  "\<exists>hb. length hb = 16 \<and> class_bytes c = hb @ concat (map (AppendTTLSegment []) (tc_Segments c))
    \<and> Uint32 hb 0 = tc_Class c \<and> Uint32 hb 4 = of_nat (length (tc_Segments c)) \<and> Uint64 hb 8 = tc_ExpiryUpperUnix c"
proof -
  let ?h = "AppendTTLClassHeader [] (tc_Class c) (of_nat (length (tc_Segments c))) (tc_ExpiryUpperUnix c)"
  have "class_bytes c = ?h @ concat (map (AppendTTLSegment []) (tc_Segments c))"
    unfolding class_bytes_def by (rule append_rows_concat) (rule AppendTTLSegment_append)
  moreover have "length ?h = 16" "Uint32 ?h 0 = tc_Class c" "Uint32 ?h 4 = of_nat (length (tc_Segments c))"
      "Uint64 ?h 8 = tc_ExpiryUpperUnix c"
    by (simp_all add: AppendTTLClassHeader_def Let_def int_layout_defs layout_simps)
  ultimately show ?thesis by blast
qed

lemma readTTLClass_at:
  assumes "class_ok c"
  shows "readTTLClass (pre @ class_bytes c @ post) (length pre) = Inr (c, length pre + length (class_bytes c))"
proof -
  obtain hb where h: "length hb = 16" "class_bytes c = hb @ concat (map (AppendTTLSegment []) (tc_Segments c))"
      "Uint32 hb 0 = tc_Class c" "Uint32 hb 4 = of_nat (length (tc_Segments c))" "Uint64 hb 8 = tc_ExpiryUpperUnix c"
    using class_bytes_split by blast
  have u: "unat (of_nat (length (tc_Segments c)) :: u32) = length (tc_Segments c)"
    using assms by (simp add: unat_of_nat class_ok_def)
  have s: "sub (pre @ class_bytes c @ post) (length pre) 16 = hb" by (simp add: h sub_def)
  note r = ttlseg.dec_rows_at [of "tc_Segments c" "pre @ hb" post]
  show ?thesis
    using r h u s ttlseg.length_concat_enc [of "tc_Segments c"] by (simp add: readTTLClass_def Let_def)
qed

interpretation ttlclass: item_codec class_bytes readTTLClass 16 class_ok
proof (unfold_locales, goal_cases)
  case 1
  then show ?case by simp
next
  case (2 i)
  then show ?case using class_bytes_split [of i] by auto
next
  case (3 i pre post)
  then show ?case by (rule readTTLClass_at)
next
  case (4 off b)
  then show ?case using ttlseg.dec_rows_safe [of "off + 16"]
    by (auto simp: readTTLClass_def Let_def bindE_eq_Inl_iff)
next
  case (5 off b i m)
  then show ?case by (auto simp: readTTLClass_def Let_def split: if_splits)
qed

lemma length_magic_kv [simp]: "length MetaKVMagic = 4" "length TTLIndexMagic = 4"
  by (simp_all add: MetaKVMagic_def TTLIndexMagic_def)

lemma ExpiredSegments_concat:
  "ExpiredSegments classes now = concat (map tc_Segments (filter (\<lambda>c. tc_ExpiryUpperUnix c \<le> now) classes))"
proof -
  have "ExpiredSegments_from out classes now
      = out @ concat (map tc_Segments (filter (\<lambda>c. tc_ExpiryUpperUnix c \<le> now) classes))" for out
    by (induction out classes now rule: ExpiredSegments_from.induct) simp_all
  then show ?thesis by (simp add: ExpiredSegments_def)
qed

lemma ParseMetaKVHeader_Append: "ParseMetaKVHeader (AppendMetaKVHeader [] h @ r) = Inr h"
  by (simp add: AppendMetaKVHeader_def ParseMetaKVHeader_def Let_def int_layout_defs layout_simps)

lemma ParseTTLIndexHeader_Append: "ParseTTLIndexHeader (AppendTTLIndexHeader [] h @ r) = Inr h"
  by (simp add: AppendTTLIndexHeader_def ParseTTLIndexHeader_def Let_def int_layout_defs layout_simps)

lemma MetaKVLookup_map_of: "MetaKVLookup pairs key = map_of (map (\<lambda>p. (kv_Key p, kv_Value p)) pairs) key"
  by (induction pairs) auto

end
