(* ===== verification/Checkpoints.thy ===== *)
theory Checkpoints
  imports Rows
begin

unbundle bit_operations_syntax

text \<open>
  The full-or-delta roots of engine/f3/akifile: the seg-stats table (segstats.go), the
  index checkpoint (checkpoint.go) and the chunk directory (chunkdir.go).
\<close>

section \<open>segstats.go\<close>

definition SegStatsMagic :: bytes where
  "SegStatsMagic = ascii ''SST3''"

abbreviation (input) SegStatsHeaderLen :: "'a::numeral" where "SegStatsHeaderLen \<equiv> 32"
abbreviation (input) SegStatsEntrySize :: "'a::numeral" where "SegStatsEntrySize \<equiv> 32"
abbreviation (input) SegStatsFull :: byte where "SegStatsFull \<equiv> 1"
abbreviation (input) SegStatsDelta :: byte where "SegStatsDelta \<equiv> 2"
abbreviation (input) SegStatsFreed :: u32 where "SegStatsFreed \<equiv> 1"

record SegStatsHeader =
  ss_FullOrDelta :: byte
  ss_CkptLogPos :: u64
  ss_EntryCount :: u64
  ss_BaseCkptOff :: u64

record SegStatsEntry =
  se_SegOff :: u64
  se_LiveBytes :: u64
  se_DeadBytes :: u64
  se_Flags :: u32

definition AppendSegStatsHeader :: "bytes \<Rightarrow> SegStatsHeader \<Rightarrow> bytes" where
  "AppendSegStatsHeader dst h =
    (let b = replicate SegStatsHeaderLen 0;
         b = put b 0 SegStatsMagic;
         b = put_byte b 4 (ss_FullOrDelta h);
         b = PutUint64 b 8 (ss_CkptLogPos h);
         b = PutUint64 b 16 (ss_EntryCount h);
         b = PutUint64 b 24 (ss_BaseCkptOff h)
     in dst @ b)"

definition AppendSegStatsEntry :: "bytes \<Rightarrow> SegStatsEntry \<Rightarrow> bytes" where
  "AppendSegStatsEntry dst e =
    (let b = replicate SegStatsEntrySize 0;
         b = PutUint64 b 0 (se_SegOff e);
         b = PutUint64 b 8 (se_LiveBytes e);
         b = PutUint64 b 16 (se_DeadBytes e);
         b = PutUint32 b 24 (se_Flags e)
     in dst @ b)"

definition ParseSegStatsHeader :: "bytes \<Rightarrow> err + SegStatsHeader" where
  "ParseSegStatsHeader b =
    (if length b < SegStatsHeaderLen then Inl ErrShort
     else if sub b 0 4 \<noteq> SegStatsMagic then Inl ErrMagic
     else let h = \<lparr>ss_FullOrDelta = byte_at b 4, ss_CkptLogPos = Uint64 b 8,
                   ss_EntryCount = Uint64 b 16, ss_BaseCkptOff = Uint64 b 24\<rparr>
       in if ss_FullOrDelta h = SegStatsFull then
            (if ss_BaseCkptOff h \<noteq> 0 then Inl ErrSegStats else Inr h)
          else if ss_FullOrDelta h = SegStatsDelta then Inr h
          else Inl ErrSegStats)"

definition ParseSegStatsEntry :: "bytes \<Rightarrow> err + SegStatsEntry" where
  "ParseSegStatsEntry b =
    (if length b < SegStatsEntrySize then Inl ErrShort
     else Inr \<lparr>se_SegOff = Uint64 b 0, se_LiveBytes = Uint64 b 8, se_DeadBytes = Uint64 b 16,
               se_Flags = Uint32 b 24\<rparr>)"

definition SegStatsEntries :: "bytes \<Rightarrow> SegStatsHeader \<Rightarrow> err + SegStatsEntry list" where
  "SegStatsEntries payload h =
    counted_rows ParseSegStatsEntry SegStatsEntrySize 32 SegStatsHeaderLen payload (ss_EntryCount h)"

interpretation segstat: total_row_codec "AppendSegStatsEntry []" ParseSegStatsEntry 32 "\<lambda>_. True"
  by unfold_locales (simp_all add: AppendSegStatsEntry_def ParseSegStatsEntry_def Let_def int_layout_defs layout_simps)

section \<open>checkpoint.go\<close>

definition CkptMagic :: bytes where
  "CkptMagic = ascii ''CKP3''"

abbreviation (input) CkptHeaderLen :: "'a::numeral" where "CkptHeaderLen \<equiv> 48"
abbreviation (input) CkptEntrySize :: "'a::numeral" where "CkptEntrySize \<equiv> 20"
abbreviation (input) CkptFull :: byte where "CkptFull \<equiv> 1"
abbreviation (input) CkptDelta :: byte where "CkptDelta \<equiv> 2"
abbreviation (input) CkptTombstone :: u16 where "CkptTombstone \<equiv> 1"

record CkptHeader =
  ck_FullOrDelta :: byte
  ck_CkptLogPos :: u64
  ck_EntryCount :: u64
  ck_BucketCount :: u64
  ck_BaseCkptOff :: u64
  ck_SeqHigh :: u64

record CkptEntry =
  ce_KeyHash :: u64
  ce_RecordAddr :: u64
  ce_Slot :: u16
  ce_Flags :: u16

definition AppendCkptHeader :: "bytes \<Rightarrow> CkptHeader \<Rightarrow> bytes" where
  "AppendCkptHeader dst h =
    (let b = replicate CkptHeaderLen 0;
         b = put b 0 CkptMagic;
         b = put_byte b 4 (ck_FullOrDelta h);
         b = PutUint64 b 8 (ck_CkptLogPos h);
         b = PutUint64 b 16 (ck_EntryCount h);
         b = PutUint64 b 24 (ck_BucketCount h);
         b = PutUint64 b 32 (ck_BaseCkptOff h);
         b = PutUint64 b 40 (ck_SeqHigh h)
     in dst @ b)"

definition AppendCkptEntry :: "bytes \<Rightarrow> CkptEntry \<Rightarrow> bytes" where
  "AppendCkptEntry dst e =
    (let b = replicate CkptEntrySize 0;
         b = PutUint64 b 0 (ce_KeyHash e);
         b = PutUint64 b 8 (ce_RecordAddr e);
         b = PutUint16 b 16 (ce_Slot e);
         b = PutUint16 b 18 (ce_Flags e)
     in dst @ b)"

definition ParseCkptHeader :: "bytes \<Rightarrow> err + CkptHeader" where
  "ParseCkptHeader b =
    (if length b < CkptHeaderLen then Inl ErrShort
     else if sub b 0 4 \<noteq> CkptMagic then Inl ErrMagic
     else let h = \<lparr>ck_FullOrDelta = byte_at b 4, ck_CkptLogPos = Uint64 b 8,
                   ck_EntryCount = Uint64 b 16, ck_BucketCount = Uint64 b 24,
                   ck_BaseCkptOff = Uint64 b 32, ck_SeqHigh = Uint64 b 40\<rparr>
       in if ck_FullOrDelta h = CkptFull then
            (if ck_BaseCkptOff h \<noteq> 0 then Inl ErrCheckpoint else Inr h)
          else if ck_FullOrDelta h = CkptDelta then Inr h
          else Inl ErrCheckpoint)"

definition ParseCkptEntry :: "bytes \<Rightarrow> err + CkptEntry" where
  "ParseCkptEntry b =
    (if length b < CkptEntrySize then Inl ErrShort
     else Inr \<lparr>ce_KeyHash = Uint64 b 0, ce_RecordAddr = Uint64 b 8, ce_Slot = Uint16 b 16,
               ce_Flags = Uint16 b 18\<rparr>)"

definition CkptEntries :: "bytes \<Rightarrow> CkptHeader \<Rightarrow> err + CkptEntry list" where
  "CkptEntries payload h =
    counted_rows ParseCkptEntry CkptEntrySize 24 CkptHeaderLen payload (ck_EntryCount h)"

interpretation ckptent: total_row_codec "AppendCkptEntry []" ParseCkptEntry 20 "\<lambda>_. True"
  by unfold_locales (simp_all add: AppendCkptEntry_def ParseCkptEntry_def Let_def int_layout_defs layout_simps)

section \<open>chunkdir.go\<close>

definition ChunkDirMagic :: bytes where
  "ChunkDirMagic = ascii ''CHD3''"

abbreviation (input) ChunkDirHeaderLen :: "'a::numeral" where "ChunkDirHeaderLen \<equiv> 32"
abbreviation (input) ChunkDirCollectionLen :: "'a::numeral" where "ChunkDirCollectionLen \<equiv> 16"
abbreviation (input) ChunkDirRowSize :: "'a::numeral" where "ChunkDirRowSize \<equiv> 56"
abbreviation (input) ChunkDirMaxDisc :: "'a::numeral" where "ChunkDirMaxDisc \<equiv> 32"
abbreviation (input) ChunkDirFull :: byte where "ChunkDirFull \<equiv> 1"
abbreviation (input) ChunkDirDelta :: byte where "ChunkDirDelta \<equiv> 2"
abbreviation (input) ChunkDirTombstone :: u32 where "ChunkDirTombstone \<equiv> 1"

record ChunkDirHeader =
  ch_FullOrDelta :: byte
  ch_CkptLogPos :: u64
  ch_CollectionCount :: u64
  ch_BaseCkptOff :: u64

record ChunkDirRow =
  cr_FirstDisc :: bytes
  cr_ElementCount :: u32
  cr_ChunkOff :: u64
  cr_ChunkLiveBytes :: u64

record ChunkDirCollection =
  cc_KeyHash :: u64
  cc_Flags :: u32
  cc_Chunks :: "ChunkDirRow list"

definition AppendChunkDirHeader :: "bytes \<Rightarrow> ChunkDirHeader \<Rightarrow> bytes" where
  "AppendChunkDirHeader dst h =
    (let b = replicate ChunkDirHeaderLen 0;
         b = put b 0 ChunkDirMagic;
         b = put_byte b 4 (ch_FullOrDelta h);
         b = PutUint64 b 8 (ch_CkptLogPos h);
         b = PutUint64 b 16 (ch_CollectionCount h);
         b = PutUint64 b 24 (ch_BaseCkptOff h)
     in dst @ b)"

definition AppendChunkDirCollectionHeader :: "bytes \<Rightarrow> u64 \<Rightarrow> u32 \<Rightarrow> u32 \<Rightarrow> bytes" where
  "AppendChunkDirCollectionHeader dst keyHash chunkCount flags =
    (let b = replicate ChunkDirCollectionLen 0;
         b = PutUint64 b 0 keyHash;
         b = PutUint32 b 8 chunkCount;
         b = PutUint32 b 12 flags
     in dst @ b)"

definition AppendChunkDirRow :: "bytes \<Rightarrow> ChunkDirRow \<Rightarrow> bytes" where
  "AppendChunkDirRow dst r =
    (let b = replicate ChunkDirRowSize 0;
         d = take ChunkDirMaxDisc (cr_FirstDisc r);
         b = put b 0 d;
         b = put_byte b ChunkDirMaxDisc (of_nat (length d));
         b = PutUint32 b 36 (cr_ElementCount r);
         b = PutUint64 b 40 (cr_ChunkOff r);
         b = PutUint64 b 48 (cr_ChunkLiveBytes r)
     in dst @ b)"

definition ParseChunkDirHeader :: "bytes \<Rightarrow> err + ChunkDirHeader" where
  "ParseChunkDirHeader b =
    (if length b < ChunkDirHeaderLen then Inl ErrShort
     else if sub b 0 4 \<noteq> ChunkDirMagic then Inl ErrMagic
     else let h = \<lparr>ch_FullOrDelta = byte_at b 4, ch_CkptLogPos = Uint64 b 8,
                   ch_CollectionCount = Uint64 b 16, ch_BaseCkptOff = Uint64 b 24\<rparr>
       in if ch_FullOrDelta h = ChunkDirFull then
            (if ch_BaseCkptOff h \<noteq> 0 then Inl ErrChunkDir else Inr h)
          else if ch_FullOrDelta h = ChunkDirDelta then Inr h
          else Inl ErrChunkDir)"

definition parseChunkDirRow :: "bytes \<Rightarrow> err + ChunkDirRow" where
  "parseChunkDirRow b =
    (if length b < ChunkDirRowSize then Inl ErrShort
     else let dlen = unat (byte_at b ChunkDirMaxDisc)
       in if dlen > ChunkDirMaxDisc then Inl ErrChunkDir
          else bindE (slice b 0 dlen) (\<lambda>d.
            Inr \<lparr>cr_FirstDisc = d, cr_ElementCount = Uint32 b 36, cr_ChunkOff = Uint64 b 40,
                 cr_ChunkLiveBytes = Uint64 b 48\<rparr>))"

definition readChunkDirCollection :: "bytes \<Rightarrow> nat \<Rightarrow> err + ChunkDirCollection \<times> nat" where
  "readChunkDirCollection payload off =
    (if off + ChunkDirCollectionLen > length payload then Inl ErrLength
     else bindE (slice payload off (off + ChunkDirCollectionLen)) (\<lambda>w.
       let keyHash = Uint64 w 0;
           chunkCount = Uint32 w 8;
           flags = Uint32 w 12;
           off = off + ChunkDirCollectionLen;
           need = unat chunkCount * ChunkDirRowSize
       in if need > length payload - off then Inl ErrLength
          else bindE (dec_rows parseChunkDirRow ChunkDirRowSize payload off (unat chunkCount)) (\<lambda>rows.
            Inr (\<lparr>cc_KeyHash = keyHash, cc_Flags = flags, cc_Chunks = rows\<rparr>, off + need))))"

definition ChunkDirCollections :: "bytes \<Rightarrow> ChunkDirHeader \<Rightarrow> err + ChunkDirCollection list" where
  "ChunkDirCollections payload h =
    counted_items readChunkDirCollection ChunkDirCollectionLen 40 ChunkDirHeaderLen payload (ch_CollectionCount h)"

text \<open>The image of one collection, the way the encoder's two calls compose.\<close>

definition collection_bytes :: "ChunkDirCollection \<Rightarrow> bytes" where
  "collection_bytes c = append_rows AppendChunkDirRow
    (AppendChunkDirCollectionHeader [] (cc_KeyHash c) (of_nat (length (cc_Chunks c))) (cc_Flags c)) (cc_Chunks c)"

definition row_ok :: "ChunkDirRow \<Rightarrow> bool" where
  "row_ok r \<longleftrightarrow> length (cr_FirstDisc r) \<le> 32"

definition collection_ok :: "ChunkDirCollection \<Rightarrow> bool" where
  "collection_ok c \<longleftrightarrow> length (cc_Chunks c) < 2 ^ 32 \<and> (\<forall>r \<in> set (cc_Chunks c). row_ok r)"

lemma AppendChunkDirRow_append: "AppendChunkDirRow dst r = dst @ AppendChunkDirRow [] r"
  by (simp add: AppendChunkDirRow_def Let_def)

lemma AppendChunkDirRow_truncates:
  "AppendChunkDirRow dst r = AppendChunkDirRow dst (r\<lparr>cr_FirstDisc := take 32 (cr_FirstDisc r)\<rparr>)"
  by (simp add: AppendChunkDirRow_def Let_def)

lemma parseChunkDirRow_Append:
  assumes "row_ok r" shows "parseChunkDirRow (AppendChunkDirRow [] r) = Inr r"
proof -
  have l: "length (cr_FirstDisc r) \<le> 32" using assms by (simp add: row_ok_def)
  then have u: "unat (of_nat (length (cr_FirstDisc r)) :: byte) = length (cr_FirstDisc r)"
    by (simp add: unat_of_nat)
  show ?thesis
    using l u by (simp add: parseChunkDirRow_def AppendChunkDirRow_def Let_def int_layout_defs layout_simps)
qed

interpretation chunkrow: row_codec "AppendChunkDirRow []" parseChunkDirRow 56 row_ok
proof (unfold_locales, goal_cases)
  case (4 w)
  then show ?case by (auto simp: parseChunkDirRow_def Let_def)
next
  case (5 w r)
  then show ?case by (auto simp: parseChunkDirRow_def Let_def row_ok_def split: if_splits)
qed (simp_all add: parseChunkDirRow_Append, simp add: AppendChunkDirRow_def Let_def int_layout_defs)

lemma collection_bytes_split:
  "\<exists>hb. length hb = 16 \<and> collection_bytes c = hb @ concat (map (AppendChunkDirRow []) (cc_Chunks c))
    \<and> Uint64 hb 0 = cc_KeyHash c \<and> Uint32 hb 8 = of_nat (length (cc_Chunks c)) \<and> Uint32 hb 12 = cc_Flags c"
proof -
  let ?h = "AppendChunkDirCollectionHeader [] (cc_KeyHash c) (of_nat (length (cc_Chunks c))) (cc_Flags c)"
  have "collection_bytes c = ?h @ concat (map (AppendChunkDirRow []) (cc_Chunks c))"
    unfolding collection_bytes_def by (rule append_rows_concat) (rule AppendChunkDirRow_append)
  moreover have "length ?h = 16" "Uint64 ?h 0 = cc_KeyHash c" "Uint32 ?h 8 = of_nat (length (cc_Chunks c))"
      "Uint32 ?h 12 = cc_Flags c"
    by (simp_all add: AppendChunkDirCollectionHeader_def Let_def int_layout_defs layout_simps)
  ultimately show ?thesis by blast
qed

lemma readChunkDirCollection_at:
  assumes "collection_ok c"
  shows "readChunkDirCollection (pre @ collection_bytes c @ post) (length pre)
    = Inr (c, length pre + length (collection_bytes c))"
proof -
  obtain hb where h: "length hb = 16" "collection_bytes c = hb @ concat (map (AppendChunkDirRow []) (cc_Chunks c))"
      "Uint64 hb 0 = cc_KeyHash c" "Uint32 hb 8 = of_nat (length (cc_Chunks c))" "Uint32 hb 12 = cc_Flags c"
    using collection_bytes_split by blast
  have u: "unat (of_nat (length (cc_Chunks c)) :: u32) = length (cc_Chunks c)"
    using assms by (simp add: unat_of_nat collection_ok_def)
  have s: "sub (pre @ collection_bytes c @ post) (length pre) 16 = hb" by (simp add: h sub_def)
  have "\<forall>r \<in> set (cc_Chunks c). row_ok r" using assms by (simp add: collection_ok_def)
  note r = chunkrow.dec_rows_at [OF this, of "pre @ hb" post]
  show ?thesis
    using r h u s chunkrow.length_concat_enc [of "cc_Chunks c"] by (simp add: readChunkDirCollection_def Let_def)
qed

interpretation collection: item_codec collection_bytes readChunkDirCollection 16 collection_ok
proof (unfold_locales, goal_cases)
  case 1
  then show ?case by simp
next
  case (2 i)
  then show ?case using collection_bytes_split [of i] by auto
next
  case (3 i pre post)
  then show ?case by (rule readChunkDirCollection_at)
next
  case (4 off b)
  then show ?case using chunkrow.dec_rows_safe [of "off + 16"]
    by (auto simp: readChunkDirCollection_def Let_def bindE_eq_Inl_iff)
next
  case (5 off b i m)
  then show ?case by (auto simp: readChunkDirCollection_def Let_def split: if_splits)
qed

section \<open>Headers\<close>

lemma length_magics [simp]:
  "length SegStatsMagic = 4" "length CkptMagic = 4" "length ChunkDirMagic = 4"
  by (simp_all add: SegStatsMagic_def CkptMagic_def ChunkDirMagic_def)

lemma ParseSegStatsHeader_Append:
  "ParseSegStatsHeader (AppendSegStatsHeader [] h @ r) =
    (if ss_FullOrDelta h = 2 \<or> ss_FullOrDelta h = 1 \<and> ss_BaseCkptOff h = 0 then Inr h else Inl ErrSegStats)"
  by (simp add: AppendSegStatsHeader_def ParseSegStatsHeader_def Let_def int_layout_defs layout_simps)

lemma ParseCkptHeader_Append:
  "ParseCkptHeader (AppendCkptHeader [] h @ r) =
    (if ck_FullOrDelta h = 2 \<or> ck_FullOrDelta h = 1 \<and> ck_BaseCkptOff h = 0 then Inr h else Inl ErrCheckpoint)"
  by (simp add: AppendCkptHeader_def ParseCkptHeader_def Let_def int_layout_defs layout_simps)

lemma ParseChunkDirHeader_Append:
  "ParseChunkDirHeader (AppendChunkDirHeader [] h @ r) =
    (if ch_FullOrDelta h = 2 \<or> ch_FullOrDelta h = 1 \<and> ch_BaseCkptOff h = 0 then Inr h else Inl ErrChunkDir)"
  by (simp add: AppendChunkDirHeader_def ParseChunkDirHeader_def Let_def int_layout_defs layout_simps)

lemma AppendSegStatsEntry_append: "AppendSegStatsEntry dst e = dst @ AppendSegStatsEntry [] e"
  by (simp add: AppendSegStatsEntry_def Let_def)

lemma AppendCkptEntry_append: "AppendCkptEntry dst e = dst @ AppendCkptEntry [] e"
  by (simp add: AppendCkptEntry_def Let_def)

lemma length_headers:
  "length (AppendSegStatsHeader [] h1) = 32" "length (AppendCkptHeader [] h2) = 48"
  "length (AppendChunkDirHeader [] h3) = 32"
  by (simp_all add: AppendSegStatsHeader_def AppendCkptHeader_def AppendChunkDirHeader_def Let_def int_layout_defs)

end
