(* ===== verification/CodecProps.thy ===== *)
theory CodecProps
  imports Tables KvTtl Checkpoints
begin

unbundle bit_operations_syntax

text \<open>
  The properties of the codecs: every encoder is inverted by its decoder, a decoder returns an
  error and never panics on bytes it did not write, and the checksums catch every
  corruption of up to four adjacent bytes in what they cover.
\<close>

definition demo_ckpt :: CkptHeader where
  "demo_ckpt = \<lparr>ck_FullOrDelta = 1, ck_CkptLogPos = 5, ck_EntryCount = 2, ck_BucketCount = 8, ck_BaseCkptOff = 0, ck_SeqHigh = 3\<rparr>"

section \<open>Page zero and segment headers\<close>

text \<open>
  C40. The prefix round trip: ParsePrefix inverts Marshal on every prefix of this format
  version, whatever follows the 100 bytes, and refuses every other major version.
\<close>

theorem prefix_roundtrip:
  assumes "wf_Prefix p"
  shows "ParsePrefix (Prefix_Marshal p @ rest) = (if p_FormatMajor p = FormatMajor then Inr p else Inl ErrMajor)"
  using ParsePrefix_append [of "Prefix_Marshal p"] ParsePrefix_Marshal [OF assms] by simp

theorem prefix_roundtrip_witness:
  "ParsePrefix (Prefix_Marshal (NewPrefix 4 64 (replicate 16 7) 1) @ [9]) = Inr (NewPrefix 4 64 (replicate 16 7) 1)"
  using prefix_roundtrip [of "NewPrefix 4 64 (replicate 16 7) 1" "[9]"] by (simp add: wf_Prefix_def NewPrefix_def)

text \<open>
  C29. A meta slot protects its root: Marshal is inverted by ParseMetaSlot, and overwriting up to four adjacent
  bytes of the 120 covered ones with anything else is ErrChecksum.
\<close>

theorem meta_slot_protected:
  assumes "MetaSlot_Marshal m ChecksumCRC32C = Inr b"
  shows "ParseMetaSlot b ChecksumCRC32C = Inr m
    \<and> (\<forall>i w. length w \<le> 4 \<longrightarrow> i + length w \<le> 120 \<longrightarrow> w \<noteq> sub b i (length w)
         \<longrightarrow> ParseMetaSlot (put b i w) ChecksumCRC32C = Inl ErrChecksum)"
proof -
  note p = ParseMetaSlot_Marshal [OF assms]
  have "ParseMetaSlot (put b i w) 1 = Inl ErrChecksum"
    if w: "length w \<le> 4" "i + length w \<le> 120" "w \<noteq> sub b i (length w)" for i w
  proof -
    have "crc32c [sub (put b i w) 0 120] \<noteq> crc32c [sub b 0 120]"
      using w p(1) by (intro crc32c_put_detects) auto
    moreover have "Uint64 (put b i w) 120 = Uint64 b 120" using w by (simp add: Uint64_def layout_simps)
    moreover have "ucast (crc32c [sub b 0 120]) = Uint64 b 120"
      using p by (auto simp: ParseMetaSlot_def split: if_splits)
    ultimately show ?thesis using p(1) by (simp add: ParseMetaSlot_def flip: ucast_u32_u64_inj)
  qed
  then show ?thesis using p(2) by blast
qed

theorem meta_slot_protected_witness:
  "\<exists>b. MetaSlot_Marshal zero_MetaSlot ChecksumCRC32C = Inr b \<and> ParseMetaSlot b ChecksumCRC32C = Inr zero_MetaSlot"
proof -
  obtain b where b: "MetaSlot_Marshal zero_MetaSlot 1 = Inr b" using MetaSlot_Marshal_crc by blast
  from meta_slot_protected [OF b] b show ?thesis by blast
qed

text \<open>
  C28. A segment is self-checking: what Marshal writes parses back to the header it stamped,
  which accepts the payload; and overwriting up to four adjacent bytes of the header's 48
  covered bytes or of the payload with anything else is rejected.
\<close>

theorem segment_self_checking:
  assumes "SegHeader_Marshal h ChecksumCRC32C payload = Inr (b, h')"
  shows "ParseSegHeader b = Inr h' \<and> VerifyPayload h' payload ChecksumCRC32C = None
    \<and> h' = h\<lparr>sh_PayloadLen := of_nat (length payload), sh_PayloadCRC := sh_PayloadCRC h'\<rparr>
    \<and> (\<forall>i w. length w \<le> 4 \<longrightarrow> i + length w \<le> 48 \<longrightarrow> w \<noteq> sub b i (length w)
         \<longrightarrow> ParseSegHeader (put b i w) = Inl ErrMagic \<or> ParseSegHeader (put b i w) = Inl ErrChecksum)
    \<and> (\<forall>i w. length w \<le> 4 \<longrightarrow> i + length w \<le> length payload \<longrightarrow> w \<noteq> sub payload i (length w)
         \<longrightarrow> VerifyPayload h' (put payload i w) ChecksumCRC32C = Some ErrChecksum)"
proof -
  note p = SegHeader_Marshal_Inr [OF assms]
  have stored: "crc32c [sub b 0 48] = Uint32 b 48" using p(1,2) by (auto simp: ParseSegHeader_def split: if_splits)
  have hdr: "ParseSegHeader (put b i w) = Inl ErrMagic \<or> ParseSegHeader (put b i w) = Inl ErrChecksum"
    if w: "length w \<le> 4" "i + length w \<le> 48" "w \<noteq> sub b i (length w)" for i w
  proof -
    have "crc32c [sub (put b i w) 0 48] \<noteq> crc32c [sub b 0 48]"
      using w p(1) by (intro crc32c_put_detects) auto
    moreover have "Uint32 (put b i w) 48 = Uint32 b 48" using w by (simp add: Uint32_def layout_simps)
    ultimately show ?thesis using p(1) stored by (simp add: ParseSegHeader_def)
  qed
  have pay: "VerifyPayload h' (put payload i w) 1 = Some ErrChecksum"
    if w: "length w \<le> 4" "i + length w \<le> length payload" "w \<noteq> sub payload i (length w)" for i w
  proof -
    have "crc32c [sub (put payload i w) 0 (length payload)] \<noteq> crc32c [sub payload 0 (length payload)]"
      using w by (intro crc32c_put_detects) auto
    then have "crc32c [put payload i w] \<noteq> crc32c [payload]" by (simp add: sub_all)
    moreover have "ucast (crc32c [payload]) = sh_PayloadCRC h'"
      using p(3) by (auto simp: VerifyPayload_def split: if_splits)
    ultimately show ?thesis using p(4) by (simp add: VerifyPayload_def flip: ucast_u32_u64_inj)
  qed
  have "h' = h\<lparr>sh_PayloadLen := of_nat (length payload), sh_PayloadCRC := sh_PayloadCRC h'\<rparr>"
    using assms by (auto simp: SegHeader_Marshal_def Let_def)
  then show ?thesis using p(2,3) hdr pay by blast
qed

theorem segment_self_checking_witness:
  "\<exists>b h'. SegHeader_Marshal \<lparr>sh_Shard = 1, sh_Kind = 0, sh_GlobalSeq = 7, sh_ShardSeq = 2, sh_PayloadLen = 0,
       sh_PrevShardSeg = 0, sh_TTLClass = 0, sh_Flags = 1, sh_PayloadCRC = 0\<rparr> ChecksumCRC32C [104, 105] = Inr (b, h')
     \<and> ParseSegHeader b = Inr h' \<and> VerifyPayload h' [104, 106] ChecksumCRC32C = Some ErrChecksum"
proof -
  obtain b h' where b: "SegHeader_Marshal \<lparr>sh_Shard = 1, sh_Kind = 0, sh_GlobalSeq = 7, sh_ShardSeq = 2, sh_PayloadLen = 0,
       sh_PrevShardSeg = 0, sh_TTLClass = 0, sh_Flags = 1, sh_PayloadCRC = 0\<rparr> 1 [104, 105] = Inr (b, h')"
    using SegHeader_Marshal_crc by blast
  have c: "ParseSegHeader b = Inr h'" "\<forall>i w. length w \<le> 4 \<longrightarrow> i + length w \<le> length [104, 105 :: byte]
      \<longrightarrow> w \<noteq> sub [104, 105] i (length w) \<longrightarrow> VerifyPayload h' (put [104, 105] i w) 1 = Some ErrChecksum"
    using segment_self_checking [OF b] by blast+
  have "VerifyPayload h' [104, 106] 1 = Some ErrChecksum"
    using c(2) [rule_format, of "[106]" 1] by (simp add: put_def sub_def)
  with b c(1) show ?thesis by blast
qed

text \<open>
  AlignUp returns the least multiple of the alignment at or above its argument, and
  SegmentSpan the grid footprint of a header and its payload.
\<close>

theorem align_up_least:
  assumes "k < 64" "unat n + 2 ^ k \<le> 2 ^ 64" "unat pl \<le> 2 ^ 63"
  shows "unat n \<le> unat (AlignUp n (2 ^ k)) \<and> 2 ^ k dvd unat (AlignUp n (2 ^ k))
    \<and> (\<forall>x. unat n \<le> x \<longrightarrow> 2 ^ k dvd x \<longrightarrow> unat (AlignUp n (2 ^ k)) \<le> x)
    \<and> unat (SegmentSpan pl) = unat (AlignUp (64 + pl) SegmentAlign) \<and> SegHeaderLen + unat pl \<le> unat (SegmentSpan pl)"
proof -
  let ?a = "(2 :: nat) ^ k"
  note u = AlignUp_unat [OF assms(1,2)]
  have pos: "0 < ?a" by simp
  have lo: "unat n \<le> ((unat n + ?a - 1) div ?a) * ?a"
  proof -
    have "unat n + ?a - 1 = ((unat n + ?a - 1) div ?a) * ?a + (unat n + ?a - 1) mod ?a"
      by (rule div_mult_mod_eq [symmetric])
    moreover have "(unat n + ?a - 1) mod ?a \<le> ?a - 1" using mod_less_divisor [OF pos, of "unat n + ?a - 1"] by linarith
    ultimately show ?thesis using pos by linarith
  qed
  have least: "((unat n + ?a - 1) div ?a) * ?a \<le> x" if le: "unat n \<le> x" and dv: "?a dvd x" for x
  proof -
    obtain q where q: "x = ?a * q" using dv by (elim dvdE)
    have "unat n + ?a - 1 < ?a * (q + 1)" using le q pos unfolding distrib_left mult_1_right by linarith
    then have "(unat n + ?a - 1) div ?a < q + 1" by (simp add: less_mult_imp_div_less mult.commute)
    then show ?thesis by (simp add: q mult.commute)
  qed
  have "SegHeaderLen + unat pl \<le> unat (SegmentSpan pl)"
    using SegmentSpan_unat [OF assms(3)] span_bounds(1) [of "unat pl"] by simp
  then show ?thesis using u lo least by (simp add: SegmentSpan_def)
qed

theorem align_up_least_witness:
  "unat (AlignUp 5000 4096) = 8192 \<and> (5000 :: nat) \<le> unat (AlignUp 5000 (2 ^ 12)) \<and> SegHeaderLen + 2 \<le> unat (SegmentSpan 2)"
  using align_up_least [of 12 5000 2] by (simp add: AlignUp_def)

section \<open>The root tables\<close>

text \<open>
  C32. No decoder of a root panics: on arbitrary bytes of up to 2 to the 45 and an arbitrary count
  in the header, every table decoder returns rows or an error.  The count guard is what keeps the
  slice a decoder makes below the allocation bound.
\<close>

theorem decoders_never_panic:
  assumes "length b \<le> 2 ^ 45"
  shows "ParseExtents b \<noteq> Inl Panic \<and> ParseSRT b kind \<noteq> Inl Panic \<and> BarrierShards b bh \<noteq> Inl Panic
    \<and> FreeExtents b fh \<noteq> Inl Panic \<and> MetaKVPairs b mh \<noteq> Inl Panic \<and> TTLClasses b th \<noteq> Inl Panic
    \<and> SegStatsEntries b sh \<noteq> Inl Panic \<and> CkptEntries b ch \<noteq> Inl Panic \<and> ChunkDirCollections b dh \<noteq> Inl Panic"
  using assms
  by (simp add: ParseExtents_safe ParseSRT_safe BarrierShards_def FreeExtents_def MetaKVPairs_def TTLClasses_def
      SegStatsEntries_def CkptEntries_def ChunkDirCollections_def barshard.counted_rows_safe freeext.counted_rows_safe
      kvpair.counted_items_safe ttlclass.counted_items_safe segstat.counted_rows_safe ckptent.counted_rows_safe
      collection.counted_items_safe)

theorem decoders_never_panic_witness:
  "MetaKVPairs (AppendMetaKVHeader [] \<lparr>mk_EntryCount = - 1\<rparr>) \<lparr>mk_EntryCount = - 1\<rparr> \<noteq> Inl Panic"
  using decoders_never_panic [of "AppendMetaKVHeader [] \<lparr>mk_EntryCount = - 1\<rparr>"]
  by (simp add: AppendMetaKVHeader_def Let_def int_layout_defs)

text \<open>
  C34. The outcome of the fixed-row decoders, decided by lengths alone: ErrShort exactly on a payload
  shorter than its header, ErrLength exactly when the payload ends before the last row the header
  counts, and otherwise the header's count of rows, the row i parsed from the i-th row of bytes
  behind the header.
\<close>

theorem row_decoders_exact:
  assumes "length b \<le> 2 ^ 45"
  shows "row_outcome (CkptEntries b ch) b ParseCkptEntry CkptHeaderLen CkptEntrySize (unat (ck_EntryCount ch))
    \<and> row_outcome (SegStatsEntries b sh) b ParseSegStatsEntry SegStatsHeaderLen SegStatsEntrySize (unat (ss_EntryCount sh))
    \<and> row_outcome (FreeExtents b fh) b ParseFreeExtent FreeMapHeaderLen FreeExtentSize (unat (fm_EntryCount fh))
    \<and> row_outcome (BarrierShards b bh) b (\<lambda>w. Inr (getBarrierShard w)) BarrierHeaderLen BarrierShardSize
        (unat (bh_ShardCount bh))"
  using assms
  by (simp add: CkptEntries_def SegStatsEntries_def FreeExtents_def BarrierShards_def ckptent.counted_rows_outcome
      segstat.counted_rows_outcome freeext.counted_rows_outcome barshard.counted_rows_outcome)

text \<open>A one-row checkpoint whose header counts two rows is refused.\<close>

theorem row_decoders_exact_witness:
  "CkptEntries (AppendCkptHeader [] demo_ckpt @ AppendCkptEntry [] \<lparr>ce_KeyHash = 7, ce_RecordAddr = 100, ce_Slot = 1, ce_Flags = 0\<rparr>)
     demo_ckpt = Inl ErrLength"
  using row_decoders_exact [of "AppendCkptHeader [] demo_ckpt
      @ AppendCkptEntry [] \<lparr>ce_KeyHash = 7, ce_RecordAddr = 100, ce_Slot = 1, ce_Flags = 0\<rparr>" demo_ckpt]
  by (simp add: row_outcome_def length_headers demo_ckpt_def ckptent.length_enc)

text \<open>
  C38. The shard root table and the extent map round trip: ParseSRT inverts Marshal for every
  table of fewer than 2^32 rows, and ParseExtents inverts MarshalExtents.
\<close>

theorem srt_extents_roundtrip:
  assumes "length (srt_Rows s) < 2 ^ 32"
  shows "(\<exists>b. SRT_Marshal s ChecksumCRC32C = Inr b \<and> length b = SRTHeaderLen + length (srt_Rows s) * SRTRowSize
      \<and> ParseSRT b ChecksumCRC32C = Inr s) \<and> ParseExtents (MarshalExtents es) = Inr es"
proof -
  obtain b where "SRT_Marshal s 1 = Inr b" using SRT_Marshal_crc by blast
  with ParseSRT_Marshal [OF this assms] ParseExtents_Marshal show ?thesis by blast
qed

theorem srt_extents_roundtrip_witness:
  "\<exists>b. SRT_Marshal \<lparr>srt_Gen = 3, srt_SnapWbar = 0, srt_Flags = 0, srt_Rows = []\<rparr> ChecksumCRC32C = Inr b \<and> length b = 40
     \<and> ParseSRT b ChecksumCRC32C = Inr \<lparr>srt_Gen = 3, srt_SnapWbar = 0, srt_Flags = 0, srt_Rows = []\<rparr>"
  using srt_extents_roundtrip [of "\<lparr>srt_Gen = 3, srt_SnapWbar = 0, srt_Flags = 0, srt_Rows = []\<rparr>" "[]"] by simp

text \<open>
  C37. The count-prefixed roots round trip: a header whose count is the number of rows,
  followed by the appended rows and by any slack, decodes to that header and those rows,
  for the barrier, the free map, the TTL index and the meta_kv map, as long as the decoded rows
  fit one allocation.
\<close>

theorem counted_roots_roundtrip:
  assumes "length shards * 16 \<le> maxAlloc" "length runs * 24 \<le> maxAlloc"
    and "length classes * 40 \<le> maxAlloc" "length pairs * 48 \<le> maxAlloc"
    and "\<forall>c \<in> set classes. class_ok c" "\<forall>p \<in> set pairs. pair_ok p"
  shows "(let h = \<lparr>bh_Wbar = w, bh_ShardCount = of_nat (length shards)\<rparr>; b = MarshalBarrier h shards @ slack
      in ParseBarrierHeader b = Inr h \<and> BarrierShards b h = Inr shards)
    \<and> (let h = \<lparr>fm_EntryCount = of_nat (length runs)\<rparr>; b = append_rows AppendFreeExtent (AppendFreeMapHeader [] h) runs @ slack
      in ParseFreeMapHeader b = Inr h \<and> FreeExtents b h = Inr runs)
    \<and> (let h = \<lparr>ti_ClassCount = of_nat (length classes)\<rparr>; b = AppendTTLIndexHeader [] h @ concat (map class_bytes classes) @ slack
      in ParseTTLIndexHeader b = Inr h \<and> TTLClasses b h = Inr classes)
    \<and> (let h = \<lparr>mk_EntryCount = of_nat (length pairs)\<rparr>; b = AppendMetaKVHeader [] h @ concat (map pair_bytes pairs) @ slack
      in ParseMetaKVHeader b = Inr h \<and> MetaKVPairs b h = Inr pairs)"
proof (intro conjI)
  let ?h = "\<lparr>bh_Wbar = w, bh_ShardCount = of_nat (length shards)\<rparr>"
  obtain hb where hb: "length hb = 24" "MarshalBarrier ?h shards = hb @ concat (map (AppendBarrierShard []) shards)"
      "\<And>r. ParseBarrierHeader (hb @ r) = Inr ?h"
    using MarshalBarrier_split by blast
  then show "let h = ?h; b = MarshalBarrier h shards @ slack in ParseBarrierHeader b = Inr h \<and> BarrierShards b h = Inr shards"
    using barshard.counted_rows_at [of shards hb 24 16 slack] assms(1) by (simp add: Let_def BarrierShards_def)
  let ?f = "\<lparr>fm_EntryCount = of_nat (length runs)\<rparr>" and ?fb = "AppendFreeMapHeader [] \<lparr>fm_EntryCount = of_nat (length runs)\<rparr>"
  have "append_rows AppendFreeExtent ?fb runs = ?fb @ concat (map (AppendFreeExtent []) runs)"
    by (rule append_rows_concat) (rule AppendFreeExtent_append)
  moreover have "length ?fb = 16" "\<And>r. ParseFreeMapHeader (?fb @ r) = Inr ?f"
    by (simp_all add: AppendFreeMapHeader_def ParseFreeMapHeader_def Let_def int_layout_defs layout_simps)
  ultimately show "let h = ?f; b = append_rows AppendFreeExtent (AppendFreeMapHeader [] h) runs @ slack
      in ParseFreeMapHeader b = Inr h \<and> FreeExtents b h = Inr runs"
    using freeext.counted_rows_at [of runs ?fb 16 24 slack] assms(2) by (simp add: Let_def FreeExtents_def)
  let ?t = "AppendTTLIndexHeader [] \<lparr>ti_ClassCount = of_nat (length classes)\<rparr>"
  have "length ?t = 16" by (simp add: AppendTTLIndexHeader_def Let_def int_layout_defs)
  then show "let h = \<lparr>ti_ClassCount = of_nat (length classes)\<rparr>; b = AppendTTLIndexHeader [] h @ concat (map class_bytes classes) @ slack
      in ParseTTLIndexHeader b = Inr h \<and> TTLClasses b h = Inr classes"
    using ttlclass.counted_items_at [OF assms(5), of ?t 16 40 slack] assms(3) ParseTTLIndexHeader_Append
    by (simp add: Let_def TTLClasses_def)
  let ?k = "AppendMetaKVHeader [] \<lparr>mk_EntryCount = of_nat (length pairs)\<rparr>"
  have "length ?k = 16" by (simp add: AppendMetaKVHeader_def Let_def int_layout_defs)
  then show "let h = \<lparr>mk_EntryCount = of_nat (length pairs)\<rparr>; b = AppendMetaKVHeader [] h @ concat (map pair_bytes pairs) @ slack
      in ParseMetaKVHeader b = Inr h \<and> MetaKVPairs b h = Inr pairs"
    using kvpair.counted_items_at [OF assms(6), of ?k 16 48 slack] assms(4) ParseMetaKVHeader_Append
    by (simp add: Let_def MetaKVPairs_def)
qed

theorem counted_roots_roundtrip_witness:
  "\<exists>b. FreeExtents b \<lparr>fm_EntryCount = 1\<rparr> = Inr [\<lparr>fe_StartOff = 4096, fe_Length = 8192, fe_Flags = 1\<rparr>]"
  using counted_roots_roundtrip [of "[]" "[\<lparr>fe_StartOff = 4096, fe_Length = 8192, fe_Flags = 1\<rparr>]" "[]" "[]" 0 "[]"]
  by (auto simp: Let_def maxAlloc_def)

text \<open>
  What the readers of the small roots compute: MetaKVLookup is the value of the first pair with the
  key, ExpiredSegments lists the segments of exactly the classes whose bound has
  passed, FreeMapTotals splits the bytes into allocatable and pending, and BarrierConsistent holds
  exactly when no shard's tail is past the watermark.
\<close>

theorem small_root_readers:
  "MetaKVLookup pairs key = map_of (map (\<lambda>p. (kv_Key p, kv_Value p)) pairs) key
   \<and> ExpiredSegments classes clock = concat (map tc_Segments (filter (\<lambda>c. tc_ExpiryUpperUnix c \<le> clock) classes))
   \<and> FreeMapTotals runs = ((\<Sum>e\<leftarrow>filter (\<lambda>e. fe_Flags e AND FreeMapPending = 0) runs. fe_Length e),
        (\<Sum>e\<leftarrow>filter (\<lambda>e. fe_Flags e AND FreeMapPending \<noteq> 0) runs. fe_Length e))
   \<and> (BarrierConsistent h shards = list_all (\<lambda>s. bs_TailSeq s \<le> bh_Wbar h) shards)"
  by (simp add: MetaKVLookup_map_of ExpiredSegments_concat FreeMapTotals_def FreeMapTotals_from_sum BarrierConsistent_all
      list_all_iff)

end
