(* ===== verification/Commit.thy ===== *)
theory Commit
  imports Reopen Tables
begin

unbundle bit_operations_syntax

text \<open>
  Root commits: the meta slot flip and the checkpoints of engine/f3/akifile/commit.go, the
  snapshot emit path of snapshot.go, and the open decision ReadOpenState of recovery.go
  that reads the committed root back.  The flip is shown to be atomic under torn writes, up to a
  torn slot that passes its checksum.
\<close>

section \<open>commit.go\<close>

definition CommitRoots :: "File \<Rightarrow> MetaSlot \<Rightarrow> File \<times> err option" where
  "CommitRoots f m =
    (let stale = 1 - f_liveSlot f;
         m = m\<lparr>m_CommitSeq := f_commitSeq f + 1\<rparr>;
         m = m\<lparr>m_GlobalSeq := f_globalSeq f\<rparr>;
         m = m\<lparr>m_FileSize := f_cursor f\<rparr>
     in case MetaSlot_Marshal m (p_ChecksumKind (f_prefix f)) of
          Inl e \<Rightarrow> (f, Some e)
        | Inr b \<Rightarrow>
            (let off = (if stale = 1 then p_MetaSlotBOff (f_prefix f) else p_MetaSlotAOff (f_prefix f))
             in case writeAt f b off of
                  (f, Some e) \<Rightarrow> (f, Some e)
                | (f, None) \<Rightarrow>
                    (case Sync (f_dev f) of
                       (dev, Some e) \<Rightarrow> (f\<lparr>f_dev := dev\<rparr>, Some e)
                     | (dev, None) \<Rightarrow>
                         (case now (f\<lparr>f_dev := dev, f_commitSeq := m_CommitSeq m, f_liveSlot := stale\<rparr>) of
                            (f, t) \<Rightarrow> (f\<lparr>f_lastSync := t\<rparr>, None)))))"

record CheckpointStats =
  cs_LiveBytes :: u64
  cs_DeadBytes :: u64
  cs_RecordCount :: u64
  cs_LastCkptUnix :: u64
  cs_Clean :: bool

record CheckpointGlobals =
  cg_TTLIndexOff :: u64
  cg_TTLIndexLen :: u32
  cg_FreeMapOff :: u64
  cg_MetaKVOff :: u64

definition root_pending :: "u16 \<Rightarrow> bytes \<Rightarrow> Pending" where
  "root_pending kind payload = \<lparr>pe_Shard = ShardOwnerless, pe_Kind = kind, pe_ShardSeq = 0,
     pe_PrevShardSeg = 0, pe_TTLClass = 0, pe_Flags = 0, pe_Payload = payload\<rparr>"

definition CheckpointWithGlobals ::
  "File \<Rightarrow> SRT \<Rightarrow> Extent list \<Rightarrow> CheckpointStats \<Rightarrow> CheckpointGlobals \<Rightarrow> File \<times> err option" where
  "CheckpointWithGlobals f srt extents stats globals =
    (case SRT_Marshal srt (p_ChecksumKind (f_prefix f)) of
       Inl e \<Rightarrow> (f, Some e)
     | Inr srtBytes \<Rightarrow>
         (let grp = [root_pending KindSRT srtBytes];
              extBytes = (if length extents > 0 then Some (MarshalExtents extents) else None);
              grp = (case extBytes of None \<Rightarrow> grp | Some eb \<Rightarrow> grp @ [root_pending KindExtentTable eb])
          in case AppendGroup f grp of
               (f, offs, Some e) \<Rightarrow> (f, Some e)
             | (f, offs, None) \<Rightarrow>
                 (let m = zero_MetaSlot\<lparr>
                        m_SRTOff := offs ! 0 + SegHeaderLen,
                        m_SRTLen := of_nat (length srtBytes),
                        m_SRTShardCount := of_nat (length (srt_Rows srt)),
                        m_TTLIndexOff := cg_TTLIndexOff globals,
                        m_TTLIndexLen := cg_TTLIndexLen globals,
                        m_FreeMapOff := cg_FreeMapOff globals,
                        m_MetaKVOff := cg_MetaKVOff globals,
                        m_LiveBytes := cs_LiveBytes stats,
                        m_DeadBytes := cs_DeadBytes stats,
                        m_RecordCount := cs_RecordCount stats,
                        m_LastCkptUnix := cs_LastCkptUnix stats\<rparr>;
                      m = (case extBytes of None \<Rightarrow> m
                           | Some eb \<Rightarrow> m\<lparr>m_ExtentTableOff := offs ! 1 + SegHeaderLen,
                                         m_ExtentTableLen := of_nat (length eb)\<rparr>);
                      m = (if cs_Clean stats then m\<lparr>m_CleanShutdown := 1\<rparr> else m)
                  in CommitRoots f m)))"

definition no_globals :: CheckpointGlobals where
  "no_globals = \<lparr>cg_TTLIndexOff = 0, cg_TTLIndexLen = 0, cg_FreeMapOff = 0, cg_MetaKVOff = 0\<rparr>"

definition Checkpoint :: "File \<Rightarrow> SRT \<Rightarrow> Extent list \<Rightarrow> CheckpointStats \<Rightarrow> File \<times> err option" where
  "Checkpoint f srt extents stats = CheckpointWithGlobals f srt extents stats no_globals"

section \<open>snapshot.go\<close>

definition WriteBarrier :: "File \<Rightarrow> BarrierShard list \<Rightarrow> File \<times> (err + u64 \<times> u64)" where
  "WriteBarrier f shards =
    (let wbar = f_globalSeq f + 1;
         h = \<lparr>bh_Wbar = wbar, bh_ShardCount = of_nat (length shards)\<rparr>
     in if \<not> BarrierConsistent h shards then (f, Inl ErrBarrier)
        else case AppendGroup f [root_pending KindBarrier (MarshalBarrier h shards)] of
               (f, offs, Some e) \<Rightarrow> (f, Inl e)
             | (f, offs, None) \<Rightarrow> (f, Inr (offs ! 0, wbar)))"

definition CommitSnapshotRoot ::
  "File \<Rightarrow> SRT \<Rightarrow> Extent list \<Rightarrow> CheckpointStats \<Rightarrow> CheckpointGlobals \<Rightarrow> u64 \<Rightarrow> File \<times> err option" where
  "CommitSnapshotRoot f srt extents stats globals wbar =
    (if wbar = 0 then (f, Some ErrSnapshotWatermark)
     else CheckpointWithGlobals f
       (srt\<lparr>srt_Flags := srt_Flags srt OR SRTSnapshotRoot, srt_SnapWbar := wbar\<rparr>) extents stats globals)"

section \<open>recovery.go: the open decision\<close>

datatype OpenOutcome = OpenClean | OpenCrashed | OpenScanFallback

record OpenState =
  os_Prefix :: Prefix
  os_Meta :: "MetaSlot option"
  os_Which :: int
  os_Outcome :: OpenOutcome

definition ReadOpenState :: "device \<Rightarrow> err + OpenState" where
  "ReadOpenState dev =
    bindE (read_full dev 0 PrefixSize) (\<lambda>hb.
    bindE (ParsePrefix hb) (\<lambda>prefix.
    bindE (read_full dev (p_MetaSlotAOff prefix) MetaSlotSize) (\<lambda>a.
    bindE (read_full dev (p_MetaSlotBOff prefix) MetaSlotSize) (\<lambda>b.
    case MetaLive a b (p_ChecksumKind prefix) of
      Inl _ \<Rightarrow> Inr \<lparr>os_Prefix = prefix, os_Meta = None, os_Which = -1, os_Outcome = OpenScanFallback\<rparr>
    | Inr (live, which) \<Rightarrow>
        if m_SRTShardCount live \<noteq> 0 \<and> m_SRTShardCount live \<noteq> p_ShardCount prefix then Inl ErrShardCount
        else Inr \<lparr>os_Prefix = prefix, os_Meta = Some live, os_Which = int which,
                  os_Outcome = (if m_CleanShutdown live = 1 then OpenClean else OpenCrashed)\<rparr>))))"

definition ReadSRT :: "device \<Rightarrow> Prefix \<Rightarrow> MetaSlot option \<Rightarrow> err + SRT option" where
  "ReadSRT dev prefix meta =
    (case meta of
       None \<Rightarrow> Inr None
     | Some meta \<Rightarrow>
         if m_SRTLen meta = 0 then Inr None
         else bindE (read_full dev (m_SRTOff meta) (unat (m_SRTLen meta))) (\<lambda>buf.
           bindE (ParseSRT buf (p_ChecksumKind prefix)) (\<lambda>srt.
             if length (srt_Rows srt) \<noteq> unat (p_ShardCount prefix) then Inl ErrShardCount
             else Inr (Some srt))))"

definition ReadExtentTable :: "device \<Rightarrow> MetaSlot option \<Rightarrow> err + Extent list" where
  "ReadExtentTable dev meta =
    (case meta of
       None \<Rightarrow> Inr []
     | Some meta \<Rightarrow>
         if m_ExtentTableLen meta = 0 then Inr []
         else bindE (read_full dev (m_ExtentTableOff meta) (unat (m_ExtentTableLen meta))) ParseExtents)"

section \<open>The flip\<close>

text \<open>The live root of a device, and the slot a commit writes.\<close>

definition live_root :: "device \<Rightarrow> Prefix \<Rightarrow> err + MetaSlot \<times> nat" where
  "live_root d p =
    bindE (read_full d (p_MetaSlotAOff p) 128) (\<lambda>a.
    bindE (read_full d (p_MetaSlotBOff p) 128) (\<lambda>b. MetaLive a b (p_ChecksumKind p)))"

definition stamp :: "File \<Rightarrow> MetaSlot \<Rightarrow> MetaSlot" where
  "stamp f m = m\<lparr>m_CommitSeq := f_commitSeq f + 1, m_GlobalSeq := f_globalSeq f, m_FileSize := f_cursor f\<rparr>"

text \<open>
  A torn slot is neither the old nor the new one and still passes its checksum: the one
  event the slot's CRC cannot rule out.
\<close>

definition slot_collision :: "bytes \<Rightarrow> bytes \<Rightarrow> bool" where
  "slot_collision old new \<longleftrightarrow>
     (\<exists>k < 128. take k new @ drop k old \<noteq> old \<and> take k new @ drop k old \<noteq> new
       \<and> (\<exists>x. ParseMetaSlot (take k new @ drop k old) 1 = Inr x))"

lemma sub_store_torn:
  assumes "off + length new \<le> length data" "k \<le> length new"
  shows "sub (store_at data off (take k new)) off (length new) = take k new @ drop k (sub data off (length new))"
proof (cases "take k new = []")
  case True
  then have "k = 0 \<or> new = []" by simp
  then show ?thesis by (auto simp: store_at_def)
next
  case False
  have d: "drop off data = sub data off (length new) @ drop (off + length new) data"
    using append_take_drop_id [of "length new" "drop off data"] by (simp add: sub_def add.commute)
  have "drop (off + k) data = drop k (drop off data)" by (simp add: add.commute)
  also have "\<dots> = drop k (sub data off (length new)) @ drop (off + length new) data"
    unfolding d using assms by simp
  finally show ?thesis using False assms by (simp add: store_at_def sub_def)
qed

lemma WriteAt_torn_slot:
  assumes "readable d" "read_full d off 128 = Inr old" "length new = 128" "unat off + 128 < 2 ^ 62"
    and "WriteAt d new off = (d', n, e)"
  shows "\<exists>k \<le> 128. read_full d' off 128 = Inr (take k new @ drop k old)
    \<and> (e = None \<and> n = 128 \<longrightarrow> k = 128) \<and> readable d'
    \<and> length (d_data d') = length (d_data d)
    \<and> (\<forall>i j x. read_full d i j = Inr x \<longrightarrow> unat i + j \<le> unat off \<or> unat off + 128 \<le> unat i
          \<longrightarrow> read_full d' i j = Inr x)"
proof -
  from WriteAt_cases [OF assms(5)] assms(3,4) obtain k where
    k: "k \<le> 128" "d_data d' = store_at (d_data d) (unat off) (take k new)"
      "e = None \<and> n = 128 \<longrightarrow> k = 128" "d_badread d' = d_badread d"
    by auto
  from assms(2) have old: "old = sub (d_data d) (unat off) 128" "unat off + 128 \<le> length (d_data d)"
    by (auto simp: read_full_Inr)
  have len: "length (d_data d') = length (d_data d)" using k(1,2) old(2) assms(3) by (auto simp: length_store_at)
  have "sub (d_data d') (unat off) 128 = take k new @ drop k old"
    using sub_store_torn [of "unat off" new "d_data d" k] assms(3) old k(1,2) by simp
  then have "read_full d' off 128 = Inr (take k new @ drop k old)"
    using assms(1,4) old(2) len k(4) by (auto simp: read_full_Inr readable_def)
  moreover have "read_full d' i j = Inr x"
    if "read_full d i j = Inr x" "unat i + j \<le> unat off \<or> unat off + 128 \<le> unat i" for i j x
    by (rule read_full_store_other [OF that(1) _ k(2,4)]) (use that k(1) assms(3) in auto)
  moreover have "readable d'" using assms(1) k(4) len by (simp add: readable_def)
  ultimately show ?thesis using k len by blast
qed

lemma MetaLive_flip:
  assumes "MetaLive a b 1 = Inr (live, ls)" "ls = 0 \<or> ls = 1"
  shows "ParseMetaSlot (if ls = 0 then a else b) 1 = Inr live"
    and "ParseMetaSlot x 1 = Inl e \<Longrightarrow> (if ls = 0 then MetaLive a x 1 else MetaLive x b 1) = Inr (live, ls)"
    and "ParseMetaSlot x 1 = Inr m \<Longrightarrow> m_CommitSeq live < m_CommitSeq m
      \<Longrightarrow> (if ls = 0 then MetaLive a x 1 else MetaLive x b 1) = Inr (m, 1 - ls)"
  using assms by (auto simp: MetaLive_def split: sum.splits if_splits)

lemma MetaLive_slot: "MetaLive a b kind = Inr (live, ls) \<Longrightarrow> ls = 0 \<or> ls = 1"
  by (auto simp: MetaLive_def split: sum.splits if_splits)

lemma seg_at_reads:
  assumes "seg_at d kind c h pl" "\<And>i j x. read_full d i j = Inr x \<Longrightarrow> 16384 \<le> unat i \<Longrightarrow> read_full d' i j = Inr x"
    and "16384 \<le> unat c"
  shows "seg_at d' kind c h pl"
  using assms seg_at_end(3) [OF assms(1)] by (auto simp: seg_at_def)

lemma log_at_reads:
  assumes "log_at d kind c ss e" "\<And>i j x. read_full d i j = Inr x \<Longrightarrow> 16384 \<le> unat i \<Longrightarrow> read_full d' i j = Inr x"
    and "16384 \<le> unat c"
  shows "log_at d' kind c ss e"
  using assms(1,3)
proof (induction ss arbitrary: c)
  case Nil
  then show ?case by simp
next
  case (Cons x ss)
  obtain off h pl where x: "x = (off, h, pl)" by (cases x)
  with Cons.prems have s: "seg_at d kind c h pl" "off = c" by auto
  have "16384 \<le> unat (c + SegmentSpan (of_nat (length pl)))" using seg_at_end(4) [OF s(1)] Cons.prems(2) by simp
  then show ?case using Cons.IH Cons.prems(1) seg_at_reads [OF s(1) assms(2) Cons.prems(2)] x s(2) by simp
qed

definition stale_off :: "File \<Rightarrow> u64" where
  "stale_off f = (if f_liveSlot f = 0 then 8192 else 4096)"

lemma file_inv_root:
  assumes "file_inv f ss"
  obtains a b live old where "read_full (f_dev f) 4096 128 = Inr a" "read_full (f_dev f) 8192 128 = Inr b"
    "MetaLive a b 1 = Inr (live, f_liveSlot f)" "m_CommitSeq live = f_commitSeq f"
    "f_liveSlot f = 0 \<or> f_liveSlot f = 1" "old = (if f_liveSlot f = 0 then b else a)"
    "read_full (f_dev f) (stale_off f) 128 = Inr old"
    "live_root (f_dev f) (f_prefix f) = Inr (live, f_liveSlot f)"
proof -
  from assms obtain a b live where p: "read_full (f_dev f) 4096 128 = Inr a" "read_full (f_dev f) 8192 128 = Inr b"
      "MetaLive a b 1 = Inr (live, f_liveSlot f)" "m_CommitSeq live = f_commitSeq f"
    by (auto simp: file_inv_def page_zero_def)
  moreover have "p_MetaSlotAOff (f_prefix f) = 4096" "p_MetaSlotBOff (f_prefix f) = 8192" "p_ChecksumKind (f_prefix f) = 1"
    using assms by (auto simp: file_inv_def std_prefix_def)
  ultimately show ?thesis using that MetaLive_slot [OF p(3)] by (auto simp: stale_off_def live_root_def)
qed

text \<open>The write of the slot and the sync, as one device transition.\<close>

lemma CommitRoots_run:
  assumes inv: "file_inv f ss" and new: "MetaSlot_Marshal (stamp f m) 1 = Inr new"
    and ls: "f_liveSlot f = 0 \<or> f_liveSlot f = 1"
    and run: "CommitRoots f m = (f', eo)"
  shows "\<exists>d n e. WriteAt (f_dev f) new (stale_off f) = (d, n, e)
    \<and> d_data (f_dev f') = d_data d \<and> d_badread (f_dev f') = d_badread d
    \<and> f_prefix f' = f_prefix f \<and> f_cursor f' = f_cursor f \<and> f_globalSeq f' = f_globalSeq f
    \<and> (if eo = None then e = None \<and> n = 128 \<and> f_commitSeq f' = f_commitSeq f + 1 \<and> f_liveSlot f' = 1 - f_liveSlot f
          \<and> d_synced (f_dev f') = d_data (f_dev f')
        else f_commitSeq f' = f_commitSeq f \<and> f_liveSlot f' = f_liveSlot f)"
proof -
  have p: "p_ChecksumKind (f_prefix f) = 1" "p_MetaSlotAOff (f_prefix f) = 4096" "p_MetaSlotBOff (f_prefix f) = 8192"
    using inv by (auto simp: file_inv_def std_prefix_def)
  obtain d n e where w: "WriteAt (f_dev f) new (stale_off f) = (d, n, e)" by (cases "WriteAt (f_dev f) new (stale_off f)") auto
  obtain d2 e2 where s: "Sync d = (d2, e2)" by force
  have l: "length new = 128" by (rule ParseMetaSlot_Marshal(1) [OF new])
  have off: "(if 1 - f_liveSlot f = 1 then 8192 else 4096) = stale_off f" using ls by (auto simp: stale_off_def)
  have sy: "e2 = None \<longrightarrow> d_synced d2 = d_data d2"
    using s by (auto simp: Sync_def next_fault_def split: if_splits list.splits fault.splits)
  have eq: "CommitRoots f m =
      (case writeAt f new (stale_off f) of
         (f, Some e) \<Rightarrow> (f, Some e)
       | (f1, None) \<Rightarrow>
           (case Sync (f_dev f1) of
              (dev, Some e) \<Rightarrow> (f1\<lparr>f_dev := dev\<rparr>, Some e)
            | (dev, None) \<Rightarrow>
                (case now (f1\<lparr>f_dev := dev, f_commitSeq := f_commitSeq f + 1, f_liveSlot := 1 - f_liveSlot f\<rparr>) of
                   (f, t) \<Rightarrow> (f\<lparr>f_lastSync := t\<rparr>, None))))"
    using new off unfolding CommitRoots_def Let_def p stamp_def by (simp del: One_nat_def)
  show ?thesis
  proof (cases "e = None \<and> n = 128")
    case False
    then have "\<exists>x. writeAt f new (stale_off f) = (f\<lparr>f_dev := d\<rparr>, Some x)" using w l by (auto simp: writeAt_eq)
    with eq run have "f' = f\<lparr>f_dev := d\<rparr>" "eo \<noteq> None" by auto
    then show ?thesis using w by simp
  next
    case True
    then have wa: "writeAt f new (stale_off f) = (f\<lparr>f_dev := d\<rparr>, None)" using w l by (simp add: writeAt_eq)
    show ?thesis
    proof (cases e2)
      case None
      with eq wa s run have "eo = None" "f' = (f\<lparr>f_dev := d2, f_commitSeq := f_commitSeq f + 1,
          f_liveSlot := 1 - f_liveSlot f, f_tick := Suc (f_tick f), f_lastSync := f_now f (f_tick f)\<rparr>)"
        by (auto simp: now_def)
      then show ?thesis using w True None sy Sync_same [OF s] by simp
    next
      case (Some x)
      with eq wa s run have "eo = Some x" "f' = f\<lparr>f_dev := d2\<rparr>" by auto
      then show ?thesis using w Sync_same [OF s] by simp
    qed
  qed
qed

lemma CommitRoots_torn:
  assumes inv: "file_inv f ss" and new: "MetaSlot_Marshal (stamp f m) 1 = Inr new"
    and run: "CommitRoots f m = (f', eo)"
    and root: "MetaLive a b 1 = Inr (live, f_liveSlot f)" "read_full (f_dev f) 4096 128 = Inr a"
      "read_full (f_dev f) 8192 128 = Inr b" "old = (if f_liveSlot f = 0 then b else a)"
  shows "\<exists>k \<le> 128. (eo = None \<longrightarrow> k = 128) \<and> readable (f_dev f')
    \<and> length (d_data (f_dev f')) = length (d_data (f_dev f))
    \<and> read_full (f_dev f') 0 100 = read_full (f_dev f) 0 100
    \<and> log_at (f_dev f') 1 16384 ss (f_cursor f)
    \<and> live_root (f_dev f') (f_prefix f) =
        (if f_liveSlot f = 0 then MetaLive a (take k new @ drop k old) 1 else MetaLive (take k new @ drop k old) b 1)"
proof -
  have p: "p_ChecksumKind (f_prefix f) = 1" "p_MetaSlotAOff (f_prefix f) = 4096" "p_MetaSlotBOff (f_prefix f) = 8192"
    using inv by (auto simp: file_inv_def std_prefix_def)
  note ls = MetaLive_slot [OF root(1)]
  from CommitRoots_run [OF inv new ls run] obtain d n e where
    w: "WriteAt (f_dev f) new (stale_off f) = (d, n, e)" "d_data (f_dev f') = d_data d"
      "d_badread (f_dev f') = d_badread d" "eo = None \<longrightarrow> e = None \<and> n = 128"
    by (auto split: if_splits)
  have old: "read_full (f_dev f) (stale_off f) 128 = Inr old" using root ls by (auto simp: stale_off_def)
  have st: "unat (stale_off f) + 128 < 2 ^ 62" "unat (stale_off f) = (if f_liveSlot f = 0 then 8192 else 4096)"
    by (auto simp: stale_off_def)
  from inv have rd: "readable (f_dev f)" by (simp add: file_inv_def)
  from WriteAt_torn_slot [OF rd old ParseMetaSlot_Marshal(1) [OF new] st(1) w(1)] obtain k where
    k: "k \<le> 128" "read_full d (stale_off f) 128 = Inr (take k new @ drop k old)" "e = None \<and> n = 128 \<longrightarrow> k = 128"
      "readable d" "length (d_data d) = length (d_data (f_dev f))"
      "\<And>i j x. read_full (f_dev f) i j = Inr x \<Longrightarrow> unat i + j \<le> unat (stale_off f) \<or> unat (stale_off f) + 128 \<le> unat i
          \<Longrightarrow> read_full d i j = Inr x"
    by blast
  note rf = read_full_cong [OF w(2,3)]
  have lg: "log_at d 1 16384 ss (f_cursor f)"
    by (rule log_at_reads [of "f_dev f"]) (use inv st(2) in \<open>auto simp: file_inv_def intro!: k(6) split: if_splits\<close>)
  obtain hb where hb: "read_full (f_dev f) 0 100 = Inr hb" using inv by (auto simp: file_inv_def page_zero_def)
  then have "read_full d 0 100 = Inr hb" by (rule k(6)) (use st(2) in \<open>auto split: if_splits\<close>)
  moreover have "live_root d (f_prefix f) =
      (if f_liveSlot f = 0 then MetaLive a (take k new @ drop k old) 1 else MetaLive (take k new @ drop k old) b 1)"
  proof (cases "f_liveSlot f = 0")
    case True
    then have "read_full d 4096 128 = Inr a" using root(2) st(2) by (intro k(6)) auto
    then show ?thesis using k(2) True p by (simp add: live_root_def stale_off_def)
  next
    case False
    then have "read_full d 8192 128 = Inr b" using root(3) st(2) by (intro k(6)) auto
    then show ?thesis using k(2) False p by (simp add: live_root_def stale_off_def)
  qed
  ultimately show ?thesis
    using k w(2-4) lg hb log_at_cong [OF rf]
    by (intro exI [of _ k]) (simp add: rf readable_def live_root_def)
qed

end
