(* ===== verification/CommitProps.thy ===== *)
theory CommitProps
  imports Commit FileProps
begin

unbundle bit_operations_syntax

text \<open>
  The properties of the root commits: the flip is atomic under torn writes, and a
  checkpoint is read back whole by the open sequence.
\<close>

section \<open>The flip\<close>

lemma CreateOnDevice_fields:
  "CreateOnDevice d opts = Inr f \<Longrightarrow>
    f_prefix f = NewPrefix (co_ShardCount opts) (co_SepThreshold opts) (co_UUID opts) (co_CreatedUnixNanos opts)
    \<and> f_commitSeq f = 0 \<and> f_liveSlot f = 0"
  by (auto simp: CreateOnDevice_def Let_def newFile_def split: prod.splits option.splits)

lemma take_full_slot: "length new = 128 \<Longrightarrow> length old = 128 \<Longrightarrow> take 128 new @ drop 128 old = new"
  by simp

lemma stamp_newer:
  assumes "unat (f_commitSeq f) + 1 < 2 ^ 64" "m_CommitSeq live = f_commitSeq f"
  shows "m_CommitSeq live < m_CommitSeq (stamp f m)"
proof -
  have "unat (f_commitSeq f + 1) = unat (f_commitSeq f) + 1"
    using assms(1) by (subst unat_add_lem [THEN iffD1]) simp_all
  then show ?thesis using assms(2) by (simp add: stamp_def word_less_nat_alt)
qed

lemma CommitRoots_ok:
  assumes inv: "file_inv f ss" and seq: "unat (f_commitSeq f) + 1 < 2 ^ 64"
    and run: "CommitRoots f m = (f', None)"
  shows "file_inv f' ss" "live_root (f_dev f') (f_prefix f) = Inr (stamp f m, 1 - f_liveSlot f)"
    "d_synced (f_dev f') = d_data (f_dev f')" "f_prefix f' = f_prefix f" "f_cursor f' = f_cursor f"
proof -
  obtain new where new: "MetaSlot_Marshal (stamp f m) 1 = Inr new" using MetaSlot_Marshal_crc by blast
  note pn = ParseMetaSlot_Marshal [OF new]
  obtain a b live old where root: "read_full (f_dev f) 4096 128 = Inr a" "read_full (f_dev f) 8192 128 = Inr b"
    "MetaLive a b 1 = Inr (live, f_liveSlot f)" "m_CommitSeq live = f_commitSeq f"
    "f_liveSlot f = 0 \<or> f_liveSlot f = 1" "old = (if f_liveSlot f = 0 then b else a)"
    "read_full (f_dev f) (stale_off f) 128 = Inr old"
    by (rule file_inv_root [OF inv])
  have lo: "length old = 128" using length_read_full [OF root(7)] .
  from CommitRoots_torn [OF inv new run root(3,1,2,6)] have
    t: "readable (f_dev f')" "length (d_data (f_dev f')) = length (d_data (f_dev f))"
      "read_full (f_dev f') 0 100 = read_full (f_dev f) 0 100" "log_at (f_dev f') 1 16384 ss (f_cursor f)"
      "live_root (f_dev f') (f_prefix f) = (if f_liveSlot f = 0 then MetaLive a new 1 else MetaLive new b 1)"
    using take_full_slot [OF pn(1) lo] by auto
  from CommitRoots_run [OF inv new root(5) run] have
    r: "f_prefix f' = f_prefix f" "f_cursor f' = f_cursor f" "f_globalSeq f' = f_globalSeq f"
      "f_commitSeq f' = f_commitSeq f + 1" "f_liveSlot f' = 1 - f_liveSlot f" "d_synced (f_dev f') = d_data (f_dev f')"
    by auto
  show live: "live_root (f_dev f') (f_prefix f) = Inr (stamp f m, 1 - f_liveSlot f)"
    unfolding t(5) by (rule MetaLive_flip(3) [OF root(3,5) pn(2) stamp_newer [OF seq root(4)]])
  have p: "std_prefix (f_prefix f)" using inv by (simp add: file_inv_def)
  have "page_zero (f_dev f') (f_prefix f) (f_commitSeq f + 1) (1 - f_liveSlot f)"
    using live t(3) inv p unfolding page_zero_def live_root_def file_inv_def std_prefix_def
    by (auto simp: stamp_def)
  then show "file_inv f' ss" using inv t r by (auto simp: file_inv_def)
  show "d_synced (f_dev f') = d_data (f_dev f')" "f_prefix f' = f_prefix f" "f_cursor f' = f_cursor f"
    using r by simp_all
qed

lemma CommitRoots_healthy:
  assumes inv: "file_inv f ss" and h: "healthy (f_dev f)"
  shows "\<exists>f'. CommitRoots f m = (f', None) \<and> healthy (f_dev f')"
proof -
  obtain new where new: "MetaSlot_Marshal (stamp f m) 1 = Inr new" using MetaSlot_Marshal_crc by blast
  have p: "p_ChecksumKind (f_prefix f) = 1" "p_MetaSlotAOff (f_prefix f) = 4096" "p_MetaSlotBOff (f_prefix f) = 8192"
    using inv by (auto simp: file_inv_def std_prefix_def)
  let ?off = "if 1 - f_liveSlot f = 1 then 8192 else 4096 :: u64"
  have "unat ?off + length new < 2 ^ 62" using ParseMetaSlot_Marshal(1) [OF new] by simp
  from WriteAt_reads [OF h this] obtain d where d: "WriteAt (f_dev f) new ?off = (d, length new, None)" "healthy d"
    by blast
  then have "writeAt f new ?off = (f\<lparr>f_dev := d\<rparr>, None)" by (simp add: writeAt_eq del: One_nat_def)
  moreover have "Sync d = (d\<lparr>d_synced := d_data d\<rparr>, None)" by (rule Sync_healthy [OF d(2)])
  ultimately show ?thesis using new d(2) unfolding CommitRoots_def Let_def p stamp_def
    by (simp add: now_def healthy_def del: One_nat_def)
qed

text \<open>
  C3. The root commit is crash-atomic: whatever part of the slot write lands and whether or
  not the sync fails, every segment stays where it was and the root a reopen picks is the
  old one or the new one, unless a torn slot that is neither passes its checksum.  When
  CommitRoots returns no error the new root is live and synced, and the file is in its invariant.
\<close>

theorem commit_roots_atomic:
  assumes "file_inv f ss" "unat (f_commitSeq f) + 1 < 2 ^ 64" "CommitRoots f m = (f', eo)"
  shows "\<exists>live old new. live_root (f_dev f) (f_prefix f) = Inr (live, f_liveSlot f)
    \<and> read_full (f_dev f) (stale_off f) MetaSlotSize = Inr old \<and> MetaSlot_Marshal (stamp f m) ChecksumCRC32C = Inr new
    \<and> (live_root (f_dev f') (f_prefix f) = Inr (live, f_liveSlot f)
       \<or> live_root (f_dev f') (f_prefix f) = Inr (stamp f m, 1 - f_liveSlot f)
       \<or> slot_collision old new)
    \<and> log_at (f_dev f') 1 PageSize ss (f_cursor f)
    \<and> (eo = None \<longrightarrow> live_root (f_dev f') (f_prefix f) = Inr (stamp f m, 1 - f_liveSlot f)
         \<and> file_inv f' ss \<and> d_synced (f_dev f') = d_data (f_dev f'))"
proof -
  obtain new where new: "MetaSlot_Marshal (stamp f m) 1 = Inr new" using MetaSlot_Marshal_crc by blast
  note pn = ParseMetaSlot_Marshal [OF new]
  obtain a b live old where root: "read_full (f_dev f) 4096 128 = Inr a" "read_full (f_dev f) 8192 128 = Inr b"
    "MetaLive a b 1 = Inr (live, f_liveSlot f)" "m_CommitSeq live = f_commitSeq f"
    "f_liveSlot f = 0 \<or> f_liveSlot f = 1" "old = (if f_liveSlot f = 0 then b else a)"
    "read_full (f_dev f) (stale_off f) 128 = Inr old" "live_root (f_dev f) (f_prefix f) = Inr (live, f_liveSlot f)"
    by (rule file_inv_root [OF assms(1)])
  have lo: "length old = 128" using length_read_full [OF root(7)] .
  from CommitRoots_torn [OF assms(1) new assms(3) root(3,1,2,6)] obtain k where
    t: "k \<le> 128" "log_at (f_dev f') 1 16384 ss (f_cursor f)"
      "live_root (f_dev f') (f_prefix f) =
        (if f_liveSlot f = 0 then MetaLive a (take k new @ drop k old) 1 else MetaLive (take k new @ drop k old) b 1)"
    by auto
  let ?t = "take k new @ drop k old"
  have new_live: "(if f_liveSlot f = 0 then MetaLive a new 1 else MetaLive new b 1) = Inr (stamp f m, 1 - f_liveSlot f)"
    by (rule MetaLive_flip(3) [OF root(3,5) pn(2) stamp_newer [OF assms(2) root(4)]])
  have "live_root (f_dev f') (f_prefix f) = Inr (live, f_liveSlot f)
      \<or> live_root (f_dev f') (f_prefix f) = Inr (stamp f m, 1 - f_liveSlot f) \<or> slot_collision old new"
  proof (cases "?t = old \<or> ?t = new \<or> k = 128")
    case True
    then show ?thesis using t(3) new_live root(3,6) take_full_slot [OF pn(1) lo] by (auto split: if_splits)
  next
    case False
    then show ?thesis
    proof (cases "ParseMetaSlot ?t 1")
      case (Inl e)
      then show ?thesis using MetaLive_flip(2) [OF root(3,5)] t(3) by auto
    next
      case (Inr x)
      have "k < 128" using False t(1) by simp
      then show ?thesis using False Inr unfolding slot_collision_def by blast
    qed
  qed
  moreover have "eo = None \<longrightarrow> live_root (f_dev f') (f_prefix f) = Inr (stamp f m, 1 - f_liveSlot f)
      \<and> file_inv f' ss \<and> d_synced (f_dev f') = d_data (f_dev f')"
    using CommitRoots_ok [OF assms(1,2)] assms(3) by blast
  ultimately show ?thesis using root(7,8) new t(2) by blast
qed

theorem commit_roots_atomic_witness:
  "\<exists>f f' eo live old new. CreateOnDevice demo_dev demo_opts = Inr f
     \<and> CommitRoots (f\<lparr>f_dev := (f_dev f)\<lparr>d_faults := [FailAfter 9]\<rparr>\<rparr>) zero_MetaSlot = (f', eo)
     \<and> (live_root (f_dev f') (f_prefix f) = Inr (live, 0)
        \<or> live_root (f_dev f') (f_prefix f) = Inr (stamp f zero_MetaSlot, 1) \<or> slot_collision old new)"
proof -
  obtain f where f0: "CreateOnDevice demo_dev demo_opts = Inr f" "file_inv f []" by (rule demo_file)
  note f = f0 CreateOnDevice_fields [OF f0(1), THEN conjunct2, THEN conjunct1]
    CreateOnDevice_fields [OF f0(1), THEN conjunct2, THEN conjunct2]
  let ?f = "f\<lparr>f_dev := (f_dev f)\<lparr>d_faults := [FailAfter 9]\<rparr>\<rparr>"
  have i: "file_inv ?f []" by (rule file_inv_dev [OF f(2)]) simp_all
  obtain f' eo where a: "CommitRoots ?f zero_MetaSlot = (f', eo)" by (cases "CommitRoots ?f zero_MetaSlot") auto
  from commit_roots_atomic [OF i _ a] f(3) obtain live old new where
    "live_root (f_dev f') (f_prefix ?f) = Inr (live, f_liveSlot ?f)
       \<or> live_root (f_dev f') (f_prefix ?f) = Inr (stamp ?f zero_MetaSlot, 1 - f_liveSlot ?f) \<or> slot_collision old new"
    by auto
  then show ?thesis using f a by (auto simp: stamp_def)
qed

section \<open>Checkpoints\<close>

lemma page_zero_live_root:
  assumes "std_prefix p" "page_zero d p cs ls" "live_root d p = Inr (m, which)"
    and "m_SRTShardCount m = 0 \<or> m_SRTShardCount m = p_ShardCount p"
  shows "ReadOpenState d = Inr \<lparr>os_Prefix = p, os_Meta = Some m, os_Which = int which,
    os_Outcome = (if m_CleanShutdown m = 1 then OpenClean else OpenCrashed)\<rparr>"
proof -
  have "ParsePrefix (Prefix_Marshal p) = Inr p"
    using ParsePrefix_Marshal [of p] assms(1) by (simp add: std_prefix_def)
  then show ?thesis using assms unfolding ReadOpenState_def page_zero_def live_root_def by auto
qed

lemma page_zero_file: "file_inv f ss \<Longrightarrow> std_prefix (f_prefix f) \<and> page_zero (f_dev f) (f_prefix f) (f_commitSeq f) (f_liveSlot f)"
  by (simp add: file_inv_def)

text \<open>The slot a checkpoint commits, before CommitRoots stamps it.\<close>

definition ckpt_slot :: "u64 list \<Rightarrow> SRT \<Rightarrow> bytes \<Rightarrow> Extent list \<Rightarrow> CheckpointStats \<Rightarrow> CheckpointGlobals \<Rightarrow> MetaSlot" where
  "ckpt_slot offs srt srtBytes extents stats globals = \<lparr>m_CommitSeq = 0, m_GlobalSeq = 0,
     m_SRTOff = offs ! 0 + 64, m_SRTLen = of_nat (length srtBytes), m_SRTShardCount = of_nat (length (srt_Rows srt)),
     m_ExtentTableOff = (if extents = [] then 0 else offs ! 1 + 64),
     m_ExtentTableLen = (if extents = [] then 0 else of_nat (length (MarshalExtents extents))),
     m_TTLIndexLen = cg_TTLIndexLen globals, m_TTLIndexOff = cg_TTLIndexOff globals,
     m_FreeMapOff = cg_FreeMapOff globals, m_FileSize = 0, m_LiveBytes = cs_LiveBytes stats,
     m_DeadBytes = cs_DeadBytes stats, m_RecordCount = cs_RecordCount stats, m_LastCkptUnix = cs_LastCkptUnix stats,
     m_CleanShutdown = (if cs_Clean stats then 1 else 0), m_MetaKVOff = cg_MetaKVOff globals\<rparr>"

definition ckpt_grp :: "bytes \<Rightarrow> Extent list \<Rightarrow> Pending list" where
  "ckpt_grp srtBytes extents = root_pending 6 srtBytes #
     (if extents = [] then [] else [root_pending 7 (MarshalExtents extents)])"

lemma CheckpointWithGlobals_eq:
  assumes "SRT_Marshal srt (p_ChecksumKind (f_prefix f)) = Inr srtBytes"
  shows "CheckpointWithGlobals f srt extents stats globals =
    (case AppendGroup f (ckpt_grp srtBytes extents) of
       (f, offs, Some e) \<Rightarrow> (f, Some e)
     | (f, offs, None) \<Rightarrow> CommitRoots f (ckpt_slot offs srt srtBytes extents stats globals))"
  using assms
  by (cases "extents = []"; cases "cs_Clean stats")
    (simp_all add: CheckpointWithGlobals_def ckpt_grp_def ckpt_slot_def Let_def zero_MetaSlot_def
      split: prod.splits option.splits)

lemma MarshalExtents_len: "length (MarshalExtents es) = length es * 24"
  using extent.put_rows_fill [of "[]" es] extent.length_concat_enc [of es] by (simp add: MarshalExtents_def)

lemma root_read:
  assumes "file_inv f ss" "(off, h, pl) \<in> set ss"
  shows "read_full (f_dev f) (off + 64) (length pl) = Inr pl"
  using log_at_seg [of "f_dev f" 1 16384 ss "f_cursor f"] assms by (auto simp: file_inv_def seg_at_def)

lemma of_nat_u32_pos:
  assumes "0 < n" "n < 2 ^ 32"
  shows "unat (of_nat n :: u32) = n \<and> (of_nat n :: u32) \<noteq> 0"
proof -
  have "unat (of_nat n :: u32) = n" using assms(2) by (simp add: unat_of_nat)
  with assms(1) show ?thesis by (metis less_irrefl unsigned_0)
qed

lemma ReadSRT_seg:
  assumes "file_inv f ss" "(off, h, b) \<in> set ss" "SRT_Marshal srt 1 = Inr b"
    and "length (srt_Rows srt) = unat (p_ShardCount (f_prefix f))" "length b < 2 ^ 32"
    and "m_SRTOff m = off + 64" "m_SRTLen m = of_nat (length b)"
  shows "ReadSRT (f_dev f) (f_prefix f) (Some m) = Inr (Some srt)"
proof -
  have "length (srt_Rows srt) < 2 ^ 32"
    using assms(4) unsigned_less [of "p_ShardCount (f_prefix f)", where 'a = nat] by simp
  note srt = ParseSRT_Marshal [OF assms(3) this]
  have "0 < length b" using srt(2) by simp
  note n = of_nat_u32_pos [OF this assms(5)]
  show ?thesis
    unfolding ReadSRT_def using n assms(4,6,7) root_read [OF assms(1,2)] srt(1) file_inv_kind [OF assms(1)] by simp
qed

lemma ReadExtentTable_seg:
  assumes "file_inv f ss" "(off, h, MarshalExtents es) \<in> set ss" "es \<noteq> []" "length es * 24 < 2 ^ 32"
    and "m_ExtentTableOff m = off + 64" "m_ExtentTableLen m = of_nat (length (MarshalExtents es))"
  shows "ReadExtentTable (f_dev f) (Some m) = Inr es"
proof -
  have "0 < length (MarshalExtents es)" "length (MarshalExtents es) < 2 ^ 32"
    using assms(3,4) by (simp_all add: MarshalExtents_len)
  from of_nat_u32_pos [OF this] show ?thesis
    using assms(5,6) root_read [OF assms(1,2)] ParseExtents_Marshal [of es] by (simp add: ReadExtentTable_def)
qed

lemma CheckpointWithGlobals_recovers:
  assumes inv: "file_inv f ss" and h: "healthy (f_dev f)"
    and marshal: "SRT_Marshal srt ChecksumCRC32C = Inr srtBytes"
    and rows: "length (srt_Rows srt) = unat (p_ShardCount (f_prefix f))"
    and small: "length srtBytes < 2 ^ 32" "length extents * ExtentSize < 2 ^ 32"
    and fit: "fits (f_cursor f) (ckpt_grp srtBytes extents)"
    and seq: "unat (f_globalSeq f) + 2 < 2 ^ 64" "unat (f_commitSeq f) + 1 < 2 ^ 64"
  shows "\<exists>f' m st. CheckpointWithGlobals f srt extents stats globals = (f', None)
    \<and> file_inv f' (ss @ layout (f_cursor f) (f_globalSeq f) (ckpt_grp srtBytes extents))
    \<and> ReadOpenState (f_dev f') = Inr st \<and> os_Meta st = Some m
    \<and> os_Outcome st = (if cs_Clean stats then OpenClean else OpenCrashed)
    \<and> m_FileSize m = f_cursor f' \<and> m_TTLIndexOff m = cg_TTLIndexOff globals
    \<and> m_TTLIndexLen m = cg_TTLIndexLen globals \<and> os_Prefix st = f_prefix f'
    \<and> m_FreeMapOff m = cg_FreeMapOff globals \<and> m_MetaKVOff m = cg_MetaKVOff globals
    \<and> ReadSRT (f_dev f') (os_Prefix st) (os_Meta st) = Inr (Some srt)
    \<and> ReadExtentTable (f_dev f') (os_Meta st) = Inr extents"
proof -
  let ?g = "ckpt_grp srtBytes extents" and ?l = "layout (f_cursor f) (f_globalSeq f) (ckpt_grp srtBytes extents)"
  note kind = file_inv_kind [OF inv]
  have seq': "unat (f_globalSeq f) + length ?g < 2 ^ 64" using seq(1) by (simp add: ckpt_grp_def)
  from AppendGroup_healthy [OF kind h fit] obtain f1 offs where
    a: "AppendGroup f ?g = (f1, offs, None)" "healthy (f_dev f1)" by blast
  note i1 = AppendGroup_inv [OF inv fit seq' a(1)]
  from AppendGroup_crash [OF inv fit a(1)] have f1: "same_file f f1" by blast
  let ?m = "ckpt_slot offs srt srtBytes extents stats globals"
  from CommitRoots_healthy [OF i1(1) a(2)] obtain f' where c: "CommitRoots f1 ?m = (f', None)" by blast
  have "unat (f_commitSeq f1) + 1 < 2 ^ 64" using f1 seq(2) by (simp add: same_file_def)
  note r = CommitRoots_ok [OF i1(1) this c]
  have run: "CheckpointWithGlobals f srt extents stats globals = (f', None)"
    using CheckpointWithGlobals_eq [of srt f srtBytes] marshal kind a(1) c by simp
  let ?st = "stamp f1 ?m"
  have pf: "f_prefix f' = f_prefix f" using r(4) f1 by (simp add: same_file_def)
  have cnt: "m_SRTShardCount ?st = p_ShardCount (f_prefix f')"
    using rows pf by (simp add: stamp_def ckpt_slot_def)
  note pz = page_zero_file [OF r(1)]
  have st: "ReadOpenState (f_dev f') = Inr \<lparr>os_Prefix = f_prefix f', os_Meta = Some ?st,
      os_Which = int (1 - f_liveSlot f1), os_Outcome = (if m_CleanShutdown ?st = 1 then OpenClean else OpenCrashed)\<rparr>"
    by (rule page_zero_live_root [OF pz [THEN conjunct1] pz [THEN conjunct2] r(2) [folded r(4)] disjI2 [OF cnt]])
  have offs: "offs ! 0 = fst (?l ! 0)" "extents \<noteq> [] \<Longrightarrow> offs ! 1 = fst (?l ! 1)"
    using i1(2) by (simp_all add: ckpt_grp_def)
  have srt_seg: "(offs ! 0, seg_hdr (f_globalSeq f + 1) (root_pending 6 srtBytes), srtBytes) \<in> set (ss @ ?l)"
    using offs(1) by (simp add: ckpt_grp_def root_pending_def)
  have R: "ReadSRT (f_dev f') (f_prefix f') (Some ?st) = Inr (Some srt)"
    by (rule ReadSRT_seg [OF r(1) srt_seg marshal _ small(1)]) (simp_all add: rows pf stamp_def ckpt_slot_def)
  have E: "ReadExtentTable (f_dev f') (Some ?st) = Inr extents"
  proof (cases "extents = []")
    case True
    then show ?thesis by (simp add: ReadExtentTable_def stamp_def ckpt_slot_def)
  next
    case False
    let ?eb = "MarshalExtents extents"
    have "(offs ! 1, seg_hdr (f_globalSeq f + 1 + 1) (root_pending 7 ?eb), ?eb) \<in> set (ss @ ?l)"
      using False offs(2) by (simp add: ckpt_grp_def root_pending_def)
    from ReadExtentTable_seg [OF r(1) this False small(2)] show ?thesis
      using False by (simp add: stamp_def ckpt_slot_def)
  qed
  show ?thesis
    by (rule exI [of _ f'], rule exI [of _ ?st], rule exI, intro conjI, rule run, rule r(1), rule st)
      (use R E r(5) in \<open>simp_all add: stamp_def ckpt_slot_def\<close>)
qed

text \<open>
  C14. A checkpoint comes back whole: after CheckpointWithGlobals on a device in working order
  the open sequence finds the new root with its accounting, globals and outcome, reads
  back the same shard root table and the same extent map, and the append space holds the old
  segments and the roots behind them.
\<close>

theorem checkpoint_recovers:
  assumes inv: "file_inv f ss" and h: "healthy (f_dev f)"
    and marshal: "SRT_Marshal srt ChecksumCRC32C = Inr srtBytes"
    and rows: "length (srt_Rows srt) = unat (p_ShardCount (f_prefix f))"
    and small: "length srtBytes < 2 ^ 32" "length extents * ExtentSize < 2 ^ 32"
    and fit: "fits (f_cursor f) (ckpt_grp srtBytes extents)"
    and seq: "unat (f_globalSeq f) + 2 < 2 ^ 64" "unat (f_commitSeq f) + 1 < 2 ^ 64"
  shows "\<exists>f' m st. CheckpointWithGlobals f srt extents stats globals = (f', None)
    \<and> file_inv f' (ss @ layout (f_cursor f) (f_globalSeq f) (ckpt_grp srtBytes extents))
    \<and> ReadOpenState (f_dev f') = Inr st \<and> os_Meta st = Some m
    \<and> os_Outcome st = (if cs_Clean stats then OpenClean else OpenCrashed)
    \<and> m_FileSize m = f_cursor f' \<and> m_TTLIndexOff m = cg_TTLIndexOff globals
    \<and> m_FreeMapOff m = cg_FreeMapOff globals \<and> m_MetaKVOff m = cg_MetaKVOff globals
    \<and> ReadSRT (f_dev f') (os_Prefix st) (os_Meta st) = Inr (Some srt)
    \<and> ReadExtentTable (f_dev f') (os_Meta st) = Inr extents"
  using CheckpointWithGlobals_recovers [OF assms] by blast

definition demo_srt :: SRT where
  "demo_srt = \<lparr>srt_Gen = 1, srt_SnapWbar = 0, srt_Flags = 0, srt_Rows = replicate 4
     \<lparr>sr_IndexCkptOff = 0, sr_IndexCkptLen = 0, sr_ChunkdirOff = 0, sr_ChunkdirLen = 0, sr_SegstatsOff = 0,
       sr_SegstatsLen = 0, sr_CkptLogPos = 0, sr_ShardSeqHigh = 7, sr_FirstTailSeg = 16384, sr_LiveRecords = 3\<rparr>\<rparr>"

definition demo_extent :: Extent where
  "demo_extent = \<lparr>ext_Kind = 1, ext_Flags = 0, ext_StartOff = 16384, ext_Length = 4096\<rparr>"

definition demo_stats :: CheckpointStats where
  "demo_stats = \<lparr>cs_LiveBytes = 10, cs_DeadBytes = 2, cs_RecordCount = 3, cs_LastCkptUnix = 5, cs_Clean = False\<rparr>"

lemma demo_srt_bytes:
  obtains b where "SRT_Marshal demo_srt 1 = Inr b" "length b = 360"
proof -
  obtain b where b: "SRT_Marshal demo_srt 1 = Inr b" using SRT_Marshal_crc by blast
  have "length (srt_Rows demo_srt) = 4" by (simp add: demo_srt_def)
  with ParseSRT_Marshal(2) [OF b] that b show ?thesis by simp
qed

theorem checkpoint_recovers_witness:
  "\<exists>f f' st. CreateOnDevice demo_dev demo_opts = Inr f
     \<and> CheckpointWithGlobals f demo_srt [demo_extent] demo_stats no_globals = (f', None)
     \<and> ReadOpenState (f_dev f') = Inr st \<and> os_Outcome st = OpenCrashed
     \<and> ReadSRT (f_dev f') (os_Prefix st) (os_Meta st) = Inr (Some demo_srt)
     \<and> ReadExtentTable (f_dev f') (os_Meta st) = Inr [demo_extent]"
proof -
  obtain f where f: "CreateOnDevice demo_dev demo_opts = Inr f" "healthy (f_dev f)" "file_inv f []"
    "f_cursor f = 16384" "f_globalSeq f = 0" by (rule demo_file)
  note c = CreateOnDevice_fields [OF f(1)]
  obtain b where b: "SRT_Marshal demo_srt 1 = Inr b" "length b = 360" by (rule demo_srt_bytes)
  have rows: "length (srt_Rows demo_srt) = unat (p_ShardCount (f_prefix f))"
    using c by (simp add: demo_srt_def demo_opts_def NewPrefix_def)
  have fit: "fits (f_cursor f) (ckpt_grp b [demo_extent])"
    using b(2) f(4) by (simp add: fits_def ckpt_grp_def root_pending_def MarshalExtents_len span_def maxAlloc_def)
  have "length b < 2 ^ 32" "length [demo_extent] * 24 < 2 ^ 32" using b(2) by simp_all
  from checkpoint_recovers [OF f(3,2) b(1) rows this fit, of demo_stats no_globals] f(1,5) c
  show ?thesis by (auto simp: demo_stats_def)
qed

end
