(* ===== verification/Snapshot.thy ===== *)
theory Snapshot
  imports CommitProps
begin

unbundle bit_operations_syntax

text \<open>
  The snapshot read path of engine/f3/akifile/recovery.go: FindBarrier locates a cut in
  the stream and ReplayToBarrier replays the image below it.  Both are ReplayTail with a visitor; the
  variables their closures capture are the visitor's state.
\<close>

section \<open>FindBarrier and ReplayToBarrier\<close>

type_synonym cut = "BarrierHeader \<times> BarrierShard list \<times> u64"

definition bar_visit :: "u64 \<Rightarrow> (err option \<times> cut option) visitor" where
  "bar_visit wbar st off h payload =
    (if sh_Kind h \<noteq> KindBarrier then (st, None)
     else case ParseBarrierHeader payload of
       Inl _ \<Rightarrow> (st, None)
     | Inr bh \<Rightarrow>
         if bh_Wbar bh \<noteq> wbar then (st, None)
         else case BarrierShards payload bh of
           Inl _ \<Rightarrow> ((Some ErrBarrier, snd st), Some ErrStopScan)
         | Inr rows \<Rightarrow>
             if sh_GlobalSeq h \<noteq> bh_Wbar bh \<or> \<not> BarrierConsistent bh rows
             then ((Some ErrBarrier, snd st), Some ErrStopScan)
             else ((fst st, Some (bh, rows, off)), Some ErrStopScan))"

definition FindBarrier :: "device \<Rightarrow> Prefix \<Rightarrow> u64 \<Rightarrow> u64 \<Rightarrow> u64 \<Rightarrow> err + cut" where
  "FindBarrier dev prefix from sz wbar =
    (case ReplayTail dev prefix from sz (bar_visit wbar) (None, None) of
       (_, (bad, found), e) \<Rightarrow>
         (case bad of
            Some x \<Rightarrow> Inl x
          | None \<Rightarrow>
              if e \<noteq> None \<and> e \<noteq> Some ErrStopScan then Inl (the e)
              else (case found of None \<Rightarrow> Inl ErrNoBarrier | Some c \<Rightarrow> Inr c)))"

definition cut_visit :: "u64 \<Rightarrow> 's visitor \<Rightarrow> 's visitor" where
  "cut_visit wbar visit s off h payload =
    (if sh_GlobalSeq h > wbar then (s, Some ErrStopScan)
     else if sh_Kind h = KindBarrier then (s, None)
     else visit s off h payload)"

definition ReplayToBarrier ::
  "device \<Rightarrow> Prefix \<Rightarrow> u64 \<Rightarrow> u64 \<Rightarrow> u64 \<Rightarrow> 's visitor \<Rightarrow> 's \<Rightarrow> 's \<times> (err + BarrierHeader \<times> BarrierShard list)" where
  "ReplayToBarrier dev prefix from sz wbar visit s =
    (case FindBarrier dev prefix from sz wbar of
       Inl e \<Rightarrow> (s, Inl e)
     | Inr (hdr, shards, _) \<Rightarrow>
         (case ReplayTail dev prefix from sz (cut_visit wbar visit) s of
            (_, s', e) \<Rightarrow>
              if e \<noteq> None \<and> e \<noteq> Some ErrStopScan then (s', Inl (the e))
              else (s', Inr (hdr, shards))))"

section \<open>Visitors over a list of segments\<close>

lemma visit_all_skip:
  assumes "\<forall>(off, h, pl) \<in> set xs. \<forall>s. visit s off h pl = (s, None)"
  shows "visit_all visit s (xs @ ys) e = visit_all visit s ys e"
  using assms by (induction xs) auto

text \<open>The segments of the image: at or below the cut, the barriers themselves left out.\<close>

definition in_image :: "u64 \<Rightarrow> seg \<Rightarrow> bool" where
  "in_image wbar = (\<lambda>(off, h, pl). sh_GlobalSeq h \<le> wbar \<and> sh_Kind h \<noteq> KindBarrier)"

lemma in_image_above:
  assumes "sorted_wrt (<) (map seg_seq (x # ss))" "seg_seq x > wbar"
  shows "filter (in_image wbar) ss = []"
  using assms by (auto simp: filter_empty_conv in_image_def seg_seq_def)

lemma visit_all_cut:
  assumes "sorted_wrt (<) (map seg_seq ss)"
  shows "\<exists>c c' s' eo eo'. visit_all (cut_visit wbar visit) s ss e = (c, s', eo)
    \<and> visit_all visit s (filter (in_image wbar) ss) e = (c', s', eo')
    \<and> (case eo' of Some x \<Rightarrow> eo = Some x | None \<Rightarrow> eo = None \<or> eo = Some ErrStopScan)"
  using assms
proof (induction ss arbitrary: s)
  case Nil
  then show ?case by simp
next
  case (Cons x ss)
  obtain off h pl where x: "x = (off, h, pl)" by (cases x)
  note IH = Cons.IH [of _]
  have srt: "sorted_wrt (<) (map seg_seq ss)" using Cons.prems by simp
  show ?case
  proof (cases "sh_GlobalSeq h > wbar")
    case True
    then have "filter (in_image wbar) (x # ss) = []"
      using in_image_above [OF Cons.prems] by (auto simp: x in_image_def seg_seq_def)
    then show ?thesis using True by (simp add: x cut_visit_def)
  next
    case False
    show ?thesis
    proof (cases "sh_Kind h = KindBarrier")
      case True
      then show ?thesis using False Cons.IH [OF srt, of s] by (auto simp: x cut_visit_def in_image_def)
    next
      case nb: False
      obtain s2 eo where v: "visit s off h pl = (s2, eo)" by force
      show ?thesis using False nb v Cons.IH [OF srt, of s2]
        by (cases eo) (auto simp: x cut_visit_def in_image_def)
    qed
  qed
qed

lemma visit_all_end: "snd (visit_all visit s ss e) = snd (visit_all visit s ss e')"
  by (induction visit s ss e rule: visit_all.induct) (auto split: prod.splits option.splits)

lemma image_of_cut:
  assumes "sorted_wrt (<) (map seg_seq (ss @ b # ts))" "seg_seq b = wbar" "sh_Kind (fst (snd b)) = 9"
  shows "filter (in_image wbar) (ss @ b # ts) = filter (\<lambda>(o2, h2, pl). sh_Kind h2 \<noteq> 9) ss"
proof -
  have "\<forall>x \<in> set ss. seg_seq x < wbar" "\<forall>x \<in> set ts. wbar < seg_seq x"
    using assms(1,2) by (auto simp: sorted_wrt_append)
  then have "filter (in_image wbar) ss = filter (\<lambda>(o2, h2, pl). sh_Kind h2 \<noteq> 9) ss" "filter (in_image wbar) ts = []"
    by (auto simp: in_image_def seg_seq_def filter_empty_conv intro!: filter_cong intro: less_imp_le)
  moreover have "\<not> in_image wbar b" using assms(3) by (auto simp: in_image_def)
  ultimately show ?thesis by simp
qed

lemma ReplayToBarrier_image:
  assumes find: "FindBarrier d p from sz wbar = Inr (h, shards, off)"
    and rp: "ReplayTail d p from sz (cut_visit wbar visit) s = visit_all (cut_visit wbar visit) s ss e"
    and srt: "sorted_wrt (<) (map seg_seq ss)" and v: "visit_all visit s (filter (in_image wbar) ss) e2 = (c, s', eo)"
  shows "ReplayToBarrier d p from sz wbar visit s =
    (s', if eo \<noteq> None \<and> eo \<noteq> Some ErrStopScan then Inl (the eo) else Inr (h, shards))"
proof -
  from v have v': "snd (visit_all visit s (filter (in_image wbar) ss) e) = (s', eo)"
    using visit_all_end by (metis snd_conv)
  from visit_all_cut [OF srt, of wbar visit s e] obtain c1 c2 s2 eo1 eo2 where
    "visit_all (cut_visit wbar visit) s ss e = (c1, s2, eo1)"
    "visit_all visit s (filter (in_image wbar) ss) e = (c2, s2, eo2)"
    "case eo2 of Some x \<Rightarrow> eo1 = Some x | None \<Rightarrow> eo1 = None \<or> eo1 = Some ErrStopScan" by blast
  then show ?thesis using v' by (auto simp: ReplayToBarrier_def find rp split: option.splits)
qed

section \<open>The cut WriteBarrier makes\<close>

text \<open>Every barrier already in the stream names its own sequence, as WriteBarrier's do.\<close>

definition barriers_genuine :: "seg list \<Rightarrow> bool" where
  "barriers_genuine ss \<longleftrightarrow> (\<forall>(off, h, pl) \<in> set ss. \<forall>bh. sh_Kind h = KindBarrier
     \<longrightarrow> ParseBarrierHeader pl = Inr bh \<longrightarrow> bh_Wbar bh = sh_GlobalSeq h)"

definition barrier_payload :: "File \<Rightarrow> BarrierShard list \<Rightarrow> bytes" where
  "barrier_payload f shards = MarshalBarrier \<lparr>bh_Wbar = f_globalSeq f + 1, bh_ShardCount = of_nat (length shards)\<rparr> shards"

definition barrier_seg :: "File \<Rightarrow> BarrierShard list \<Rightarrow> seg" where
  "barrier_seg f shards = (f_cursor f, seg_hdr (f_globalSeq f + 1) (root_pending 9 (barrier_payload f shards)),
     barrier_payload f shards)"

lemma length_barrier_payload: "length (barrier_payload f shards) = 24 + length shards * 16"
proof -
  obtain hb where "length hb = 24" "barrier_payload f shards = hb @ concat (map (AppendBarrierShard []) shards)"
    unfolding barrier_payload_def using MarshalBarrier_split by blast
  then show ?thesis by (simp only: length_append barshard.length_concat_enc)
qed

lemma MarshalBarrier_parse:
  assumes "length shards * 16 \<le> maxAlloc" "h = \<lparr>bh_Wbar = w, bh_ShardCount = of_nat (length shards)\<rparr>"
  shows "ParseBarrierHeader (MarshalBarrier h shards) = Inr h" "BarrierShards (MarshalBarrier h shards) h = Inr shards"
proof -
  obtain hb where hb: "length hb = 24" "MarshalBarrier h shards = hb @ concat (map (AppendBarrierShard []) shards)"
      "\<And>r. ParseBarrierHeader (hb @ r) = Inr h"
    using MarshalBarrier_split by blast
  show "ParseBarrierHeader (MarshalBarrier h shards) = Inr h" using hb by simp
  show "BarrierShards (MarshalBarrier h shards) h = Inr shards"
    using barshard.counted_rows_at [of shards hb 24 16 "[]"] hb(1,2) assms by (simp add: BarrierShards_def)
qed

lemma last_seq_max:
  assumes "sorted_wrt (<) (map seg_seq ss)" "s \<in> set ss"
  shows "seg_seq s \<le> last_seq ss"
proof -
  from assms(2) have ne: "ss \<noteq> []" by auto
  then have "ss = butlast ss @ [last ss]" by simp
  then have "sorted_wrt (<) (map seg_seq (butlast ss) @ [seg_seq (last ss)])" using assms(1) by (metis map_append list.map)
  moreover have "s \<in> set (butlast ss) \<or> s = last ss" using assms(2) ne by (metis Un_iff append_butlast_last_id empty_iff empty_set set_append set_ConsD)
  ultimately show ?thesis using ne by (auto simp: last_seq_def sorted_wrt_append intro: less_imp_le)
qed

lemma WriteBarrier_ok:
  assumes inv: "file_inv f ss" and fit: "fits (f_cursor f) [root_pending 9 (barrier_payload f shards)]"
    and seq: "unat (f_globalSeq f) + 1 < 2 ^ 64"
    and run: "WriteBarrier f shards = (f1, Inr (off, wbar))"
  shows "file_inv f1 (ss @ [barrier_seg f shards])" "off = f_cursor f" "wbar = f_globalSeq f + 1"
    "BarrierConsistent \<lparr>bh_Wbar = wbar, bh_ShardCount = of_nat (length shards)\<rparr> shards"
    "f_cursor f1 = layout_end (f_cursor f) [root_pending 9 (barrier_payload f shards)]"
    "f_globalSeq f1 = f_globalSeq f + 1"
proof -
  let ?p = "root_pending 9 (barrier_payload f shards)"
  obtain offs where a: "AppendGroup f [?p] = (f1, offs, None)" "off = offs ! 0" "wbar = f_globalSeq f + 1"
      "BarrierConsistent \<lparr>bh_Wbar = wbar, bh_ShardCount = of_nat (length shards)\<rparr> shards"
    using run by (auto simp: WriteBarrier_def Let_def barrier_payload_def split: if_splits prod.splits option.splits)
  have "unat (f_globalSeq f) + length [?p] < 2 ^ 64" using seq by simp
  note i = AppendGroup_inv [OF inv fit this a(1)]
  show i1: "file_inv f1 (ss @ [barrier_seg f shards])" using i(1) by (simp add: barrier_seg_def root_pending_def)
  show "off = f_cursor f" using i(2) a(2) by simp
  show "f_cursor f1 = layout_end (f_cursor f) [?p]" by (rule i(3))
  show "f_globalSeq f1 = f_globalSeq f + 1"
    using i1 by (simp add: file_inv_def last_seq_def barrier_seg_def seg_seq_def seg_hdr_def pending_header_def)
  show "wbar = f_globalSeq f + 1" "BarrierConsistent \<lparr>bh_Wbar = wbar, bh_ShardCount = of_nat (length shards)\<rparr> shards"
    using a by simp_all
qed

lemma visit_barrier:
  assumes inv: "file_inv f ss" and seq: "unat (f_globalSeq f) + 1 < 2 ^ 64" and gen: "barriers_genuine ss"
    and n: "length shards * 16 \<le> maxAlloc"
    and con: "BarrierConsistent \<lparr>bh_Wbar = f_globalSeq f + 1, bh_ShardCount = of_nat (length shards)\<rparr> shards"
  shows "visit_all (bar_visit (f_globalSeq f + 1)) (None, None) (ss @ barrier_seg f shards # ts) e =
    (f_cursor f, (None, Some (\<lparr>bh_Wbar = f_globalSeq f + 1, bh_ShardCount = of_nat (length shards)\<rparr>, shards, f_cursor f)),
      Some ErrStopScan)"
proof -
  let ?w = "f_globalSeq f + 1"
  have lt: "seg_seq s < ?w" if "s \<in> set ss" for s
  proof -
    have "sorted_wrt (<) (map seg_seq ss)" "f_globalSeq f = last_seq ss" using inv by (auto simp: file_inv_def)
    then have "seg_seq s \<le> f_globalSeq f" using last_seq_max that by metis
    moreover have "unat ?w = unat (f_globalSeq f) + 1" using seq by (subst unat_add_lem [THEN iffD1]) simp_all
    ultimately show ?thesis by (simp add: word_less_nat_alt word_le_nat_alt)
  qed
  have "\<forall>(off, h, pl) \<in> set ss. \<forall>st. bar_visit ?w st off h pl = (st, None)"
  proof (clarify)
    fix off h pl bad found assume s: "(off, h, pl) \<in> set ss"
    have "bh_Wbar bh \<noteq> ?w" if "sh_Kind h = 9" "ParseBarrierHeader pl = Inr bh" for bh
      using gen s that lt [OF s] by (fastforce simp: barriers_genuine_def seg_seq_def)
    then show "bar_visit ?w (bad, found) off h pl = ((bad, found), None)"
      by (auto simp: bar_visit_def split: sum.splits)
  qed
  note sk = visit_all_skip [OF this, of _ "barrier_seg f shards # ts"]
  note mb = MarshalBarrier_parse [OF n refl, of ?w]
  show ?thesis
    unfolding sk using mb con
    by (simp add: barrier_seg_def barrier_payload_def bar_visit_def seg_hdr_def pending_header_def root_pending_def)
qed

text \<open>
  C7. A snapshot is an exact cut.  After WriteBarrier has returned (off, wbar), and
  whatever another group appends behind it, torn or not, FindBarrier finds the barrier at off with
  the recorded shard tails, and ReplayToBarrier runs the visitor over exactly the data segments the file
  held when the barrier was written, in file order.
\<close>

theorem snapshot_cut_exact:
  assumes inv: "file_inv f ss" and gen: "barriers_genuine ss"
    and fit: "fits (f_cursor f) (root_pending KindBarrier (barrier_payload f shards) # ps)"
    and seq: "unat (f_globalSeq f) + 1 + length ps < 2 ^ 64"
    and cut: "WriteBarrier f shards = (f1, Inr (off, wbar))"
    and more: "AppendGroup f1 ps = (g, offs, eo)"
  shows "let d = f_dev g; p = f_prefix g; sz = of_nat (Size (f_dev g)); h = \<lparr>bh_Wbar = wbar, bh_ShardCount = of_nat (length shards)\<rparr>
    in wbar = f_globalSeq f + 1 \<and> FindBarrier d p PageSize sz wbar = Inr (h, shards, off)
     \<and> (case visit_all visit s (filter (\<lambda>(o2, h2, pl). sh_Kind h2 \<noteq> KindBarrier) ss) (f_cursor f) of (c, s', e) \<Rightarrow>
          ReplayToBarrier d p PageSize sz wbar visit s =
            (s', if e \<noteq> None \<and> e \<noteq> Some ErrStopScan then Inl (the e) else Inr (h, shards)))"
proof -
  let ?p = "root_pending 9 (barrier_payload f shards)"
  have fit1: "fits (f_cursor f) [?p]" using fit by (simp add: fits_def)
  have n: "length shards * 16 \<le> maxAlloc"
    using fit length_barrier_payload [of f shards] by (simp add: fits_def root_pending_def)
  have seq1: "unat (f_globalSeq f) + 1 < 2 ^ 64" using seq by simp
  note w = WriteBarrier_ok [OF inv fit1 seq1 cut]
  have fit2: "fits (f_cursor f1) ps" using fits_Cons(2) [OF fit] w(5) by simp
  have u1: "unat (f_globalSeq f + 1) = unat (f_globalSeq f) + 1"
    using seq1 by (subst unat_add_lem [THEN iffD1]) simp_all
  have seq2: "unat (f_globalSeq f1) + length ps < 2 ^ 64" using w(6) u1 seq by simp
  from AppendGroup_holds [OF w(1) fit2 more] obtain m where
    hd: "holds (f_dev g) (f_prefix f1) (f_commitSeq f1) (f_liveSlot f1)
      ((ss @ [barrier_seg f shards]) @ take m (layout (f_cursor f1) (f_globalSeq f1) ps)) (layout_end (f_cursor f1) (take m ps))"
    by blast
  have pg: "f_prefix g = f_prefix f1" using AppendGroup_crash [OF w(1) fit2 more] by (auto simp: same_file_def)
  let ?ts = "take m (layout (f_cursor f1) (f_globalSeq f1) ps)"
  let ?all = "ss @ barrier_seg f shards # ?ts" and ?e = "layout_end (f_cursor f1) (take m ps)"
  have rp: "ReplayTail (f_dev g) (f_prefix g) 16384 (of_nat (Size (f_dev g))) v st = visit_all v st ?all ?e"
    for v :: "'b visitor" and st using holds_replay [OF hd] by (simp add: pg)
  have rp2: "ReplayTail (f_dev g) (f_prefix g) 16384 (of_nat (Size (f_dev g))) v st = visit_all v st ?all ?e"
    for v :: "(err option \<times> cut option) visitor" and st using holds_replay [OF hd] by (simp add: pg)
  have srt: "sorted_wrt (<) (map seg_seq ?all)" using layout_seqs_sorted [OF w(1) seq2, of m] by simp
  note vb = visit_barrier [OF inv seq1 gen n w(4) [unfolded w(3)]]
  have find: "FindBarrier (f_dev g) (f_prefix g) 16384 (of_nat (Size (f_dev g))) wbar
      = Inr (\<lparr>bh_Wbar = wbar, bh_ShardCount = of_nat (length shards)\<rparr>, shards, off)"
    unfolding FindBarrier_def rp2 by (simp add: vb w(2,3))
  have img: "filter (in_image wbar) ?all = filter (\<lambda>(o2, h2, pl). sh_Kind h2 \<noteq> 9) ss"
    by (rule image_of_cut [OF srt]) (simp_all add: w(3) barrier_seg_def seg_seq_def seg_hdr_def pending_header_def root_pending_def)
  obtain c s' e where v: "visit_all visit s (filter (\<lambda>(o2, h2, pl). sh_Kind h2 \<noteq> 9) ss) (f_cursor f) = (c, s', e)"
    by (cases "visit_all visit s (filter (\<lambda>(o2, h2, pl). sh_Kind h2 \<noteq> 9) ss) (f_cursor f)") auto
  note ReplayToBarrier_image [OF find rp srt v [folded img]]
  then show ?thesis using find v w(3) by (simp add: Let_def)
qed

theorem snapshot_cut_exact_witness:
  "\<exists>f f1 g offs eo. CreateOnDevice demo_dev demo_opts = Inr f \<and> WriteBarrier f [] = (f1, Inr (16384, 1))
     \<and> AppendGroup f1 [demo_pending] = (g, offs, eo)
     \<and> FindBarrier (f_dev g) (f_prefix g) PageSize (of_nat (Size (f_dev g))) 1
         = Inr (\<lparr>bh_Wbar = 1, bh_ShardCount = 0\<rparr>, [], 16384)"
proof -
  obtain f where f: "CreateOnDevice demo_dev demo_opts = Inr f" "healthy (f_dev f)" "file_inv f []"
    "f_cursor f = 16384" "f_globalSeq f = 0" by (rule demo_file)
  let ?p = "root_pending 9 (barrier_payload f [])"
  have len: "length (barrier_payload f []) = 24"
    by (simp add: barrier_payload_def MarshalBarrier_def AppendBarrierHeader_def Let_def int_layout_defs)
  have fit: "fits (f_cursor f) [?p]" "fits (f_cursor f) (?p # [demo_pending])"
    using len f(4) by (simp_all add: fits_def root_pending_def demo_pending_def span_def maxAlloc_def)
  from AppendGroup_healthy [OF file_inv_kind [OF f(3)] f(2) fit(1)] obtain f1 offs where
    a: "AppendGroup f [?p] = (f1, offs, None)" by blast
  have "unat (f_globalSeq f) + length [?p] < 2 ^ 64" using f(5) by simp
  from AppendGroup_inv(2) [OF f(3) fit(1) this a] have "offs = [16384]" using f(4) by simp
  with a f(5) have wb: "WriteBarrier f [] = (f1, Inr (16384, 1))"
    by (simp add: WriteBarrier_def Let_def barrier_payload_def)
  obtain g offs2 eo where m: "AppendGroup f1 [demo_pending] = (g, offs2, eo)"
    by (cases "AppendGroup f1 [demo_pending]") auto
  have "barriers_genuine []" by (simp add: barriers_genuine_def)
  from snapshot_cut_exact [OF f(3) this fit(2) _ wb m, where visit = seq_visit and s = 0] f(1,5) wb m show ?thesis by (auto simp: Let_def)
qed

end
