(* ===== verification/Chains.thy ===== *)
theory Chains
  imports Replay "HOL-Library.AList"
begin

unbundle bit_operations_syntax

text \<open>
  The checkpoint chains of engine/f3/akifile/recovery.go.  RebuildShardIndex,
  RebuildShardSegStats and RebuildShardChunkDir walk from the newest checkpoint back to its
  base and apply the payloads oldest first; they differ in the segment kind, the header
  parser, the error and the table.  walk_chain and apply_all are the two loops; the locale
  chain_rebuild states what a table owes them and proves that the rebuilt table is the state
  the newest checkpoint describes.
\<close>

section \<open>The loops\<close>

text \<open>
  The body of the backward walk: read the segment, check its kind, parse the checkpoint
  header, and say whether the chain ends here and which base it names.
\<close>

definition chain_link ::
  "device \<Rightarrow> u32 \<Rightarrow> u16 \<Rightarrow> err \<Rightarrow> (bytes \<Rightarrow> err + bool \<times> u64) \<Rightarrow> u64 \<Rightarrow> err + bytes \<times> bool \<times> u64" where
  "chain_link dev ckind segkind bad plink off =
    bindE (readSegmentAt dev ckind off) (\<lambda>(h, payload).
    if sh_Kind h \<noteq> segkind then Inl bad
    else bindE (plink payload) (\<lambda>(full, base). Inr (payload, full \<or> base = 0, base)))"

text \<open>The seen set bounds the walk: a back-pointer to a segment of the chain is the error bad.\<close>

function walk_chain ::
  "(u64 \<Rightarrow> err + bytes \<times> bool \<times> u64) \<Rightarrow> err \<Rightarrow> u64 list \<Rightarrow> bytes list \<Rightarrow> u64 \<Rightarrow> err + bytes list" where
  "walk_chain link bad seen chain off =
    (if off \<in> set seen then Inl bad
     else case link off of
       Inl e \<Rightarrow> Inl e
     | Inr (payload, stop, base) \<Rightarrow>
         if stop then Inr (chain @ [payload])
         else walk_chain link bad (off # seen) (chain @ [payload]) base)"
  by pat_completeness auto
termination
proof (relation "measure (\<lambda>(link, bad, seen, chain, off). card (UNIV - set seen))", goal_cases)
  case 1
  then show ?case by simp
next
  case (2 link bad seen chain off x payload y stop base)
  then have "UNIV - set (off # seen) \<subset> UNIV - set seen" by auto
  then show ?case by (simp add: psubset_card_mono)
qed

declare walk_chain.simps [simp del]

fun apply_all :: "('r \<Rightarrow> bytes \<Rightarrow> err + 'h \<times> 'r) \<Rightarrow> 'r \<Rightarrow> bytes list \<Rightarrow> err + 'r" where
  "apply_all app r [] = Inr r"
| "apply_all app r (payload # ps) = bindE (app r payload) (\<lambda>(h, r). apply_all app r ps)"

text \<open>
  Layering a list of entries over a table (a Go map, kept as an association list with
  distinct keys): in a delta a flagged entry deletes its key, every other entry overwrites.
\<close>

fun layer :: "('v \<Rightarrow> u64) \<Rightarrow> ('v \<Rightarrow> bool) \<Rightarrow> bool \<Rightarrow> (u64 \<times> 'v) list \<Rightarrow> 'v list \<Rightarrow> (u64 \<times> 'v) list" where
  "layer key tomb delta m [] = m"
| "layer key tomb delta m (e # es) =
    (if delta \<and> tomb e then layer key tomb delta (AList.delete (key e) m) es
     else layer key tomb delta (AList.update (key e) e m) es)"

section \<open>What a chain means\<close>

definition apply_delta :: "('v \<Rightarrow> u64) \<Rightarrow> ('v \<Rightarrow> bool) \<Rightarrow> 'v list \<Rightarrow> (u64 \<rightharpoonup> 'v) \<Rightarrow> (u64 \<rightharpoonup> 'v)" where
  "apply_delta key tomb es m = fold (\<lambda>e m. if tomb e then m(key e := None) else m(key e \<mapsto> e)) es m"

lemma map_of_layer:
  "map_of (layer key tomb delta m es) = apply_delta key (\<lambda>e. delta \<and> tomb e) es (map_of m)"
  by (induction key tomb delta m es rule: layer.induct)
    (simp_all add: apply_delta_def update_conv' delete_conv' fun_upd_def)

lemma distinct_layer: "distinct (map fst m) \<Longrightarrow> distinct (map fst (layer key tomb delta m es))"
  by (induction key tomb delta m es rule: layer.induct) (simp_all add: distinct_update distinct_delete)

text \<open>
  The state a chain of checkpoints describes, oldest first: a full one starts over, a delta
  layers its entries and drops the flagged ones.
\<close>

definition denote ::
  "('c \<Rightarrow> bool) \<Rightarrow> ('c \<Rightarrow> 'v list) \<Rightarrow> ('v \<Rightarrow> u64) \<Rightarrow> ('v \<Rightarrow> bool) \<Rightarrow> 'c list \<Rightarrow> (u64 \<rightharpoonup> 'v) \<Rightarrow> (u64 \<rightharpoonup> 'v)" where
  "denote full ents key tomb cs m =
    fold (\<lambda>c m. apply_delta key (\<lambda>e. \<not> full c \<and> tomb e) (ents c) (if full c then Map.empty else m)) cs m"

text \<open>
  A chain of checkpoint segments, newest first: each delta names the offset of the next one, and the last
  either is full or names no base.  links_to is the same for deltas only, the last one naming b.
\<close>

fun chain_on ::
  "('c \<Rightarrow> bytes) \<Rightarrow> ('c \<Rightarrow> bool) \<Rightarrow> ('c \<Rightarrow> bool) \<Rightarrow> ('c \<Rightarrow> u64) \<Rightarrow> (u64 \<Rightarrow> err + SegHeader \<times> bytes) \<Rightarrow> u16
    \<Rightarrow> (u64 \<times> 'c) list \<Rightarrow> bool" where
  "chain_on img ok full base rd segkind [] = False"
| "chain_on img ok full base rd segkind [(off, c)] =
    (ok c \<and> (full c \<or> base c = 0) \<and> (\<exists>h. rd off = Inr (h, img c) \<and> sh_Kind h = segkind))"
| "chain_on img ok full base rd segkind ((off, c) # (off2, c2) # cs) =
    (ok c \<and> \<not> full c \<and> base c = off2 \<and> base c \<noteq> 0 \<and> (\<exists>h. rd off = Inr (h, img c) \<and> sh_Kind h = segkind)
     \<and> chain_on img ok full base rd segkind ((off2, c2) # cs))"

fun links_to ::
  "('c \<Rightarrow> bytes) \<Rightarrow> ('c \<Rightarrow> bool) \<Rightarrow> ('c \<Rightarrow> bool) \<Rightarrow> ('c \<Rightarrow> u64) \<Rightarrow> (u64 \<Rightarrow> err + SegHeader \<times> bytes) \<Rightarrow> u16
    \<Rightarrow> (u64 \<times> 'c) list \<Rightarrow> u64 \<Rightarrow> bool" where
  "links_to img ok full base rd segkind [] b = True"
| "links_to img ok full base rd segkind ((off, c) # cs) b =
    (ok c \<and> \<not> full c \<and> base c \<noteq> 0 \<and> base c = (if cs = [] then b else fst (hd cs))
     \<and> (\<exists>h. rd off = Inr (h, img c) \<and> sh_Kind h = segkind) \<and> links_to img ok full base rd segkind cs b)"

lemma chain_on_mono:
  assumes "chain_on img ok full base rd k cs" "\<And>off h pl. rd off = Inr (h, pl) \<Longrightarrow> rd2 off = Inr (h, pl)"
  shows "chain_on img ok full base rd2 k cs"
  using assms by (induction img ok full base rd k cs rule: chain_on.induct) auto

text \<open>The segments of a log as the source of a chain, and a root that is absent or heads one.\<close>

definition in_log :: "seg list \<Rightarrow> u64 \<Rightarrow> err + SegHeader \<times> bytes" where
  "in_log ss off = (case map_of ss off of None \<Rightarrow> Inl EOF | Some x \<Rightarrow> Inr x)"

definition heads :: "('c \<Rightarrow> bytes) \<Rightarrow> ('c \<Rightarrow> bool) \<Rightarrow> ('c \<Rightarrow> bool) \<Rightarrow> ('c \<Rightarrow> u64) \<Rightarrow> seg list \<Rightarrow> u16
    \<Rightarrow> u64 \<Rightarrow> (u64 \<times> 'c) list \<Rightarrow> bool" where
  "heads img ok full base ss k off cs \<longleftrightarrow>
     (if off = 0 then cs = []
      else chain_on img ok full base (in_log ss) k cs \<and> distinct (map fst cs) \<and> fst (hd cs) = off)"

locale chain_rebuild =
  fixes image :: "'c \<Rightarrow> bytes" and ok :: "'c \<Rightarrow> bool" and full :: "'c \<Rightarrow> bool" and base :: "'c \<Rightarrow> u64"
    and ents :: "'c \<Rightarrow> 'v list" and key :: "'v \<Rightarrow> u64" and tomb :: "'v \<Rightarrow> bool"
    and plink :: "bytes \<Rightarrow> err + bool \<times> u64"
    and app :: "'r \<Rightarrow> bytes \<Rightarrow> err + 'h \<times> 'r" and view :: "'r \<Rightarrow> (u64 \<rightharpoonup> 'v)" and pos :: "'r \<Rightarrow> u64" and logpos :: "'c \<Rightarrow> u64"
    and fresh :: 'r
  assumes view_fresh: "view fresh = Map.empty"
    and plink_image: "ok c \<Longrightarrow> plink (image c) = Inr (full c, base c)"
    and app_image: "ok c \<Longrightarrow> \<exists>h r'. app r (image c) = Inr (h, r') \<and> pos r' = logpos c
      \<and> view r' = apply_delta key (\<lambda>e. \<not> full c \<and> tomb e) (ents c) (if full c then Map.empty else view r)"
begin

lemma apply_all_images:
  assumes "\<forall>c \<in> set cs. ok c"
  shows "\<exists>r'. apply_all app r (map image cs) = Inr r' \<and> view r' = denote full ents key tomb cs (view r)
    \<and> (cs \<noteq> [] \<longrightarrow> pos r' = logpos (last cs))"
  using assms
proof (induction cs arbitrary: r)
  case Nil
  then show ?case by (simp add: denote_def)
next
  case (Cons c cs)
  then obtain h r1 where a: "app r (image c) = Inr (h, r1)" "pos r1 = logpos c"
      "view r1 = apply_delta key (\<lambda>e. \<not> full c \<and> tomb e) (ents c) (if full c then Map.empty else view r)"
    using app_image [of c r] by auto
  with Cons.IH [of r1] Cons.prems obtain r' where
    "apply_all app r1 (map image cs) = Inr r'" "view r' = denote full ents key tomb cs (view r1)" "cs \<noteq> [] \<longrightarrow> pos r' = logpos (last cs)"
    by auto
  with a show ?case by (cases "cs = []") (auto simp: denote_def)
qed

lemma chain_ok: "chain_on image ok full base rd k cs \<Longrightarrow> (off, c) \<in> set cs \<Longrightarrow> ok c"
  by (induction image ok full base rd k cs rule: chain_on.induct) auto

lemma walk_chain_on:
  assumes "chain_on image ok full base (readSegmentAt dev ckind) k ((off, c) # cs)" "distinct (map fst ((off, c) # cs))"
    and "set (map fst ((off, c) # cs)) \<inter> set seen = {}"
  shows "walk_chain (chain_link dev ckind k bad plink) bad seen chain off = Inr (chain @ map (image \<circ> snd) ((off, c) # cs))"
  using assms
proof (induction cs arbitrary: off c seen chain)
  case Nil
  then show ?case by (subst walk_chain.simps) (auto simp: chain_link_def plink_image)
next
  case (Cons x cs)
  obtain off2 c2 where x: "x = (off2, c2)" by (cases x)
  with Cons.prems have "chain_on image ok full base (readSegmentAt dev ckind) k ((off2, c2) # cs)" by simp
  from Cons.IH [OF this, of "off # seen" "chain @ [image c]"] Cons.prems x
  have "walk_chain (chain_link dev ckind k bad plink) bad (off # seen) (chain @ [image c]) off2
      = Inr ((chain @ [image c]) @ map (image \<circ> snd) ((off2, c2) # cs))" by auto
  then show ?case using Cons.prems x
    by (subst walk_chain.simps) (auto simp: chain_link_def plink_image)
qed

lemma walk_chain_cycle:
  assumes "links_to image ok full base (readSegmentAt dev ckind) k cs b" "cs \<noteq> []" "b \<in> set (map fst cs) \<union> set seen"
    and "distinct (map fst cs)" "set (map fst cs) \<inter> set seen = {}"
  shows "walk_chain (chain_link dev ckind k bad plink) bad seen chain (fst (hd cs)) = Inl bad"
  using assms
proof (induction cs arbitrary: seen chain)
  case Nil
  then show ?case by simp
next
  case (Cons x cs)
  obtain off c where x: "x = (off, c)" by (cases x)
  obtain h where h: "readSegmentAt dev ckind off = Inr (h, image c)" "sh_Kind h = k" "ok c" "\<not> full c" "base c \<noteq> 0"
    using Cons.prems(1) x by auto
  have step: "walk_chain (chain_link dev ckind k bad plink) bad seen chain off
      = walk_chain (chain_link dev ckind k bad plink) bad (off # seen) (chain @ [image c]) (base c)"
    using h Cons.prems(5) x by (subst walk_chain.simps) (simp add: chain_link_def plink_image)
  show ?case
  proof (cases "cs = []")
    case True
    then have "base c = b" "b \<in> set (off # seen)" using Cons.prems(1,3) x by auto
    then show ?thesis using step x by (subst (asm) (2) walk_chain.simps) simp
  next
    case False
    then have "walk_chain (chain_link dev ckind k bad plink) bad (off # seen) (chain @ [image c]) (fst (hd cs)) = Inl bad"
      using Cons.prems x by (intro Cons.IH) auto
    then show ?thesis using step x False Cons.prems(1) by simp
  qed
qed

lemma rebuild_chain:
  assumes "chain_on image ok full base (readSegmentAt dev ckind) k ((off, c) # cs)" "distinct (map fst ((off, c) # cs))"
  shows "\<exists>r'. bindE (walk_chain (chain_link dev ckind k bad plink) bad [] [] off) (\<lambda>ch. apply_all app fresh (rev ch)) = Inr r'
    \<and> view r' = denote full ents key tomb (rev (map snd ((off, c) # cs))) Map.empty \<and> pos r' = logpos c"
proof -
  have ok: "\<forall>c' \<in> set (rev (map snd ((off, c) # cs))). ok c'"
  proof
    fix c' assume "c' \<in> set (rev (map snd ((off, c) # cs)))"
    then obtain o' where "(o', c') \<in> set ((off, c) # cs)" by force
    then show "ok c'" by (rule chain_ok [OF assms(1)])
  qed
  have r: "rev (map (image \<circ> snd) ((off, c) # cs)) = map image (rev (map snd ((off, c) # cs)))"
    by (simp add: rev_map)
  from apply_all_images [OF ok, of fresh] show ?thesis
    using walk_chain_on [OF assms, of "[]" bad "[]"] r by (auto simp: view_fresh)
qed

lemma rebuild_heads:
  assumes "heads image ok full base ss k off cs"
    and "\<And>o2 h pl. in_log ss o2 = Inr (h, pl) \<Longrightarrow> readSegmentAt dev ckind o2 = Inr (h, pl)"
  shows "\<exists>r'. (if off = 0 then Inr fresh
         else bindE (walk_chain (chain_link dev ckind k bad plink) bad [] [] off) (\<lambda>ch. apply_all app fresh (rev ch))) = Inr r'
    \<and> view r' = denote full ents key tomb (rev (map snd cs)) Map.empty
    \<and> (cs \<noteq> [] \<longrightarrow> pos r' = logpos (snd (hd cs)))"
proof (cases "off = 0")
  case True
  then show ?thesis using assms(1) by (simp add: heads_def denote_def view_fresh)
next
  case False
  with assms(1) have h: "chain_on image ok full base (in_log ss) k cs" "distinct (map fst cs)" "fst (hd cs) = off"
    by (auto simp: heads_def)
  from h(1,3) obtain c rest where c: "cs = (off, c) # rest" by (cases cs) (auto simp: prod_eq_iff)
  have "chain_on image ok full base (readSegmentAt dev ckind) k ((off, c) # rest)"
    using chain_on_mono [OF h(1) assms(2)] c by simp
  from rebuild_chain [OF this] h(2) c False show ?thesis by auto
qed

end

end
