(* ===== verification/Recovery.thy ===== *)
theory Recovery
  imports Chains Checkpoints KvTtl Commit
begin

unbundle bit_operations_syntax

text \<open>
  The recovery driver of engine/f3/akifile/recovery.go: the three rebuilders and their
  chains, the readers of the file-global roots, Recover, CrossCheck and DeadByteAudit.
\<close>

section \<open>IndexRebuilder\<close>

record IndexRebuilder =
  ir_entries :: "(u64 \<times> CkptEntry) list"
  ir_LogPos :: u64
  ir_SeqHigh :: u64

definition NewIndexRebuilder :: IndexRebuilder where
  "NewIndexRebuilder = \<lparr>ir_entries = [], ir_LogPos = 0, ir_SeqHigh = 0\<rparr>"

definition ckpt_tomb :: "CkptEntry \<Rightarrow> bool" where
  "ckpt_tomb e \<longleftrightarrow> ce_Flags e AND CkptTombstone \<noteq> 0"

definition IndexRebuilder_Apply :: "IndexRebuilder \<Rightarrow> bytes \<Rightarrow> err + CkptHeader \<times> IndexRebuilder" where
  "IndexRebuilder_Apply r payload =
    bindE (ParseCkptHeader payload) (\<lambda>h.
    bindE (CkptEntries payload h) (\<lambda>entries.
      let m = (if ck_FullOrDelta h = CkptFull then [] else ir_entries r);
          m = layer ce_KeyHash ckpt_tomb (ck_FullOrDelta h = CkptDelta) m entries
      in Inr (h, \<lparr>ir_entries = m, ir_LogPos = ck_CkptLogPos h, ir_SeqHigh = ck_SeqHigh h\<rparr>)))"

definition IndexRebuilder_Len :: "IndexRebuilder \<Rightarrow> nat" where
  "IndexRebuilder_Len r = length (ir_entries r)"

definition index_link :: "bytes \<Rightarrow> err + bool \<times> u64" where
  "index_link payload =
    bindE (ParseCkptHeader payload) (\<lambda>ch. Inr (ck_FullOrDelta ch = CkptFull, ck_BaseCkptOff ch))"

definition RebuildShardIndex :: "device \<Rightarrow> Prefix \<Rightarrow> u64 \<Rightarrow> err + IndexRebuilder" where
  "RebuildShardIndex dev prefix indexCkptOff =
    (if indexCkptOff = 0 then Inr NewIndexRebuilder
     else bindE (walk_chain (chain_link dev (p_ChecksumKind prefix) KindIndexCkpt ErrCheckpoint index_link)
                   ErrCheckpoint [] [] indexCkptOff) (\<lambda>chain.
       apply_all IndexRebuilder_Apply NewIndexRebuilder (rev chain)))"

section \<open>SegStatsRebuilder\<close>

record SegStatsRebuilder =
  sb_entries :: "(u64 \<times> SegStatsEntry) list"
  sb_LogPos :: u64

definition NewSegStatsRebuilder :: SegStatsRebuilder where
  "NewSegStatsRebuilder = \<lparr>sb_entries = [], sb_LogPos = 0\<rparr>"

definition segstats_freed :: "SegStatsEntry \<Rightarrow> bool" where
  "segstats_freed e \<longleftrightarrow> se_Flags e AND SegStatsFreed \<noteq> 0"

definition SegStatsRebuilder_Apply :: "SegStatsRebuilder \<Rightarrow> bytes \<Rightarrow> err + SegStatsHeader \<times> SegStatsRebuilder" where
  "SegStatsRebuilder_Apply r payload =
    bindE (ParseSegStatsHeader payload) (\<lambda>h.
    bindE (SegStatsEntries payload h) (\<lambda>entries.
      let m = (if ss_FullOrDelta h = SegStatsFull then [] else sb_entries r);
          m = layer se_SegOff segstats_freed (ss_FullOrDelta h = SegStatsDelta) m entries
      in Inr (h, \<lparr>sb_entries = m, sb_LogPos = ss_CkptLogPos h\<rparr>)))"

definition SegStatsRebuilder_Len :: "SegStatsRebuilder \<Rightarrow> nat" where
  "SegStatsRebuilder_Len r = length (sb_entries r)"

fun total :: "('v \<Rightarrow> u64) \<Rightarrow> u64 \<Rightarrow> (u64 \<times> 'v) list \<Rightarrow> u64" where
  "total val n [] = n"
| "total val n ((k, e) # m) = total val (n + val e) m"

definition TotalDeadBytes :: "SegStatsRebuilder \<Rightarrow> u64" where
  "TotalDeadBytes r = total se_DeadBytes 0 (sb_entries r)"

definition TotalLiveBytes :: "SegStatsRebuilder \<Rightarrow> u64" where
  "TotalLiveBytes r = total se_LiveBytes 0 (sb_entries r)"

definition segstats_link :: "bytes \<Rightarrow> err + bool \<times> u64" where
  "segstats_link payload =
    bindE (ParseSegStatsHeader payload) (\<lambda>sh. Inr (ss_FullOrDelta sh = SegStatsFull, ss_BaseCkptOff sh))"

definition RebuildShardSegStats :: "device \<Rightarrow> Prefix \<Rightarrow> u64 \<Rightarrow> err + SegStatsRebuilder" where
  "RebuildShardSegStats dev prefix segStatsOff =
    (if segStatsOff = 0 then Inr NewSegStatsRebuilder
     else bindE (walk_chain (chain_link dev (p_ChecksumKind prefix) KindSegStats ErrSegStats segstats_link)
                   ErrSegStats [] [] segStatsOff) (\<lambda>chain.
       apply_all SegStatsRebuilder_Apply NewSegStatsRebuilder (rev chain)))"

section \<open>ChunkDirRebuilder\<close>

record ChunkDirRebuilder =
  cb_collections :: "(u64 \<times> ChunkDirCollection) list"
  cb_LogPos :: u64

definition NewChunkDirRebuilder :: ChunkDirRebuilder where
  "NewChunkDirRebuilder = \<lparr>cb_collections = [], cb_LogPos = 0\<rparr>"

definition chunkdir_tomb :: "ChunkDirCollection \<Rightarrow> bool" where
  "chunkdir_tomb c \<longleftrightarrow> cc_Flags c AND ChunkDirTombstone \<noteq> 0"

definition ChunkDirRebuilder_Apply :: "ChunkDirRebuilder \<Rightarrow> bytes \<Rightarrow> err + ChunkDirHeader \<times> ChunkDirRebuilder" where
  "ChunkDirRebuilder_Apply r payload =
    bindE (ParseChunkDirHeader payload) (\<lambda>h.
    bindE (ChunkDirCollections payload h) (\<lambda>cols.
      let m = (if ch_FullOrDelta h = ChunkDirFull then [] else cb_collections r);
          m = layer cc_KeyHash chunkdir_tomb (ch_FullOrDelta h = ChunkDirDelta) m cols
      in Inr (h, \<lparr>cb_collections = m, cb_LogPos = ch_CkptLogPos h\<rparr>)))"

definition ChunkDirRebuilder_Len :: "ChunkDirRebuilder \<Rightarrow> nat" where
  "ChunkDirRebuilder_Len r = length (cb_collections r)"

fun chunks_total :: "u64 \<Rightarrow> ChunkDirRow list \<Rightarrow> u64" where
  "chunks_total n [] = n"
| "chunks_total n (r # rs) = chunks_total (n + cr_ChunkLiveBytes r) rs"

fun collections_total :: "u64 \<Rightarrow> (u64 \<times> ChunkDirCollection) list \<Rightarrow> u64" where
  "collections_total n [] = n"
| "collections_total n ((k, c) # m) = collections_total (chunks_total n (cc_Chunks c)) m"

definition ChunkDir_TotalLiveBytes :: "ChunkDirRebuilder \<Rightarrow> u64" where
  "ChunkDir_TotalLiveBytes r = collections_total 0 (cb_collections r)"

definition chunkdir_link :: "bytes \<Rightarrow> err + bool \<times> u64" where
  "chunkdir_link payload =
    bindE (ParseChunkDirHeader payload) (\<lambda>ch. Inr (ch_FullOrDelta ch = ChunkDirFull, ch_BaseCkptOff ch))"

definition RebuildShardChunkDir :: "device \<Rightarrow> Prefix \<Rightarrow> u64 \<Rightarrow> err + ChunkDirRebuilder" where
  "RebuildShardChunkDir dev prefix chunkdirOff =
    (if chunkdirOff = 0 then Inr NewChunkDirRebuilder
     else bindE (walk_chain (chain_link dev (p_ChecksumKind prefix) KindChunkDir ErrChunkDir chunkdir_link)
                   ErrChunkDir [] [] chunkdirOff) (\<lambda>chain.
       apply_all ChunkDirRebuilder_Apply NewChunkDirRebuilder (rev chain)))"

section \<open>The file-global roots\<close>

definition ReadTTLIndex :: "device \<Rightarrow> MetaSlot option \<Rightarrow> err + TTLClass list" where
  "ReadTTLIndex dev meta =
    (case meta of
       None \<Rightarrow> Inr []
     | Some meta \<Rightarrow>
         if m_TTLIndexLen meta = 0 then Inr []
         else bindE (read_full dev (m_TTLIndexOff meta) (unat (m_TTLIndexLen meta))) (\<lambda>buf.
           bindE (ParseTTLIndexHeader buf) (\<lambda>h. TTLClasses buf h)))"

definition ReadFreeMap :: "device \<Rightarrow> Prefix \<Rightarrow> MetaSlot option \<Rightarrow> err + FreeExtent list" where
  "ReadFreeMap dev prefix meta =
    (case meta of
       None \<Rightarrow> Inr []
     | Some meta \<Rightarrow>
         if m_FreeMapOff meta = 0 then Inr []
         else bindE (readSegmentAt dev (p_ChecksumKind prefix) (m_FreeMapOff meta)) (\<lambda>(h, payload).
           if sh_Kind h \<noteq> KindFreeMap then Inl ErrMagic
           else bindE (ParseFreeMapHeader payload) (\<lambda>fh. FreeExtents payload fh)))"

definition ReadMetaKV :: "device \<Rightarrow> Prefix \<Rightarrow> MetaSlot option \<Rightarrow> err + MetaKVPair list" where
  "ReadMetaKV dev prefix meta =
    (case meta of
       None \<Rightarrow> Inr []
     | Some meta \<Rightarrow>
         if m_MetaKVOff meta = 0 then Inr []
         else bindE (readSegmentAt dev (p_ChecksumKind prefix) (m_MetaKVOff meta)) (\<lambda>(h, payload).
           if sh_Kind h \<noteq> KindMetaKV then Inl ErrMagic
           else bindE (ParseMetaKVHeader payload) (\<lambda>mh. MetaKVPairs payload mh)))"

section \<open>Recover\<close>

text \<open>A nil slice of the Go struct is the empty list here.\<close>

record Recovery =
  re_State :: OpenState
  re_SRT :: "SRT option"
  re_Indexes :: "IndexRebuilder list"
  re_SegStats :: "SegStatsRebuilder list"
  re_ChunkDirs :: "ChunkDirRebuilder list"
  re_TTLClasses :: "TTLClass list"
  re_FreeMap :: "FreeExtent list"
  re_MetaKV :: "MetaKVPair list"
  re_TailFrom :: u64

fun rebuild_shards ::
  "device \<Rightarrow> Prefix \<Rightarrow> SRTRow list \<Rightarrow> u64
    \<Rightarrow> err + IndexRebuilder list \<times> SegStatsRebuilder list \<times> ChunkDirRebuilder list \<times> u64" where
  "rebuild_shards dev prefix [] tailFrom = Inr ([], [], [], tailFrom)"
| "rebuild_shards dev prefix (row # rows) tailFrom =
    bindE (RebuildShardIndex dev prefix (sr_IndexCkptOff row)) (\<lambda>idx.
    bindE (RebuildShardSegStats dev prefix (sr_SegstatsOff row)) (\<lambda>ss.
    bindE (RebuildShardChunkDir dev prefix (sr_ChunkdirOff row)) (\<lambda>cd.
    let ft = sr_FirstTailSeg row;
        tailFrom = (if ft \<noteq> 0 \<and> ft < tailFrom then ft else tailFrom)
    in bindE (rebuild_shards dev prefix rows tailFrom) (\<lambda>(idxs, sss, cds, t).
      Inr (idx # idxs, ss # sss, cd # cds, t)))))"

definition Recover :: "device \<Rightarrow> err + Recovery" where
  "Recover dev =
    bindE (ReadOpenState dev) (\<lambda>st.
    if os_Outcome st = OpenScanFallback then
      Inr \<lparr>re_State = st, re_SRT = None, re_Indexes = [], re_SegStats = [], re_ChunkDirs = [],
           re_TTLClasses = [], re_FreeMap = [], re_MetaKV = [], re_TailFrom = PageSize\<rparr>
    else
      bindE (ReadSRT dev (os_Prefix st) (os_Meta st)) (\<lambda>srt.
      bindE (ReadTTLIndex dev (os_Meta st)) (\<lambda>ttl.
      bindE (ReadFreeMap dev (os_Prefix st) (os_Meta st)) (\<lambda>fm.
      bindE (ReadMetaKV dev (os_Prefix st) (os_Meta st)) (\<lambda>kv.
      case srt of
        None \<Rightarrow> Inr \<lparr>re_State = st, re_SRT = None, re_Indexes = [], re_SegStats = [], re_ChunkDirs = [],
                   re_TTLClasses = ttl, re_FreeMap = fm, re_MetaKV = kv, re_TailFrom = PageSize\<rparr>
      | Some srt \<Rightarrow>
          let fileSize = m_FileSize (the (os_Meta st))
          in bindE (rebuild_shards dev (os_Prefix st) (srt_Rows srt) fileSize) (\<lambda>(idxs, sss, cds, tailFrom).
            Inr \<lparr>re_State = st, re_SRT = Some srt, re_Indexes = idxs, re_SegStats = sss, re_ChunkDirs = cds,
                 re_TTLClasses = ttl, re_FreeMap = fm, re_MetaKV = kv,
                 re_TailFrom = (if os_Outcome st = OpenClean then fileSize else tailFrom)\<rparr>))))))"

section \<open>CrossCheck and DeadByteAudit\<close>

record SRTRowDrift =
  dr_Shard :: nat
  dr_RowLiveRecords :: u64
  dr_CkptEntries :: u64
  dr_RowSeqHigh :: u64
  dr_CkptSeqHigh :: u64

fun cross_rows :: "nat \<Rightarrow> SRTRow list \<Rightarrow> IndexRebuilder list \<Rightarrow> SRTRowDrift list" where
  "cross_rows i (row # rows) (idx # idxs) =
    (let entries = of_nat (IndexRebuilder_Len idx)
     in (if entries = sr_LiveRecords row \<and> ir_SeqHigh idx = sr_ShardSeqHigh row then []
         else [\<lparr>dr_Shard = i, dr_RowLiveRecords = sr_LiveRecords row, dr_CkptEntries = entries,
                dr_RowSeqHigh = sr_ShardSeqHigh row, dr_CkptSeqHigh = ir_SeqHigh idx\<rparr>])
        @ cross_rows (Suc i) rows idxs)"
| "cross_rows i rows idxs = []"

definition CrossCheck :: "Recovery \<Rightarrow> SRTRowDrift list" where
  "CrossCheck r = (case re_SRT r of None \<Rightarrow> [] | Some srt \<Rightarrow> cross_rows 0 (srt_Rows srt) (re_Indexes r))"

record ShardBytes =
  sy_LiveBytes :: u64
  sy_DeadBytes :: u64

record DeadByteAudit =
  da_PerShard :: "ShardBytes list"
  da_TotalLive :: u64
  da_TotalDead :: u64

fun audit_shards :: "SegStatsRebuilder list \<Rightarrow> u64 \<Rightarrow> u64 \<Rightarrow> DeadByteAudit" where
  "audit_shards [] totalLive totalDead = \<lparr>da_PerShard = [], da_TotalLive = totalLive, da_TotalDead = totalDead\<rparr>"
| "audit_shards (ss # sss) totalLive totalDead =
    (let live = TotalLiveBytes ss;
         dead = TotalDeadBytes ss;
         a = audit_shards sss (totalLive + live) (totalDead + dead)
     in a\<lparr>da_PerShard := \<lparr>sy_LiveBytes = live, sy_DeadBytes = dead\<rparr> # da_PerShard a\<rparr>)"

definition DeadByteAudit_of :: "Recovery \<Rightarrow> DeadByteAudit" where
  "DeadByteAudit_of r = audit_shards (re_SegStats r) 0 0"

section \<open>The three chains\<close>

type_synonym index_ckpt = "CkptHeader \<times> CkptEntry list"
type_synonym segstats_ckpt = "SegStatsHeader \<times> SegStatsEntry list"
type_synonym chunkdir_ckpt = "ChunkDirHeader \<times> ChunkDirCollection list"

definition index_image :: "index_ckpt \<Rightarrow> bytes" where
  "index_image c = append_rows AppendCkptEntry (AppendCkptHeader [] (fst c)) (snd c)"

definition index_ok :: "index_ckpt \<Rightarrow> bool" where
  "index_ok c \<longleftrightarrow> ck_EntryCount (fst c) = of_nat (length (snd c)) \<and> length (snd c) * 24 \<le> maxAlloc
     \<and> (ck_FullOrDelta (fst c) = 2 \<or> ck_FullOrDelta (fst c) = 1 \<and> ck_BaseCkptOff (fst c) = 0)"

definition index_full :: "index_ckpt \<Rightarrow> bool" where
  "index_full c \<longleftrightarrow> ck_FullOrDelta (fst c) = 1"

lemma index_image_split: "index_image c = AppendCkptHeader [] (fst c) @ concat (map (AppendCkptEntry []) (snd c))"
  unfolding index_image_def by (rule append_rows_concat) (rule AppendCkptEntry_append)

lemma index_image_parse:
  assumes "index_ok c"
  shows "ParseCkptHeader (index_image c) = Inr (fst c)" "CkptEntries (index_image c) (fst c) = Inr (snd c)"
  using assms ckptent.counted_rows_at [of "snd c" "AppendCkptHeader [] (fst c)" 48 24 "[]"]
  by (auto simp: index_image_split index_ok_def ParseCkptHeader_Append CkptEntries_def length_headers)

interpretation index: chain_rebuild index_image index_ok index_full "ck_BaseCkptOff \<circ> fst" snd ce_KeyHash ckpt_tomb
  index_link IndexRebuilder_Apply "map_of \<circ> ir_entries" ir_LogPos "ck_CkptLogPos \<circ> fst" NewIndexRebuilder
proof (unfold_locales, goal_cases)
  case 1
  then show ?case by (simp add: NewIndexRebuilder_def)
next
  case (2 c)
  then show ?case by (simp add: index_link_def index_image_parse index_full_def)
next
  case (3 c r)
  then have "(ck_FullOrDelta (fst c) = 2) = (\<not> index_full c)" by (auto simp: index_ok_def index_full_def)
  with 3 show ?case
    by (auto simp: IndexRebuilder_Apply_def index_image_parse map_of_layer index_full_def)
qed

definition segstats_image :: "segstats_ckpt \<Rightarrow> bytes" where
  "segstats_image c = append_rows AppendSegStatsEntry (AppendSegStatsHeader [] (fst c)) (snd c)"

definition segstats_ok :: "segstats_ckpt \<Rightarrow> bool" where
  "segstats_ok c \<longleftrightarrow> ss_EntryCount (fst c) = of_nat (length (snd c)) \<and> length (snd c) * 32 \<le> maxAlloc
     \<and> (ss_FullOrDelta (fst c) = 2 \<or> ss_FullOrDelta (fst c) = 1 \<and> ss_BaseCkptOff (fst c) = 0)"

definition segstats_full :: "segstats_ckpt \<Rightarrow> bool" where
  "segstats_full c \<longleftrightarrow> ss_FullOrDelta (fst c) = 1"

lemma segstats_image_split:
  "segstats_image c = AppendSegStatsHeader [] (fst c) @ concat (map (AppendSegStatsEntry []) (snd c))"
  unfolding segstats_image_def by (rule append_rows_concat) (rule AppendSegStatsEntry_append)

lemma segstats_image_parse:
  assumes "segstats_ok c"
  shows "ParseSegStatsHeader (segstats_image c) = Inr (fst c)" "SegStatsEntries (segstats_image c) (fst c) = Inr (snd c)"
  using assms segstat.counted_rows_at [of "snd c" "AppendSegStatsHeader [] (fst c)" 32 32 "[]"]
  by (auto simp: segstats_image_split segstats_ok_def ParseSegStatsHeader_Append SegStatsEntries_def length_headers)

interpretation segstats: chain_rebuild segstats_image segstats_ok segstats_full "ss_BaseCkptOff \<circ> fst" snd se_SegOff
  segstats_freed segstats_link SegStatsRebuilder_Apply "map_of \<circ> sb_entries" sb_LogPos "ss_CkptLogPos \<circ> fst"
  NewSegStatsRebuilder
proof (unfold_locales, goal_cases)
  case 1
  then show ?case by (simp add: NewSegStatsRebuilder_def)
next
  case (2 c)
  then show ?case by (simp add: segstats_link_def segstats_image_parse segstats_full_def)
next
  case (3 c r)
  then have "(ss_FullOrDelta (fst c) = 2) = (\<not> segstats_full c)" by (auto simp: segstats_ok_def segstats_full_def)
  with 3 show ?case
    by (auto simp: SegStatsRebuilder_Apply_def segstats_image_parse map_of_layer segstats_full_def)
qed

definition chunkdir_image :: "chunkdir_ckpt \<Rightarrow> bytes" where
  "chunkdir_image c = AppendChunkDirHeader [] (fst c) @ concat (map collection_bytes (snd c))"

definition chunkdir_ok :: "chunkdir_ckpt \<Rightarrow> bool" where
  "chunkdir_ok c \<longleftrightarrow> ch_CollectionCount (fst c) = of_nat (length (snd c)) \<and> length (snd c) * 40 \<le> maxAlloc
     \<and> (\<forall>x \<in> set (snd c). collection_ok x)
     \<and> (ch_FullOrDelta (fst c) = 2 \<or> ch_FullOrDelta (fst c) = 1 \<and> ch_BaseCkptOff (fst c) = 0)"

definition chunkdir_full :: "chunkdir_ckpt \<Rightarrow> bool" where
  "chunkdir_full c \<longleftrightarrow> ch_FullOrDelta (fst c) = 1"

lemma chunkdir_image_parse:
  assumes "chunkdir_ok c"
  shows "ParseChunkDirHeader (chunkdir_image c) = Inr (fst c)" "ChunkDirCollections (chunkdir_image c) (fst c) = Inr (snd c)"
  using assms collection.counted_items_at [of "snd c" "AppendChunkDirHeader [] (fst c)" 32 40 "[]"]
  by (auto simp: chunkdir_image_def chunkdir_ok_def ParseChunkDirHeader_Append ChunkDirCollections_def length_headers)

interpretation chunkdir: chain_rebuild chunkdir_image chunkdir_ok chunkdir_full "ch_BaseCkptOff \<circ> fst" snd cc_KeyHash
  chunkdir_tomb chunkdir_link ChunkDirRebuilder_Apply "map_of \<circ> cb_collections" cb_LogPos "ch_CkptLogPos \<circ> fst"
  NewChunkDirRebuilder
proof (unfold_locales, goal_cases)
  case 1
  then show ?case by (simp add: NewChunkDirRebuilder_def)
next
  case (2 c)
  then show ?case by (simp add: chunkdir_link_def chunkdir_image_parse chunkdir_full_def)
next
  case (3 c r)
  then have "(ch_FullOrDelta (fst c) = 2) = (\<not> chunkdir_full c)" by (auto simp: chunkdir_ok_def chunkdir_full_def)
  with 3 show ?case
    by (auto simp: ChunkDirRebuilder_Apply_def chunkdir_image_parse map_of_layer chunkdir_full_def)
qed

end
