(* ===== verification/RecoveryProps.thy ===== *)
theory RecoveryProps
  imports Recovery CommitProps
begin

unbundle bit_operations_syntax

text \<open>
  The properties of recovery: a chain of checkpoints rebuilds the table its newest member
  describes, a chain that runs into itself is refused, the tail replay starts early enough, and a checkpoint
  followed by Recover gives back the shard roots and tables that were committed.
\<close>

section \<open>Chains\<close>

lemma distinct_apply_all:
  assumes "\<And>r p h r'. app r p = Inr (h, r') \<Longrightarrow> distinct (map fst (tbl r)) \<Longrightarrow> distinct (map fst (tbl r'))"
  shows "apply_all app r ps = Inr r' \<Longrightarrow> distinct (map fst (tbl r)) \<Longrightarrow> distinct (map fst (tbl r'))"
  by (induction ps arbitrary: r) (auto dest: assms)

lemma IndexRebuilder_Apply_distinct:
  "IndexRebuilder_Apply r p = Inr (h, r') \<Longrightarrow> distinct (map fst (ir_entries r)) \<Longrightarrow> distinct (map fst (ir_entries r'))"
  by (auto simp: IndexRebuilder_Apply_def Let_def intro!: distinct_layer)

lemma RebuildShardIndex_distinct:
  "RebuildShardIndex dev prefix off = Inr r \<Longrightarrow> distinct (map fst (ir_entries r))"
  using distinct_apply_all [where tbl = ir_entries and app = IndexRebuilder_Apply and r = NewIndexRebuilder, OF IndexRebuilder_Apply_distinct]
  by (auto simp: RebuildShardIndex_def NewIndexRebuilder_def split: if_splits)

lemma SegStatsRebuilder_Apply_distinct:
  "SegStatsRebuilder_Apply r p = Inr (h, r') \<Longrightarrow> distinct (map fst (sb_entries r)) \<Longrightarrow> distinct (map fst (sb_entries r'))"
  by (auto simp: SegStatsRebuilder_Apply_def Let_def intro!: distinct_layer)

lemma RebuildShardSegStats_distinct:
  "RebuildShardSegStats dev prefix off = Inr r \<Longrightarrow> distinct (map fst (sb_entries r))"
  using distinct_apply_all [where tbl = sb_entries and app = SegStatsRebuilder_Apply and r = NewSegStatsRebuilder, OF SegStatsRebuilder_Apply_distinct]
  by (auto simp: RebuildShardSegStats_def NewSegStatsRebuilder_def split: if_splits)

lemma in_log_read:
  assumes "file_inv f ss" "in_log ss off = Inr (h, pl)"
  shows "readSegmentAt (f_dev f) 1 off = Inr (h, pl)"
proof -
  from assms(2) have "(off, h, pl) \<in> set ss" by (auto simp: in_log_def split: option.splits dest: map_of_SomeD)
  moreover have "log_at (f_dev f) 1 16384 ss (f_cursor f)" using assms(1) by (simp add: file_inv_def)
  ultimately show ?thesis by (blast intro: readSegmentAt_seg log_at_seg)
qed

section \<open>The shards of a recovery\<close>

text \<open>What the row of a shard promises: each of its three roots is absent or heads a chain in the log.\<close>

type_synonym shard_chains =
  "(u64 \<times> index_ckpt) list \<times> (u64 \<times> segstats_ckpt) list \<times> (u64 \<times> chunkdir_ckpt) list"

definition row_heads :: "seg list \<Rightarrow> SRTRow \<Rightarrow> shard_chains \<Rightarrow> bool" where
  "row_heads ss row = (\<lambda>(ic, sc, dc).
     heads index_image index_ok index_full (ck_BaseCkptOff \<circ> fst) ss KindIndexCkpt (sr_IndexCkptOff row) ic
     \<and> heads segstats_image segstats_ok segstats_full (ss_BaseCkptOff \<circ> fst) ss KindSegStats (sr_SegstatsOff row) sc
     \<and> heads chunkdir_image chunkdir_ok chunkdir_full (ch_BaseCkptOff \<circ> fst) ss KindChunkDir (sr_ChunkdirOff row) dc)"

definition index_state :: "(u64 \<times> index_ckpt) list \<Rightarrow> (u64 \<rightharpoonup> CkptEntry)" where
  "index_state ic = denote index_full snd ce_KeyHash ckpt_tomb (rev (map snd ic)) Map.empty"

definition segstats_state :: "(u64 \<times> segstats_ckpt) list \<Rightarrow> (u64 \<rightharpoonup> SegStatsEntry)" where
  "segstats_state sc = denote segstats_full snd se_SegOff segstats_freed (rev (map snd sc)) Map.empty"

definition chunkdir_state :: "(u64 \<times> chunkdir_ckpt) list \<Rightarrow> (u64 \<rightharpoonup> ChunkDirCollection)" where
  "chunkdir_state dc = denote chunkdir_full snd cc_KeyHash chunkdir_tomb (rev (map snd dc)) Map.empty"

lemma row_heads_rebuild:
  assumes "row_heads ss row (ic, sc, dc)" "file_inv f ss"
  shows "\<exists>idx st cd. RebuildShardIndex (f_dev f) (f_prefix f) (sr_IndexCkptOff row) = Inr idx
    \<and> RebuildShardSegStats (f_dev f) (f_prefix f) (sr_SegstatsOff row) = Inr st
    \<and> RebuildShardChunkDir (f_dev f) (f_prefix f) (sr_ChunkdirOff row) = Inr cd
    \<and> map_of (ir_entries idx) = index_state ic \<and> map_of (sb_entries st) = segstats_state sc
    \<and> map_of (cb_collections cd) = chunkdir_state dc
    \<and> (ic \<noteq> [] \<longrightarrow> ir_LogPos idx = ck_CkptLogPos (fst (snd (hd ic))))"
proof -
  note rd = in_log_read [OF assms(2)] and k = file_inv_kind [OF assms(2)]
  from assms(1) have
    "heads index_image index_ok index_full (ck_BaseCkptOff \<circ> fst) ss 3 (sr_IndexCkptOff row) ic"
    "heads segstats_image segstats_ok segstats_full (ss_BaseCkptOff \<circ> fst) ss 5 (sr_SegstatsOff row) sc"
    "heads chunkdir_image chunkdir_ok chunkdir_full (ch_BaseCkptOff \<circ> fst) ss 4 (sr_ChunkdirOff row) dc"
    by (simp_all add: row_heads_def)
  from index.rebuild_heads [OF this(1) rd, of ErrCheckpoint] segstats.rebuild_heads [OF this(2) rd, of ErrSegStats]
    chunkdir.rebuild_heads [OF this(3) rd, of ErrChunkDir]
  show ?thesis
    unfolding RebuildShardIndex_def RebuildShardSegStats_def RebuildShardChunkDir_def k
      index_state_def segstats_state_def chunkdir_state_def comp_apply
    by blast
qed

lemma in_log_append: "in_log ss off = Inr x \<Longrightarrow> in_log (ss @ ts) off = Inr x"
  by (auto simp: in_log_def map_add_def split: option.splits)

lemma heads_append: "heads img ok full base ss k off cs \<Longrightarrow> heads img ok full base (ss @ ts) k off cs"
  using chain_on_mono [where rd = "in_log ss" and ?rd2.0 = "in_log (ss @ ts)", OF _ in_log_append]
  by (auto simp: heads_def split: if_splits)

lemma row_heads_append: "row_heads ss row ch \<Longrightarrow> row_heads (ss @ ts) row ch"
  by (auto simp: row_heads_def heads_append)

definition shard_tables :: "IndexRebuilder \<times> SegStatsRebuilder \<times> ChunkDirRebuilder \<Rightarrow> shard_chains \<Rightarrow> bool" where
  "shard_tables = (\<lambda>(idx, st, cd) (ic, sc, dc). map_of (ir_entries idx) = index_state ic
     \<and> map_of (sb_entries st) = segstats_state sc \<and> map_of (cb_collections cd) = chunkdir_state dc)"

lemma rebuild_shards_rows:
  assumes "list_all2 (row_heads ss) rows chs" "file_inv f ss"
  shows "\<exists>idxs sts cds t'. rebuild_shards (f_dev f) (f_prefix f) rows t = Inr (idxs, sts, cds, t')
    \<and> length idxs = length rows \<and> length sts = length rows \<and> length cds = length rows
    \<and> list_all2 shard_tables (zip idxs (zip sts cds)) chs"
  using assms(1)
proof (induction rows chs arbitrary: t rule: list_all2_induct)
  case Nil
  then show ?case by simp
next
  case (Cons row rows ch chs)
  obtain ic sc dc where ch: "ch = (ic, sc, dc)" by (cases ch)
  let ?t = "if sr_FirstTailSeg row \<noteq> 0 \<and> sr_FirstTailSeg row < t then sr_FirstTailSeg row else t"
  from row_heads_rebuild [OF Cons(1) [unfolded ch] assms(2)] obtain idx st cd where
    1: "RebuildShardIndex (f_dev f) (f_prefix f) (sr_IndexCkptOff row) = Inr idx"
      "RebuildShardSegStats (f_dev f) (f_prefix f) (sr_SegstatsOff row) = Inr st"
      "RebuildShardChunkDir (f_dev f) (f_prefix f) (sr_ChunkdirOff row) = Inr cd"
      "shard_tables (idx, st, cd) ch" by (auto simp: shard_tables_def ch)
  from Cons(3) [of ?t] obtain idxs sts cds t' where
    2: "rebuild_shards (f_dev f) (f_prefix f) rows ?t = Inr (idxs, sts, cds, t')" "length idxs = length rows"
      "length sts = length rows" "length cds = length rows" "list_all2 shard_tables (zip idxs (zip sts cds)) chs" by blast
  then show ?case using 1 by (simp add: Let_def)
qed

lemma rebuild_shards_tail:
  assumes "rebuild_shards dev prefix rows t = Inr (idxs, sts, cds, t')"
  shows "length idxs = length rows \<and> length sts = length rows \<and> length cds = length rows \<and> t' \<le> t
    \<and> (\<forall>row \<in> set rows. sr_FirstTailSeg row \<noteq> 0 \<longrightarrow> t' \<le> sr_FirstTailSeg row)
    \<and> (t' = t \<or> (\<exists>row \<in> set rows. sr_FirstTailSeg row \<noteq> 0 \<and> t' = sr_FirstTailSeg row))"
  using assms
proof (induction rows arbitrary: t idxs sts cds t')
  case Nil
  then show ?case by simp
next
  case (Cons row rows)
  let ?t = "if sr_FirstTailSeg row \<noteq> 0 \<and> sr_FirstTailSeg row < t then sr_FirstTailSeg row else t"
  from Cons.prems obtain i s c ri rs rc where
    "rebuild_shards dev prefix rows ?t = Inr (ri, rs, rc, t')" "idxs = i # ri" "sts = s # rs" "cds = c # rc"
    by (auto simp: Let_def)
  with Cons.IH [of ?t ri rs rc t'] show ?case by (auto split: if_splits)
qed

lemma Checkpoint_Recover:
  assumes inv: "file_inv f ss" and h: "healthy (f_dev f)"
    and marshal: "SRT_Marshal srt ChecksumCRC32C = Inr srtBytes"
    and rows: "length (srt_Rows srt) = unat (p_ShardCount (f_prefix f))" "list_all2 (row_heads ss) (srt_Rows srt) chs"
    and small: "length srtBytes < 2 ^ 32"
    and fit: "fits (f_cursor f) (ckpt_grp srtBytes [])"
    and seq: "unat (f_globalSeq f) + 2 < 2 ^ 64" "unat (f_commitSeq f) + 1 < 2 ^ 64"
  shows "\<exists>f' rec. Checkpoint f srt [] stats = (f', None) \<and> Recover (f_dev f') = Inr rec
    \<and> os_Outcome (re_State rec) = (if cs_Clean stats then OpenClean else OpenCrashed)
    \<and> re_SRT rec = Some srt
    \<and> list_all2 shard_tables (zip (re_Indexes rec) (zip (re_SegStats rec) (re_ChunkDirs rec))) chs
    \<and> (\<forall>row \<in> set (srt_Rows srt). \<not> cs_Clean stats \<longrightarrow> sr_FirstTailSeg row \<noteq> 0 \<longrightarrow> re_TailFrom rec \<le> sr_FirstTailSeg row)"
proof -
  have "length ([] :: Extent list) * 24 < 2 ^ 32" by simp
  from CheckpointWithGlobals_recovers [OF inv h marshal rows(1) small this fit seq, of stats no_globals] obtain f' m st where
    c: "CheckpointWithGlobals f srt [] stats no_globals = (f', None)"
      "file_inv f' (ss @ layout (f_cursor f) (f_globalSeq f) (ckpt_grp srtBytes []))"
      "ReadOpenState (f_dev f') = Inr st" "os_Meta st = Some m" "os_Prefix st = f_prefix f'"
      "os_Outcome st = (if cs_Clean stats then OpenClean else OpenCrashed)"
      "m_TTLIndexLen m = 0" "m_FreeMapOff m = 0" "m_MetaKVOff m = 0"
      "ReadSRT (f_dev f') (os_Prefix st) (os_Meta st) = Inr (Some srt)"
    by (auto simp: no_globals_def)
  have "list_all2 (row_heads (ss @ layout (f_cursor f) (f_globalSeq f) (ckpt_grp srtBytes []))) (srt_Rows srt) chs"
    using rows(2) by (rule list_all2_mono) (rule row_heads_append)
  from rebuild_shards_rows [OF this c(2), of "m_FileSize m"] obtain idxs sts cds t where
    r: "rebuild_shards (f_dev f') (f_prefix f') (srt_Rows srt) (m_FileSize m) = Inr (idxs, sts, cds, t)"
      "list_all2 shard_tables (zip idxs (zip sts cds)) chs" by blast
  have out: "os_Outcome st \<noteq> OpenScanFallback" using c(6) by (simp split: if_splits)
  have "Recover (f_dev f') = Inr \<lparr>re_State = st, re_SRT = Some srt, re_Indexes = idxs, re_SegStats = sts,
      re_ChunkDirs = cds, re_TTLClasses = [], re_FreeMap = [], re_MetaKV = [],
      re_TailFrom = (if os_Outcome st = OpenClean then m_FileSize m else t)\<rparr>"
    using c(3,4,5,7-10) out r(1)
    by (simp add: Recover_def ReadTTLIndex_def ReadFreeMap_def ReadMetaKV_def)
  moreover have "Checkpoint f srt [] stats = (f', None)" using c(1) by (simp add: Checkpoint_def)
  ultimately show ?thesis using r(2) rebuild_shards_tail [OF r(1)] c(6) by auto
qed

lemma demo_recover_facts:
  assumes "file_inv f []" "f_prefix f = NewPrefix 4 64 (replicate 16 7) 1" "f_cursor f = 16384" "f_globalSeq f = 0"
    "f_commitSeq f = 0" "SRT_Marshal demo_srt 1 = Inr b" "length b = 360"
  shows "length (srt_Rows demo_srt) = unat (p_ShardCount (f_prefix f))"
    "list_all2 (row_heads []) (srt_Rows demo_srt) (replicate 4 ([], [], []))" "length b < 2 ^ 32"
    "fits (f_cursor f) (ckpt_grp b [])" "unat (f_globalSeq f) + 2 < 2 ^ 64" "unat (f_commitSeq f) + 1 < 2 ^ 64"
proof -
  show "list_all2 (row_heads []) (srt_Rows demo_srt) (replicate 4 ([], [], []))"
    by (simp add: demo_srt_def row_heads_def heads_def numeral_eq_Suc)
  show "fits (f_cursor f) (ckpt_grp b [])"
    using assms(3,7) by (simp add: fits_def ckpt_grp_def root_pending_def span_def maxAlloc_def)
qed (use assms in \<open>simp_all add: demo_srt_def NewPrefix_def\<close>)

lemma demo_recover:
  obtains f b where "CreateOnDevice demo_dev demo_opts = Inr f" "healthy (f_dev f)" "file_inv f []"
    "SRT_Marshal demo_srt 1 = Inr b" "length (srt_Rows demo_srt) = unat (p_ShardCount (f_prefix f))"
    "list_all2 (row_heads []) (srt_Rows demo_srt) (replicate 4 ([], [], []))" "length b < 2 ^ 32"
    "fits (f_cursor f) (ckpt_grp b [])" "unat (f_globalSeq f) + 2 < 2 ^ 64" "unat (f_commitSeq f) + 1 < 2 ^ 64"
proof -
  obtain f where f: "CreateOnDevice demo_dev demo_opts = Inr f" "healthy (f_dev f)" "file_inv f []"
    "f_cursor f = 16384" "f_globalSeq f = 0" by (rule demo_file)
  obtain b where b: "SRT_Marshal demo_srt 1 = Inr b" "length b = 360" by (rule demo_srt_bytes)
  have p: "f_prefix f = NewPrefix 4 64 (replicate 16 7) 1" "f_commitSeq f = 0"
    using CreateOnDevice_fields [OF f(1)] by (simp_all add: demo_opts_def)
  from that [OF f(1-3) b(1)] demo_recover_facts [OF f(3) p(1) f(4,5) p(2) b] show ?thesis by blast
qed

section \<open>The properties\<close>

text \<open>
  C8. The checkpoint chains rebuild the tables: when the roots of a shard's row head chains of
  full and delta checkpoints in the log, the three rebuilders return the tables those chains describe
  (index, dead-byte accounting, chunk directory), one entry per key, with the index at the
  newest checkpoint's log position.
\<close>

theorem shard_tables_rebuild:
  assumes "row_heads ss row (ic, sc, dc)" "file_inv f ss"
  shows "\<exists>idx st cd. RebuildShardIndex (f_dev f) (f_prefix f) (sr_IndexCkptOff row) = Inr idx
    \<and> RebuildShardSegStats (f_dev f) (f_prefix f) (sr_SegstatsOff row) = Inr st
    \<and> RebuildShardChunkDir (f_dev f) (f_prefix f) (sr_ChunkdirOff row) = Inr cd
    \<and> map_of (ir_entries idx) = index_state ic \<and> distinct (map fst (ir_entries idx))
    \<and> map_of (sb_entries st) = segstats_state sc \<and> distinct (map fst (sb_entries st))
    \<and> map_of (cb_collections cd) = chunkdir_state dc
    \<and> (ic \<noteq> [] \<longrightarrow> ir_LogPos idx = ck_CkptLogPos (fst (snd (hd ic))))"
  using row_heads_rebuild [OF assms] RebuildShardIndex_distinct RebuildShardSegStats_distinct by blast

definition demo_index :: index_ckpt where
  "demo_index = (\<lparr>ck_FullOrDelta = 1, ck_CkptLogPos = 5, ck_EntryCount = 1, ck_BucketCount = 8, ck_BaseCkptOff = 0,
     ck_SeqHigh = 3\<rparr>, [\<lparr>ce_KeyHash = 7, ce_RecordAddr = 100, ce_Slot = 1, ce_Flags = 0\<rparr>])"

definition demo_row :: SRTRow where
  "demo_row = \<lparr>sr_IndexCkptOff = 16384, sr_IndexCkptLen = 68, sr_ChunkdirOff = 0, sr_ChunkdirLen = 0,
     sr_SegstatsOff = 0, sr_SegstatsLen = 0, sr_CkptLogPos = 5, sr_ShardSeqHigh = 3, sr_FirstTailSeg = 0,
     sr_LiveRecords = 1\<rparr>"

lemma length_index_image: "length (index_image c) = 48 + length (snd c) * 20"
  by (simp add: index_image_split length_headers ckptent.length_concat_enc)

theorem shard_tables_rebuild_witness:
  "\<exists>f f' idx. CreateOnDevice demo_dev demo_opts = Inr f
     \<and> AppendGroup f [root_pending KindIndexCkpt (index_image demo_index)] = (f', [16384], None)
     \<and> RebuildShardIndex (f_dev f') (f_prefix f') 16384 = Inr idx \<and> ir_LogPos idx = 5
     \<and> map_of (ir_entries idx) 7 = Some \<lparr>ce_KeyHash = 7, ce_RecordAddr = 100, ce_Slot = 1, ce_Flags = 0\<rparr>"
proof -
  let ?p = "root_pending 3 (index_image demo_index)"
  have "length (pe_Payload ?p) < 2 ^ 32" by (simp add: root_pending_def length_index_image demo_index_def)
  then obtain f f' where f: "CreateOnDevice demo_dev demo_opts = Inr f" "AppendGroup f [?p] = (f', [16384], None)"
    "file_inv f' [(16384, seg_hdr 1 ?p, pe_Payload ?p)]" by (rule demo_append)
  have "row_heads [(16384, seg_hdr 1 ?p, pe_Payload ?p)] demo_row ([(16384, demo_index)], [], [])"
    by (simp add: row_heads_def demo_row_def heads_def in_log_def index_ok_def index_full_def demo_index_def
        root_pending_def seg_hdr_def pending_header_def maxAlloc_def)
  from shard_tables_rebuild [OF this f(3)] obtain idx where
    i: "RebuildShardIndex (f_dev f') (f_prefix f') (sr_IndexCkptOff demo_row) = Inr idx"
      "map_of (ir_entries idx) = index_state [(16384, demo_index)]" "ir_LogPos idx = ck_CkptLogPos (fst demo_index)"
    by auto
  moreover have "index_state [(16384, demo_index)] 7 = Some \<lparr>ce_KeyHash = 7, ce_RecordAddr = 100, ce_Slot = 1, ce_Flags = 0\<rparr>"
    by (simp add: index_state_def denote_def apply_delta_def index_full_def demo_index_def)
  ultimately show ?thesis using f(1,2) by (auto simp: demo_row_def demo_index_def)
qed

text \<open>
  C19. A corrupt chain is refused: deltas whose back-pointers lead back into the chain make
  RebuildShardIndex return ErrCheckpoint, it does not loop.
\<close>

theorem index_cycle_refused:
  assumes "links_to index_image index_ok index_full (ck_BaseCkptOff \<circ> fst)
      (readSegmentAt dev (p_ChecksumKind prefix)) KindIndexCkpt cs b"
    and "b \<in> set (map fst cs)" "distinct (map fst cs)" "fst (hd cs) \<noteq> 0"
  shows "RebuildShardIndex dev prefix (fst (hd cs)) = Inl ErrCheckpoint"
proof -
  have "cs \<noteq> []" using assms(2) by auto
  with index.walk_chain_cycle [OF assms(1) this, of "[]" ErrCheckpoint "[]"] assms(2-4) show ?thesis
    by (simp add: RebuildShardIndex_def)
qed

definition demo_loop :: index_ckpt where
  "demo_loop = (\<lparr>ck_FullOrDelta = 2, ck_CkptLogPos = 5, ck_EntryCount = 0, ck_BucketCount = 8,
     ck_BaseCkptOff = 16384, ck_SeqHigh = 3\<rparr>, [])"

theorem index_cycle_refused_witness:
  "\<exists>f f'. CreateOnDevice demo_dev demo_opts = Inr f
     \<and> AppendGroup f [root_pending KindIndexCkpt (index_image demo_loop)] = (f', [16384], None)
     \<and> RebuildShardIndex (f_dev f') (f_prefix f') 16384 = Inl ErrCheckpoint"
proof -
  let ?p = "root_pending 3 (index_image demo_loop)"
  have "length (pe_Payload ?p) < 2 ^ 32" by (simp add: root_pending_def length_index_image demo_loop_def)
  then obtain f f' where f: "CreateOnDevice demo_dev demo_opts = Inr f" "AppendGroup f [?p] = (f', [16384], None)"
    "file_inv f' [(16384, seg_hdr 1 ?p, pe_Payload ?p)]" by (rule demo_append)
  have "readSegmentAt (f_dev f') (p_ChecksumKind (f_prefix f')) 16384 = Inr (seg_hdr 1 ?p, index_image demo_loop)"
    using in_log_read [OF f(3)] file_inv_kind [OF f(3)] by (simp add: in_log_def root_pending_def)
  then have "links_to index_image index_ok index_full (ck_BaseCkptOff \<circ> fst)
      (readSegmentAt (f_dev f') (p_ChecksumKind (f_prefix f'))) 3 [(16384, demo_loop)] 16384"
    by (simp add: index_ok_def index_full_def demo_loop_def root_pending_def seg_hdr_def pending_header_def)
  from index_cycle_refused [OF this] show ?thesis using f(1,2) by auto
qed

text \<open>
  C18. Where the tail replay of a recovery starts.  A recovery that found a shard root
  table has one rebuilt table of each kind per row; after a clean shutdown its TailFrom is the root's
  file size, after a crash it is the least of that size and the first-tail offsets of the rows that have
  one, and without a table it is the header page.  A row whose offset is zero, that of a shard that never
  checkpointed, is skipped, so TailFrom may lie past segments of that shard which are in no checkpoint:
  when every row is such a row it is the file size.
\<close>

theorem recover_tail_from:
  assumes "Recover dev = Inr rec"
  shows "case re_SRT rec of
      None \<Rightarrow> re_TailFrom rec = PageSize
    | Some srt \<Rightarrow> length (re_Indexes rec) = length (srt_Rows srt) \<and> length (re_SegStats rec) = length (srt_Rows srt)
        \<and> length (re_ChunkDirs rec) = length (srt_Rows srt)
        \<and> (let size = m_FileSize (the (os_Meta (re_State rec)));
                first = {sr_FirstTailSeg row |row. row \<in> set (srt_Rows srt) \<and> sr_FirstTailSeg row \<noteq> 0}
            in if os_Outcome (re_State rec) = OpenClean then re_TailFrom rec = size
               else re_TailFrom rec = Min (insert size first) \<and> (first = {} \<longrightarrow> re_TailFrom rec = size))"
proof (cases "re_SRT rec")
  case None
  then show ?thesis using assms by (auto simp: Recover_def Let_def split: if_splits option.splits)
next
  case (Some srt)
  with assms obtain st idxs sts cds t where
    r: "rebuild_shards dev (os_Prefix st) (srt_Rows srt) (m_FileSize (the (os_Meta st))) = Inr (idxs, sts, cds, t)"
      "re_State rec = st" "re_Indexes rec = idxs" "re_SegStats rec = sts" "re_ChunkDirs rec = cds"
      "re_TailFrom rec = (if os_Outcome st = OpenClean then m_FileSize (the (os_Meta st)) else t)"
    by (auto simp: Recover_def Let_def split: if_splits option.splits)
  note b = rebuild_shards_tail [OF r(1)]
  let ?first = "{sr_FirstTailSeg row |row. row \<in> set (srt_Rows srt) \<and> sr_FirstTailSeg row \<noteq> 0}"
  have "finite ?first" by (rule finite_subset [of _ "sr_FirstTailSeg ` set (srt_Rows srt)"]) auto
  then have "t = Min (insert (m_FileSize (the (os_Meta st))) ?first)"
    using b by (intro Min_eqI [symmetric]) auto
  then show ?thesis using Some b r by (auto simp: Let_def)
qed

theorem recover_tail_from_witness:
  "\<exists>f f' rec. CreateOnDevice demo_dev demo_opts = Inr f \<and> Checkpoint f demo_srt [] demo_stats = (f', None)
     \<and> Recover (f_dev f') = Inr rec \<and> re_SRT rec = Some demo_srt \<and> length (re_Indexes rec) = 4
     \<and> re_TailFrom rec = min (m_FileSize (the (os_Meta (re_State rec)))) 16384"
proof -
  obtain f b where f: "CreateOnDevice demo_dev demo_opts = Inr f" "healthy (f_dev f)" "file_inv f []"
    "SRT_Marshal demo_srt 1 = Inr b" "length (srt_Rows demo_srt) = unat (p_ShardCount (f_prefix f))"
    "list_all2 (row_heads []) (srt_Rows demo_srt) (replicate 4 ([], [], []))" "length b < 2 ^ 32"
    "fits (f_cursor f) (ckpt_grp b [])" "unat (f_globalSeq f) + 2 < 2 ^ 64" "unat (f_commitSeq f) + 1 < 2 ^ 64"
    by (rule demo_recover)
  from Checkpoint_Recover [OF f(3,2,4-10), of demo_stats] obtain f' rec where
    c: "Checkpoint f demo_srt [] demo_stats = (f', None)" "Recover (f_dev f') = Inr rec" "re_SRT rec = Some demo_srt"
      "os_Outcome (re_State rec) = OpenCrashed" by (auto simp: demo_stats_def)
  have rows: "{sr_FirstTailSeg row |row. row \<in> set (srt_Rows demo_srt) \<and> sr_FirstTailSeg row \<noteq> 0} = {16384}"
    "length (srt_Rows demo_srt) = 4"
    by (auto simp: demo_srt_def)
  from recover_tail_from [OF c(2)] have "length (re_Indexes rec) = 4"
    "re_TailFrom rec = min (m_FileSize (the (os_Meta (re_State rec)))) 16384"
    unfolding c(3,4) option.case rows Let_def by simp_all
  with f(1) c show ?thesis by blast
qed

text \<open>
  C5. Checkpoint and recover: take a checkpoint whose rows head chains of the log, crash, and
  Recover returns the same shard root table with every shard's tables as the chains describe them, and
  a tail that starts no later than any row's first un-checkpointed segment.
\<close>

theorem checkpoint_then_recover:
  assumes inv: "file_inv f ss" and h: "healthy (f_dev f)"
    and marshal: "SRT_Marshal srt ChecksumCRC32C = Inr srtBytes"
    and rows: "length (srt_Rows srt) = unat (p_ShardCount (f_prefix f))" "list_all2 (row_heads ss) (srt_Rows srt) chs"
    and small: "length srtBytes < 2 ^ 32"
    and fit: "fits (f_cursor f) (ckpt_grp srtBytes [])"
    and seq: "unat (f_globalSeq f) + 2 < 2 ^ 64" "unat (f_commitSeq f) + 1 < 2 ^ 64"
  shows "\<exists>f' rec. Checkpoint f srt [] stats = (f', None) \<and> Recover (f_dev f') = Inr rec
    \<and> re_SRT rec = Some srt
    \<and> list_all2 shard_tables (zip (re_Indexes rec) (zip (re_SegStats rec) (re_ChunkDirs rec))) chs
    \<and> (\<forall>row \<in> set (srt_Rows srt). \<not> cs_Clean stats \<longrightarrow> sr_FirstTailSeg row \<noteq> 0 \<longrightarrow> re_TailFrom rec \<le> sr_FirstTailSeg row)"
  using Checkpoint_Recover [OF assms] by blast

theorem checkpoint_then_recover_witness:
  "\<exists>f f' rec. CreateOnDevice demo_dev demo_opts = Inr f \<and> Checkpoint f demo_srt [] demo_stats = (f', None)
     \<and> Recover (f_dev f') = Inr rec \<and> re_SRT rec = Some demo_srt"
proof -
  obtain f b where f: "CreateOnDevice demo_dev demo_opts = Inr f" "healthy (f_dev f)" "file_inv f []"
    "SRT_Marshal demo_srt 1 = Inr b" "length (srt_Rows demo_srt) = unat (p_ShardCount (f_prefix f))"
    "list_all2 (row_heads []) (srt_Rows demo_srt) (replicate 4 ([], [], []))" "length b < 2 ^ 32"
    "fits (f_cursor f) (ckpt_grp b [])" "unat (f_globalSeq f) + 2 < 2 ^ 64" "unat (f_commitSeq f) + 1 < 2 ^ 64"
    by (rule demo_recover)
  from checkpoint_then_recover [OF f(3,2,4-10), of demo_stats] f(1) show ?thesis by blast
qed

end
