(* ===== verification/Varint.thy ===== *)
theory Varint
  imports Format
begin

unbundle bit_operations_syntax

text \<open>
  The unsigned varints of Go's encoding/binary (PutUvarint and Uvarint), which the frames
  of the record, value and collection logs use.  Uvarint returns the value and the number
  of bytes read; 0 means that the buffer was too short, a negative number that the value
  overflows 64 bits.
\<close>

abbreviation (input) MaxVarintLen64 :: "'a::numeral" where "MaxVarintLen64 \<equiv> 10"

lemma drop_bit_7_less: "(128 :: u64) \<le> x \<Longrightarrow> unat (drop_bit 7 x) < unat x"
  by (simp only: unat_drop_bit_eq) (simp add: drop_bit_eq_div word_le_nat_alt)

lemma unat_ucast_mod: "unat (ucast (x :: u64) :: byte) = unat x mod 256" "unat (ucast (b :: byte) :: u64) = unat b"
  using unsigned_less [of b, where 'a = nat] by (simp_all add: unsigned_ucast_eq take_bit_eq_mod)

function PutUvarint :: "u64 \<Rightarrow> bytes" where
  "PutUvarint x = (if x \<ge> 0x80 then (ucast x OR 0x80) # PutUvarint (drop_bit 7 x) else [ucast x])"
  by pat_completeness auto
termination by (relation "measure unat") (use drop_bit_7_less in auto)

declare PutUvarint.simps [simp del]

fun Uvarint_from :: "nat \<Rightarrow> u64 \<Rightarrow> bytes \<Rightarrow> u64 \<times> int" where
  "Uvarint_from i x [] = (0, 0)"
| "Uvarint_from i x (b # buf) =
    (if i = MaxVarintLen64 then (0, - int (i + 1))
     else if b < 0x80 then
       (if i = MaxVarintLen64 - 1 \<and> b > 1 then (0, - int (i + 1))
        else (x OR push_bit (7 * i) (ucast b), int (i + 1)))
     else Uvarint_from (i + 1) (x OR push_bit (7 * i) (ucast (b AND 0x7f))) buf)"

definition Uvarint :: "bytes \<Rightarrow> u64 \<times> int" where
  "Uvarint buf = Uvarint_from 0 0 buf"

section \<open>Round trip\<close>

lemma PutUvarint_pos: "PutUvarint x \<noteq> []"
  by (subst PutUvarint.simps) simp

lemma low_byte: "x < 0x80 \<Longrightarrow> (ucast (x :: u64) :: byte) < 0x80 \<and> ucast (ucast x :: byte) = x"
proof -
  assume x: "x < 0x80"
  then have u: "unat x < 128" by (simp add: word_less_nat_alt)
  then have b: "unat (ucast x :: byte) = unat x" by (simp add: unat_ucast_mod)
  then have "(ucast x :: byte) < 0x80" using u by (simp add: word_less_nat_alt)
  moreover have "unat (ucast (ucast x :: byte) :: u64) = unat x" using b by (simp add: unat_ucast_mod)
  ultimately show ?thesis by (metis word_unat_eq_iff)
qed

lemma cont_byte:
  "\<not> ((ucast (x :: u64) OR 0x80 :: byte) < 0x80)"
  "ucast ((ucast (x :: u64) OR 0x80 :: byte) AND 0x7f) = take_bit 7 x"
proof -
  have "bit (ucast x OR 0x80 :: byte) 7" by (simp add: bit_simps)
  then have "2 ^ 7 \<le> unat (ucast x OR 0x80 :: byte)"
    by (metis bit_iff_odd bit_unsigned_iff div_less linorder_not_less possible_bit_nat dvd_0_right bit_imp_le_length)
  then show "\<not> ((ucast x OR 0x80 :: byte) < 0x80)" by (simp add: word_less_nat_alt)
  have b: "bit (0x7f :: int) n \<longleftrightarrow> n < 7" "n < 8 \<Longrightarrow> bit (0x80 :: int) n \<longleftrightarrow> n = 7" for n
  proof -
    have "(0x7f :: int) = mask 7" "(0x80 :: int) = push_bit 7 1" by (simp_all add: mask_eq_exp_minus_1)
    then show "bit (0x7f :: int) n \<longleftrightarrow> n < 7" "n < 8 \<Longrightarrow> bit (0x80 :: int) n \<longleftrightarrow> n = 7"
      by (simp_all only: bit_mask_iff bit_push_bit_iff) (auto simp: bit_simps)
  qed
  show "ucast ((ucast x OR 0x80 :: byte) AND 0x7f) = take_bit 7 x"
    by (rule bit_word_eqI) (auto simp: bit_simps b)
qed

lemma take_drop_or: "push_bit k (take_bit 7 x) OR push_bit (k + 7) (drop_bit 7 x) = push_bit k (x :: u64)"
proof -
  have x: "take_bit 7 x OR push_bit 7 (drop_bit 7 x) = x"
  proof (rule bit_word_eqI)
    fix n show "bit (take_bit 7 x OR push_bit 7 (drop_bit 7 x)) n \<longleftrightarrow> bit x n" if "n < LENGTH(64)"
      using that by (cases "n < 7") (auto simp: bit_simps)
  qed
  have "push_bit (k + 7) (drop_bit 7 x) = push_bit k (push_bit 7 (drop_bit 7 x))" by simp
  then show ?thesis using x by (simp only: flip: push_bit_or)
qed

lemma drop_7_bound: "i \<le> 8 \<Longrightarrow> unat (y :: u64) < 2 ^ (64 - 7 * i) \<Longrightarrow> unat (drop_bit 7 y) < 2 ^ (64 - 7 * (i + 1))"
proof -
  assume i: "i \<le> 8" and y: "unat y < 2 ^ (64 - 7 * i)"
  have "64 - 7 * i = 7 + (64 - 7 * (i + 1))" using i by simp
  then have "unat y < 2 ^ 7 * 2 ^ (64 - 7 * (i + 1))" using y by (simp only: power_add)
  then have "unat y div 2 ^ 7 < 2 ^ (64 - 7 * (i + 1))" by (metis less_mult_imp_div_less mult.commute)
  then show ?thesis by (simp only: unat_drop_bit_eq) (simp only: drop_bit_eq_div)
qed

lemma Uvarint_from_Put:
  assumes "i < 10" "unat y < 2 ^ (64 - 7 * i)"
  shows "Uvarint_from i x (PutUvarint y @ rest) = (x OR push_bit (7 * i) y, int (i + length (PutUvarint y)))"
  using assms
proof (induction y arbitrary: i x rule: PutUvarint.induct)
  case (1 y)
  show ?case
  proof (cases "y \<ge> 0x80")
    case True
    have "i \<noteq> 9" using 1(3) True by (auto simp: word_le_nat_alt)
    with 1(2) have i: "i \<le> 8" by simp
    from drop_7_bound [OF i 1(3)] have d: "unat (drop_bit 7 y) < 2 ^ (64 - 7 * (i + 1))" .
    have "Uvarint_from i x (PutUvarint y @ rest)
        = Uvarint_from (i + 1) (x OR push_bit (7 * i) (take_bit 7 y)) (PutUvarint (drop_bit 7 y) @ rest)"
      using True i by (subst PutUvarint.simps) (simp add: cont_byte)
    also have "\<dots> = ((x OR push_bit (7 * i) (take_bit 7 y)) OR push_bit (7 * (i + 1)) (drop_bit 7 y),
        int (i + 1 + length (PutUvarint (drop_bit 7 y))))"
      using 1(1) [OF True _ d] i by simp
    also have "\<dots> = (x OR push_bit (7 * i) y, int (i + length (PutUvarint y)))"
      using take_drop_or [of "7 * i" y] True by (subst (2) PutUvarint.simps) (simp add: or.assoc add.commute)
    finally show ?thesis .
  next
    case False
    then have y: "y < 0x80" by simp
    have "\<not> (ucast y :: byte) > 1" if "i = 9"
    proof -
      have "unat y < 2" using 1(3) that by simp
      then have "unat (ucast y :: byte) < 2" by (simp add: unat_ucast_mod)
      then show ?thesis by (simp add: word_less_nat_alt)
    qed
    then show ?thesis using False low_byte [OF y] 1(2) by (subst (1 2) PutUvarint.simps) auto
  qed
qed

lemma Uvarint_Put: "Uvarint (PutUvarint y @ rest) = (y, int (length (PutUvarint y)))"
  using Uvarint_from_Put [of 0 y 0 rest] unsigned_less [of y, where 'a = nat] by (simp add: Uvarint_def)

lemma length_PutUvarint_le:
  assumes "i < 10" "unat y < 2 ^ (64 - 7 * i)" shows "i + length (PutUvarint y) \<le> 10"
  using assms
proof (induction y arbitrary: i rule: PutUvarint.induct)
  case (1 y)
  show ?case
  proof (cases "y \<ge> 0x80")
    case True
    have "i \<noteq> 9" using 1(3) True by (auto simp: word_le_nat_alt)
    with 1(2) have i: "i \<le> 8" by simp
    from 1(1) [OF True _ drop_7_bound [OF i 1(3)]] i True show ?thesis by (subst PutUvarint.simps) simp
  next
    case False
    then show ?thesis using 1(2) by (subst PutUvarint.simps) simp
  qed
qed

lemma length_PutUvarint: "length (PutUvarint y) \<le> 10"
  using length_PutUvarint_le [of 0 y] unsigned_less [of y, where 'a = nat] by simp

lemma Uvarint_from_bound: "Uvarint_from i x buf = (v, adv) \<Longrightarrow> adv \<le> int (i + length buf)"
  by (induction i x buf rule: Uvarint_from.induct) (auto split: if_splits)

lemma Uvarint_bound: "Uvarint buf = (v, adv) \<Longrightarrow> adv \<le> int (length buf)"
  using Uvarint_from_bound [of 0 0 buf v adv] by (simp add: Uvarint_def)

end
