(* ===== verification/LogFrames.thy ===== *)
theory LogFrames
  imports Varint
begin

unbundle bit_operations_syntax

text \<open>
  The frame codecs of the append logs: valuelog.go, recordlog.go, the collection payloads of
  collectionlog.go and the self-delimiting cold frames of coldregion.go.  A log payload is a run
  of frames; a reader steps from one to the next by the length each frame starts with.

  The locale frame_log states what a walk over such a run relies on (a frame parses back at its
  offset whatever surrounds it, and is not empty) and derives what the walk visits.  Offsets
  inside a payload are nat below 2 to the 64; the sums the code forms in uint64 wrap (add64).
  A list too long to be a Go slice stands for no payload: the readers are defined as Panic on it.
\<close>

section \<open>valuelog.go\<close>

abbreviation (input) PointerSize :: "'a::numeral" where "PointerSize \<equiv> 16"

record ValuePointer =
  vp_ValueOff :: u64
  vp_ValueLen :: u32
  vp_ValueCRC :: u32

definition ValuePointer_Marshal :: "ValuePointer \<Rightarrow> bytes" where
  "ValuePointer_Marshal p =
    (let b = replicate PointerSize 0;
         b = PutUint64 b 0 (vp_ValueOff p);
         b = PutUint32 b 8 (vp_ValueLen p)
     in PutUint32 b 12 (vp_ValueCRC p))"

definition ParseValuePointer :: "bytes \<Rightarrow> err + ValuePointer" where
  "ParseValuePointer b =
    (if length b < PointerSize then Inl ErrShort
     else Inr \<lparr>vp_ValueOff = Uint64 b 0, vp_ValueLen = Uint32 b 8, vp_ValueCRC = Uint32 b 12\<rparr>)"

record ValueFrame =
  vf_FrameOff :: u64
  vf_ValueOff :: u64
  vf_ValueLen :: u32
  vf_CRC :: u32

definition AppendValueFrame :: "bytes \<Rightarrow> bytes \<Rightarrow> bytes \<times> ValueFrame" where
  "AppendValueFrame dst val =
    (let frameOff = length dst;
         dst = dst @ PutUvarint (of_nat (length val));
         valueOff = length dst;
         dst = dst @ val;
         crc = crc32c [val];
         cb = PutUint32 (replicate 4 0) 0 crc
     in (dst @ cb, \<lparr>vf_FrameOff = of_nat frameOff, vf_ValueOff = of_nat valueOff,
           vf_ValueLen = of_nat (length val), vf_CRC = crc\<rparr>))"

definition ReadValue :: "bytes \<Rightarrow> u64 \<Rightarrow> ValuePointer \<Rightarrow> err + bytes" where
  "ReadValue payload base p =
    (if vp_ValueOff p < base then Inl ErrShort
     else let start = unat (vp_ValueOff p - base) in
       if start > length payload \<or> unat (vp_ValueLen p) > length payload - start then Inl ErrShort
       else bindE (slice payload start (start + unat (vp_ValueLen p))) (\<lambda>val.
         if crc32c [val] \<noteq> vp_ValueCRC p then Inl ErrChecksum else Inr val))"

definition NextValueFrame :: "bytes \<Rightarrow> nat \<Rightarrow> err + (ValueFrame \<times> bytes) \<times> nat" where
  "NextValueFrame payload off =
    (if \<not> go_slice payload then Inl Panic
     else if off \<ge> length payload then Inl ErrShort
     else let (n, adv) = Uvarint (drop off payload) in
       if adv \<le> 0 then Inl ErrLength
       else let valueOff = add64 off (nat adv) in
         if unat n > length payload \<or> add64 (add64 valueOff (unat n)) 4 > length payload then Inl ErrShort
         else let e = add64 valueOff (unat n) in
           bindE (slice payload valueOff e) (\<lambda>val.
           bindE (slice payload e (add64 e 4)) (\<lambda>cb.
             let crc = Uint32 cb 0 in
             if crc32c [val] \<noteq> crc then Inl ErrChecksum
             else Inr ((\<lparr>vf_FrameOff = of_nat off, vf_ValueOff = of_nat valueOff,
                          vf_ValueLen = ucast n, vf_CRC = crc\<rparr>, val), add64 e 4))))"

section \<open>recordlog.go\<close>

abbreviation (input) recRowHdr :: "'a::numeral" where "recRowHdr \<equiv> 24"
abbreviation (input) RecFlagTombstone :: u32 where "RecFlagTombstone \<equiv> 1"
abbreviation (input) RecFlagInline :: u32 where "RecFlagInline \<equiv> 2"
abbreviation (input) RecFlagChunked :: u32 where "RecFlagChunked \<equiv> 4"
abbreviation (input) RecFlagCollectionOp :: u32 where "RecFlagCollectionOp \<equiv> 8"
abbreviation (input) RecFlagCollectionSnap :: u32 where "RecFlagCollectionSnap \<equiv> 16"

record RecordRow =
  rr_Flags :: u32
  rr_ValueWord :: u64
  rr_ValueLen :: u32
  rr_ExpireAt :: u64
  rr_Value :: bytes
  rr_Key :: bytes

definition zero_RecordRow :: RecordRow where
  "zero_RecordRow = \<lparr>rr_Flags = 0, rr_ValueWord = 0, rr_ValueLen = 0, rr_ExpireAt = 0, rr_Value = [], rr_Key = []\<rparr>"

definition framePayload :: "u32 \<Rightarrow> bool" where
  "framePayload flags \<longleftrightarrow> flags AND (RecFlagInline OR RecFlagCollectionOp OR RecFlagCollectionSnap) \<noteq> 0"

record RecordFrame =
  rf_FrameOff :: u64
  rf_BodyOff :: u64
  rf_BodyLen :: u32
  rf_CRC :: u32

definition AppendRecordFrame :: "bytes \<Rightarrow> RecordRow \<Rightarrow> bytes \<times> RecordFrame" where
  "AppendRecordFrame dst row =
    (let frameOff = length dst;
         inline = framePayload (rr_Flags row);
         chunked = rr_Flags row AND RecFlagChunked \<noteq> 0;
         plenBuf = if chunked then PutUvarint (of_nat (length (rr_Value row))) else [];
         valLen = if chunked \<or> inline then length (rr_Value row) else 0;
         bodyLen = recRowHdr + length plenBuf + valLen + length (rr_Key row);
         dst = dst @ PutUvarint (of_nat bodyLen);
         bodyOff = length dst;
         fixed = replicate recRowHdr 0;
         fixed = PutUint32 fixed 0 (rr_Flags row);
         fixed = PutUint64 fixed 4 (rr_ValueWord row);
         fixed = PutUint32 fixed 12 (rr_ValueLen row);
         fixed = PutUint64 fixed 16 (rr_ExpireAt row);
         dst = dst @ fixed;
         dst = (if chunked then dst @ plenBuf @ rr_Value row
                else if inline then dst @ rr_Value row else dst);
         dst = dst @ rr_Key row;
         body = sub dst bodyOff bodyLen;
         crc = crc32c [body];
         cb = PutUint32 (replicate 4 0) 0 crc
     in (dst @ cb, \<lparr>rf_FrameOff = of_nat frameOff, rf_BodyOff = of_nat bodyOff,
           rf_BodyLen = of_nat bodyLen, rf_CRC = crc\<rparr>))"

definition ParseRecordBody :: "bytes \<Rightarrow> err + RecordRow" where
  "ParseRecordBody body =
    (if length body < recRowHdr then Inl ErrShort
     else
       let row = zero_RecordRow\<lparr>rr_Flags := Uint32 body 0, rr_ValueWord := Uint64 body 4,
             rr_ValueLen := Uint32 body 12, rr_ExpireAt := Uint64 body 16\<rparr>;
           tail = drop recRowHdr body in
       if framePayload (rr_Flags row) then
         (if unat (rr_ValueLen row) > length tail then Inl ErrLength
          else bindE (slice tail 0 (unat (rr_ValueLen row))) (\<lambda>v.
               bindE (slice tail (unat (rr_ValueLen row)) (length tail)) (\<lambda>k.
                 Inr (row\<lparr>rr_Value := v, rr_Key := k\<rparr>))))
       else if rr_Flags row AND RecFlagChunked \<noteq> 0 then
         (let (plen, adv) = Uvarint tail in
          if adv \<le> 0 \<or> unat plen > length tail - nat adv then Inl ErrLength
          else bindE (slice tail (nat adv) (nat adv + unat plen)) (\<lambda>v.
               bindE (slice tail (nat adv + unat plen) (length tail)) (\<lambda>k.
                 Inr (row\<lparr>rr_Value := v, rr_Key := k\<rparr>))))
       else Inr (row\<lparr>rr_Key := tail\<rparr>))"

text \<open>NextRecordFrame drops the error of ParseRecordBody: the row is then the zero row.\<close>

definition NextRecordFrame :: "bytes \<Rightarrow> nat \<Rightarrow> err + (RecordFrame \<times> RecordRow) \<times> nat" where
  "NextRecordFrame payload off =
    (if \<not> go_slice payload then Inl Panic
     else if off \<ge> length payload then Inl ErrShort
     else let (bl, adv) = Uvarint (drop off payload) in
       if adv \<le> 0 then Inl ErrLength
       else if unat bl < recRowHdr \<or> unat bl > length payload then Inl ErrShort
       else let bodyOff = add64 off (nat adv); bodyEnd = add64 bodyOff (unat bl) in
         if add64 bodyEnd 4 > length payload then Inl ErrShort
         else bindE (slice payload bodyOff bodyEnd) (\<lambda>body.
           bindE (slice payload bodyEnd (add64 bodyEnd 4)) (\<lambda>cb.
             let crc = Uint32 cb 0 in
             if crc32c [body] \<noteq> crc then Inl ErrChecksum
             else let row = (case ParseRecordBody body of Inl _ \<Rightarrow> zero_RecordRow | Inr row \<Rightarrow> row)
             in Inr ((\<lparr>rf_FrameOff = of_nat off, rf_BodyOff = of_nat bodyOff,
                        rf_BodyLen = ucast bl, rf_CRC = crc\<rparr>, row), add64 bodyEnd 4))))"

section \<open>collectionlog.go\<close>

datatype CollKind = CollKind (coll_byte: byte)

abbreviation (input) CollKindSet :: CollKind where "CollKindSet \<equiv> CollKind 1"
abbreviation (input) CollKindZset :: CollKind where "CollKindZset \<equiv> CollKind 2"
abbreviation (input) CollKindList :: CollKind where "CollKindList \<equiv> CollKind 3"
abbreviation (input) CollKindHash :: CollKind where "CollKindHash \<equiv> CollKind 4"
abbreviation (input) CollKindStream :: CollKind where "CollKindStream \<equiv> CollKind 5"

record CollOpRow =
  op_Kind :: CollKind
  op_Op :: byte
  op_SubKey :: bytes
  op_SubValue :: bytes

definition AppendCollOp :: "bytes \<Rightarrow> CollOpRow \<Rightarrow> bytes" where
  "AppendCollOp dst row =
    (let dst = dst @ [coll_byte (op_Kind row), op_Op row];
         dst = dst @ PutUvarint (of_nat (length (op_SubKey row)));
         dst = dst @ op_SubKey row
     in dst @ op_SubValue row)"

definition ParseCollOp :: "bytes \<Rightarrow> err + CollOpRow" where
  "ParseCollOp payload =
    (if length payload < 2 then Inl ErrShort
     else let rest = drop 2 payload; (klen, adv) = Uvarint rest in
       if adv \<le> 0 then Inl ErrLength
       else let rest = drop (nat adv) rest in
         if unat klen > length rest then Inl ErrLength
         else bindE (slice rest 0 (unat klen)) (\<lambda>sk.
              bindE (slice rest (unat klen) (length rest)) (\<lambda>sv.
                Inr \<lparr>op_Kind = CollKind (byte_at payload 0), op_Op = byte_at payload 1,
                     op_SubKey = sk, op_SubValue = sv\<rparr>)))"

record CollSnapRow =
  sn_Kind :: CollKind
  sn_Header :: bytes
  sn_ElementRun :: bytes

definition AppendCollSnap :: "bytes \<Rightarrow> CollSnapRow \<Rightarrow> bytes" where
  "AppendCollSnap dst row =
    (let dst = dst @ [coll_byte (sn_Kind row)];
         dst = dst @ PutUvarint (of_nat (length (sn_Header row)));
         dst = dst @ sn_Header row
     in dst @ sn_ElementRun row)"

definition ParseCollSnap :: "bytes \<Rightarrow> err + CollSnapRow" where
  "ParseCollSnap payload =
    (if length payload < 1 then Inl ErrShort
     else let rest = drop 1 payload; (hlen, adv) = Uvarint rest in
       if adv \<le> 0 then Inl ErrLength
       else let rest = drop (nat adv) rest in
         if unat hlen > length rest then Inl ErrLength
         else bindE (slice rest 0 (unat hlen)) (\<lambda>hd'.
              bindE (slice rest (unat hlen) (length rest)) (\<lambda>run.
                Inr \<lparr>sn_Kind = CollKind (byte_at payload 0), sn_Header = hd', sn_ElementRun = run\<rparr>)))"

section \<open>coldregion.go: the frame boundary\<close>

definition coldFrameTotal :: "bytes \<Rightarrow> nat \<Rightarrow> err + nat" where
  "coldFrameTotal payload off =
    (if add64 off 4 > length payload then Inl ErrShort
     else bindE (slice payload off (length payload)) (\<lambda>b.
       if length b < 4 then Inl Panic else Inr (unat (Uint32 b 0))))"

text \<open>One round of the loop of WalkColdFrames.\<close>

definition next_cold :: "bytes \<Rightarrow> nat \<Rightarrow> err + (nat \<times> bytes) \<times> nat" where
  "next_cold payload cur =
    (if \<not> go_slice payload then Inl Panic
     else bindE (coldFrameTotal payload cur) (\<lambda>total.
       if total < 4 \<or> add64 cur total > length payload then Inl ErrShort
       else bindE (slice payload cur (add64 cur total)) (\<lambda>fr. Inr ((cur, fr), add64 cur total))))"

section \<open>The walk loops\<close>

lemma Uvarint_in_payload:
  assumes "Uvarint (drop off pl) = (l, adv)" "off < length pl" "0 < adv"
  shows "off + nat adv \<le> length pl" "0 < nat adv"
  using Uvarint_bound [OF assms(1)] assms(2,3) by simp_all

text \<open>Past their guards the readers form no sum that wraps.\<close>

lemma NextValueFrame_unfold:
  assumes "go_slice payload"
  shows "NextValueFrame payload off =
    (if off \<ge> length payload then Inl ErrShort
     else let (n, adv) = Uvarint (drop off payload) in
       if adv \<le> 0 then Inl ErrLength
       else let valueOff = off + nat adv in
         if unat n > length payload \<or> valueOff + unat n + 4 > length payload then Inl ErrShort
         else let e = valueOff + unat n in
           bindE (slice payload valueOff e) (\<lambda>val.
           bindE (slice payload e (e + 4)) (\<lambda>cb.
             let crc = Uint32 cb 0 in
             if crc32c [val] \<noteq> crc then Inl ErrChecksum
             else Inr ((\<lparr>vf_FrameOff = of_nat off, vf_ValueOff = of_nat valueOff,
                          vf_ValueLen = ucast n, vf_CRC = crc\<rparr>, val), e + 4))))"
proof -
  obtain n adv where v: "Uvarint (drop off payload) = (n, adv)" by force
  show ?thesis
  proof (cases "off < length payload \<and> 0 < adv")
    case True
    have o: "off + nat adv \<le> length payload" using Uvarint_in_payload(1) [OF v] True by simp
    have a: "add64 off (nat adv) = off + nat adv" using frame_sums(1) [OF assms, of off "nat adv"] o by simp
    show ?thesis
    proof (cases "unat n \<le> length payload")
      case n: True
      show ?thesis using assms True by (simp add: NextValueFrame_def v a Let_def frame_sums [OF assms o n])
    qed (use assms True in \<open>simp add: NextValueFrame_def v\<close>)
  qed (use assms in \<open>auto simp: NextValueFrame_def v\<close>)
qed

lemma NextRecordFrame_unfold:
  assumes "go_slice payload"
  shows "NextRecordFrame payload off =
    (if off \<ge> length payload then Inl ErrShort
     else let (bl, adv) = Uvarint (drop off payload) in
       if adv \<le> 0 then Inl ErrLength
       else if unat bl < recRowHdr \<or> unat bl > length payload then Inl ErrShort
       else let bodyOff = off + nat adv in
         if bodyOff + unat bl + 4 > length payload then Inl ErrShort
         else bindE (slice payload bodyOff (bodyOff + unat bl)) (\<lambda>body.
           bindE (slice payload (bodyOff + unat bl) (bodyOff + unat bl + 4)) (\<lambda>cb.
             let crc = Uint32 cb 0 in
             if crc32c [body] \<noteq> crc then Inl ErrChecksum
             else let row = (case ParseRecordBody body of Inl _ \<Rightarrow> zero_RecordRow | Inr row \<Rightarrow> row)
             in Inr ((\<lparr>rf_FrameOff = of_nat off, rf_BodyOff = of_nat bodyOff,
                        rf_BodyLen = ucast bl, rf_CRC = crc\<rparr>, row), bodyOff + unat bl + 4))))"
proof -
  obtain bl adv where v: "Uvarint (drop off payload) = (bl, adv)" by force
  show ?thesis
  proof (cases "off < length payload \<and> 0 < adv")
    case True
    have o: "off + nat adv \<le> length payload" using Uvarint_in_payload(1) [OF v] True by simp
    have a: "add64 off (nat adv) = off + nat adv" using frame_sums(1) [OF assms, of off "nat adv"] o by simp
    show ?thesis
    proof (cases "unat bl \<le> length payload")
      case n: True
      show ?thesis using assms True by (simp add: NextRecordFrame_def v a Let_def frame_sums [OF assms o n])
    qed (use assms True in \<open>simp add: NextRecordFrame_def v\<close>)
  qed (use assms in \<open>auto simp: NextRecordFrame_def v\<close>)
qed

lemma next_cold_unfold:
  assumes "go_slice payload" "cur \<le> length payload"
  shows "next_cold payload cur =
    (if cur + 4 > length payload then Inl ErrShort
     else let total = unat (Uint32 (drop cur payload) 0) in
       if total < 4 \<or> cur + total > length payload then Inl ErrShort
       else Inr ((cur, sub payload cur total), cur + total))"
proof -
  have t: "add64 cur (unat (w :: u32)) = cur + unat w" for w
    using assms unsigned_less [of w, where 'a = nat] by (intro add64_ok) (simp add: go_slice_def maxAlloc_def)
  have "sub payload cur (length payload - cur) = drop cur payload" by (simp add: sub_def)
  then show ?thesis using assms frame_sums(3) [OF assms(1,2), of 0] t
    by (cases "cur + 4 \<le> length payload") (auto simp: next_cold_def coldFrameTotal_def Let_def)
qed

lemma reader_go_slice:
  "NextValueFrame pl off = Inr x \<Longrightarrow> go_slice pl" "NextRecordFrame pl off = Inr y \<Longrightarrow> go_slice pl" "next_cold pl off = Inr z \<Longrightarrow> go_slice pl"
  by (auto simp: NextValueFrame_def NextRecordFrame_def next_cold_def split: if_splits)

lemma NextValueFrame_gt: "NextValueFrame pl off = Inr (x, n) \<Longrightarrow> off < n \<and> n \<le> length pl"
  by (frule reader_go_slice) (auto simp: NextValueFrame_unfold Let_def split: prod.splits if_splits)

lemma NextRecordFrame_gt: "NextRecordFrame pl off = Inr (x, n) \<Longrightarrow> off < n \<and> n \<le> length pl"
  by (frule reader_go_slice) (auto simp: NextRecordFrame_unfold Let_def split: prod.splits if_splits)

lemma next_cold_gt: "off < length pl \<Longrightarrow> next_cold pl off = Inr (x, n) \<Longrightarrow> off < n \<and> n \<le> length pl"
  by (frule reader_go_slice(3)) (auto simp: next_cold_unfold Let_def split: if_splits)

function value_loop :: "('s \<Rightarrow> ValueFrame \<times> bytes \<Rightarrow> 's \<times> err option) \<Rightarrow> bytes \<Rightarrow> nat \<Rightarrow> 's \<Rightarrow> 's \<times> err option" where
  "value_loop visit payload cur s =
    (if cur < length payload then
       (case NextValueFrame payload cur of
          Inl e \<Rightarrow> (s, Some e)
        | Inr (fr, nxt) \<Rightarrow>
           (case visit s fr of (s', Some e) \<Rightarrow> (s', Some e) | (s', None) \<Rightarrow> value_loop visit payload nxt s'))
     else (s, None))"
  by pat_completeness auto
termination by (relation "measure (\<lambda>(v, pl, cur, s). length pl - cur)") (auto dest: NextValueFrame_gt)

function record_loop :: "('s \<Rightarrow> RecordFrame \<times> RecordRow \<Rightarrow> 's \<times> err option) \<Rightarrow> bytes \<Rightarrow> nat \<Rightarrow> 's \<Rightarrow> 's \<times> err option" where
  "record_loop visit payload cur s =
    (if cur < length payload then
       (case NextRecordFrame payload cur of
          Inl e \<Rightarrow> (s, Some e)
        | Inr (fr, nxt) \<Rightarrow>
           (case visit s fr of (s', Some e) \<Rightarrow> (s', Some e) | (s', None) \<Rightarrow> record_loop visit payload nxt s'))
     else (s, None))"
  by pat_completeness auto
termination by (relation "measure (\<lambda>(v, pl, cur, s). length pl - cur)") (auto dest: NextRecordFrame_gt)

function cold_loop :: "('s \<Rightarrow> nat \<times> bytes \<Rightarrow> 's \<times> err option) \<Rightarrow> bytes \<Rightarrow> nat \<Rightarrow> 's \<Rightarrow> 's \<times> err option" where
  "cold_loop visit payload cur s =
    (if cur < length payload then
       (case next_cold payload cur of
          Inl e \<Rightarrow> (s, Some e)
        | Inr (fr, nxt) \<Rightarrow>
           (case visit s fr of (s', Some e) \<Rightarrow> (s', Some e) | (s', None) \<Rightarrow> cold_loop visit payload nxt s'))
     else (s, None))"
  by pat_completeness auto
termination by (relation "measure (\<lambda>(v, pl, cur, s). length pl - cur)") (auto dest: next_cold_gt)

declare value_loop.simps [simp del] record_loop.simps [simp del] cold_loop.simps [simp del]

end
