(* ===== verification/FrameWalks.thy ===== *)
theory FrameWalks
  imports LogFrames
begin

unbundle bit_operations_syntax

text \<open>
  Round trips of the frame codecs and the walk over a run of frames.  frame_log is
  interpreted by the value, the record and the cold frames.
\<close>

section \<open>The contract of a framed log\<close>

fun visit_list :: "('s \<Rightarrow> 'f \<Rightarrow> 's \<times> err option) \<Rightarrow> 'f list \<Rightarrow> 's \<Rightarrow> 's \<times> err option" where
  "visit_list visit [] s = (s, None)"
| "visit_list visit (x # xs) s =
     (case visit s x of (s', Some e) \<Rightarrow> (s', Some e) | (s', None) \<Rightarrow> visit_list visit xs s')"

text \<open>What a reader reports of the frames of items laid out one behind the other from off.\<close>

fun placed :: "('a \<Rightarrow> bytes) \<Rightarrow> (nat \<Rightarrow> 'a \<Rightarrow> 'f) \<Rightarrow> nat \<Rightarrow> 'a list \<Rightarrow> 'f list" where
  "placed enc info off [] = []"
| "placed enc info off (a # as) = info off a # placed enc info (off + length (enc a)) as"

locale frame_log =
  fixes enc :: "'a \<Rightarrow> bytes" and ok :: "'a \<Rightarrow> bool" and info :: "nat \<Rightarrow> 'a \<Rightarrow> 'f"
    and nextf :: "bytes \<Rightarrow> nat \<Rightarrow> err + 'f \<times> nat"
    and walk :: "('s \<Rightarrow> 'f \<Rightarrow> 's \<times> err option) \<Rightarrow> bytes \<Rightarrow> nat \<Rightarrow> 's \<Rightarrow> 's \<times> err option"
  assumes enc_pos: "ok a \<Longrightarrow> enc a \<noteq> []"
    and next_frame: "ok a \<Longrightarrow> go_slice (pre @ enc a @ post) \<Longrightarrow>
      nextf (pre @ enc a @ post) (length pre) = Inr (info (length pre) a, length pre + length (enc a))"
    and walk_step: "walk visit payload cur s =
      (if cur < length payload then
         (case nextf payload cur of
            Inl e \<Rightarrow> (s, Some e)
          | Inr (fr, nxt) \<Rightarrow>
             (case visit s fr of (s', Some e) \<Rightarrow> (s', Some e) | (s', None) \<Rightarrow> walk visit payload nxt s'))
       else (s, None))"
begin

text \<open>Past the frames of a run the walk goes on at whatever follows them.\<close>

lemma walk_run:
  assumes "list_all ok as" "go_slice (pre @ concat (map enc as) @ post)"
  shows "walk visit (pre @ concat (map enc as) @ post) (length pre) s =
    (case visit_list visit (placed enc info (length pre) as) s of
       (s', Some e) \<Rightarrow> (s', Some e)
     | (s', None) \<Rightarrow> walk visit (pre @ concat (map enc as) @ post) (length pre + length (concat (map enc as))) s')"
  using assms
proof (induction as arbitrary: pre s)
  case Nil
  then show ?case by simp
next
  case (Cons a as)
  then have a: "ok a" "list_all ok as" by simp_all
  let ?pl = "pre @ concat (map enc (a # as)) @ post"
  have pl: "?pl = pre @ enc a @ (concat (map enc as) @ post)" "?pl = (pre @ enc a) @ concat (map enc as) @ post"
    by simp_all
  have lt: "length pre < length ?pl" using enc_pos [OF a(1)] by simp
  have n: "nextf ?pl (length pre) = Inr (info (length pre) a, length (pre @ enc a))"
    using next_frame [OF a(1), of pre "concat (map enc as) @ post"] Cons.prems(2) by simp
  obtain s' eo where v: "visit s (info (length pre) a) = (s', eo)" by force
  have w: "walk visit ?pl (length pre) s =
      (case eo of Some e \<Rightarrow> (s', Some e) | None \<Rightarrow> walk visit ?pl (length (pre @ enc a)) s')"
    by (subst walk_step) (simp only: lt n v if_True sum.case prod.case split: option.splits)
  note ih = Cons.IH [OF a(2), of "pre @ enc a" s', folded pl(2), OF Cons.prems(2)]
  show ?case
  proof (cases eo)
    case None
    show ?thesis by (simp only: w None option.case ih) (simp add: v None add.assoc split: prod.splits option.splits)
  next
    case (Some e)
    show ?thesis by (simp only: w Some option.case) (simp add: v Some)
  qed
qed

lemma walk_all:
  assumes "list_all ok as" "go_slice (concat (map enc as))"
  shows "walk visit (concat (map enc as)) 0 s = visit_list visit (placed enc info 0 as) s"
proof -
  have stop: "walk visit (concat (map enc as)) (length (concat (map enc as))) s' = (s', None)" for s'
    by (subst walk_step) simp
  show ?thesis using walk_run [OF assms(1), of "[]" "[]" visit s] assms(2)
    by (simp add: stop split: prod.splits option.splits)
qed

text \<open>A run followed by bytes that do not parse is visited up to them, then the walk fails.\<close>

lemma walk_cut:
  assumes "list_all ok as" "post \<noteq> []" "go_slice (concat (map enc as) @ post)"
    and "nextf (concat (map enc as) @ post) (length (concat (map enc as))) = Inl e"
  shows "walk visit (concat (map enc as) @ post) 0 s =
    (case visit_list visit (placed enc info 0 as) s of (s', Some x) \<Rightarrow> (s', Some x) | (s', None) \<Rightarrow> (s', Some e))"
proof -
  have stop: "walk visit (concat (map enc as) @ post) (length (concat (map enc as))) s' = (s', Some e)" for s'
    using assms(2,4) by (subst walk_step) simp
  show ?thesis using walk_run [OF assms(1), of "[]" post visit s] assms(3)
    by (simp add: stop split: prod.splits option.splits)
qed

end

lemma length_placed [simp]: "length (placed enc info off as) = length as"
  by (induction as arbitrary: off) simp_all

lemma nth_placed:
  "i < length as \<Longrightarrow> placed enc info off as ! i = info (off + length (concat (map enc (take i as)))) (as ! i)"
  by (induction as arbitrary: off i) (auto simp: nth_Cons take_Cons add.assoc split: nat.splits)

lemma placed_append:
  "placed enc info off (as @ bs) = placed enc info off as @ placed enc info (off + length (concat (map enc as))) bs"
  by (induction as arbitrary: off) (simp_all add: add.assoc)

lemma map_placed: "map g (placed enc info off as) = placed enc (\<lambda>o' a. g (info o' a)) off as"
  by (induction as arbitrary: off) simp_all

section \<open>Value frames\<close>

definition value_bytes :: "bytes \<Rightarrow> bytes" where
  "value_bytes v = PutUvarint (of_nat (length v)) @ v @ le_bytes 4 (crc32c [v])"

definition value_loc :: "nat \<Rightarrow> bytes \<Rightarrow> ValueFrame" where
  "value_loc off v = \<lparr>vf_FrameOff = of_nat off, vf_ValueOff = of_nat (off + length (PutUvarint (of_nat (length v)))),
     vf_ValueLen = of_nat (length v), vf_CRC = crc32c [v]\<rparr>"

definition small :: "bytes \<Rightarrow> bool" where
  "small v \<longleftrightarrow> length v < 2 ^ 32"

lemma put4: "put (replicate 4 0) 0 (le_bytes 4 w) = le_bytes 4 w"
  by (simp add: put_def)

lemma AppendValueFrame_eq: "AppendValueFrame dst v = (dst @ value_bytes v, value_loc (length dst) v)"
  by (simp add: AppendValueFrame_def value_bytes_def value_loc_def Let_def PutUint32_def put4)

lemma small_unat: "small v \<Longrightarrow> unat (of_nat (length v) :: u64) = length v"
  by (simp add: small_def unat_of_nat)

lemma ucast_of_nat_u32: "ucast (of_nat n :: u64) = (of_nat n :: u32)"
  by (simp add: word_unat_eq_iff unsigned_ucast_eq unat_of_nat take_bit_eq_mod mod_mod_cancel)

lemma NextValueFrame_frame:
  assumes "small v" "go_slice (pre @ value_bytes v @ post)"
  shows "NextValueFrame (pre @ value_bytes v @ post) (length pre) =
    Inr ((value_loc (length pre) v, v), length pre + length (value_bytes v))"
proof -
  let ?n = "PutUvarint (of_nat (length v))"
  have "drop (length pre) (pre @ value_bytes v @ post) = ?n @ (v @ le_bytes 4 (crc32c [v]) @ post)"
    by (simp add: value_bytes_def)
  moreover have "?n \<noteq> []" by (rule PutUvarint_pos)
  moreover have "slice (pre @ value_bytes v @ post) (length pre + length ?n) (length pre + length ?n + length v) = Inr v"
    by (simp add: value_bytes_def sub_def)
  moreover have "slice (pre @ value_bytes v @ post) (length pre + length ?n + length v) (length pre + length ?n + length v + 4)
      = Inr (le_bytes 4 (crc32c [v]))"
    by (simp add: value_bytes_def sub_def)
  moreover have "ucast (of_nat (length v) :: u64) = (of_nat (length v) :: u32)"
    by (rule ucast_of_nat_u32)
  ultimately show ?thesis using assms
    by (simp add: NextValueFrame_unfold Uvarint_Put Let_def small_unat value_loc_def Uint32_def sub_all)
qed

interpretation vlog: frame_log value_bytes small "\<lambda>off v. (value_loc off v, v)" NextValueFrame value_loop
proof
  show "small a \<Longrightarrow> value_bytes a \<noteq> []" for a by (simp add: value_bytes_def PutUvarint_pos)
qed (rule NextValueFrame_frame value_loop.simps; assumption)+

section \<open>Record frames\<close>

definition chunked_row :: "RecordRow \<Rightarrow> bool" where
  "chunked_row row \<longleftrightarrow> rr_Flags row AND RecFlagChunked \<noteq> 0"

definition record_hdr :: "RecordRow \<Rightarrow> bytes" where
  "record_hdr row =
    PutUint64 (PutUint32 (PutUint64 (PutUint32 (replicate 24 0) 0 (rr_Flags row)) 4 (rr_ValueWord row))
      12 (rr_ValueLen row)) 16 (rr_ExpireAt row)"

definition record_tail :: "RecordRow \<Rightarrow> bytes" where
  "record_tail row =
    (if chunked_row row then PutUvarint (of_nat (length (rr_Value row))) @ rr_Value row
     else if framePayload (rr_Flags row) then rr_Value row else []) @ rr_Key row"

definition record_body :: "RecordRow \<Rightarrow> bytes" where
  "record_body row = record_hdr row @ record_tail row"

definition record_bytes :: "RecordRow \<Rightarrow> bytes" where
  "record_bytes row = PutUvarint (of_nat (length (record_body row))) @ record_body row
     @ le_bytes 4 (crc32c [record_body row])"

definition record_loc :: "nat \<Rightarrow> RecordRow \<Rightarrow> RecordFrame" where
  "record_loc off row = \<lparr>rf_FrameOff = of_nat off,
     rf_BodyOff = of_nat (off + length (PutUvarint (of_nat (length (record_body row))))),
     rf_BodyLen = of_nat (length (record_body row)), rf_CRC = crc32c [record_body row]\<rparr>"

text \<open>
  The rows the writer's contract allows: at most one kind of payload, value_len the payload
  length of an inline or collection row, no value bytes on a pointer row.
\<close>

definition wf_row :: "RecordRow \<Rightarrow> bool" where
  "wf_row row \<longleftrightarrow>
     \<not> (framePayload (rr_Flags row) \<and> chunked_row row)
     \<and> (framePayload (rr_Flags row) \<longrightarrow> length (rr_Value row) = unat (rr_ValueLen row))
     \<and> (\<not> framePayload (rr_Flags row) \<longrightarrow> \<not> chunked_row row \<longrightarrow> rr_Value row = [])
     \<and> length (rr_Value row) < 2 ^ 31 \<and> length (rr_Key row) < 2 ^ 30"

lemma length_record_hdr [simp]: "length (record_hdr row) = 24"
  by (simp add: record_hdr_def PutUint32_def PutUint64_def)

lemma record_hdr_fields:
  "Uint32 (record_hdr row @ t) 0 = rr_Flags row" "Uint64 (record_hdr row @ t) 4 = rr_ValueWord row"
  "Uint32 (record_hdr row @ t) 12 = rr_ValueLen row" "Uint64 (record_hdr row @ t) 16 = rr_ExpireAt row"
  by (simp_all add: record_hdr_def int_layout_defs layout_simps)

lemma AppendRecordFrame_eq: "AppendRecordFrame dst row = (dst @ record_bytes row, record_loc (length dst) row)"
proof -
  have fold_hdr: "PutUint64 (PutUint32 (PutUint64 (PutUint32 (replicate 24 0) 0 (rr_Flags row)) 4 (rr_ValueWord row))
      12 (rr_ValueLen row)) 16 (rr_ExpireAt row) = record_hdr row"
    by (simp add: record_hdr_def)
  have sub_body: "sub ((dst @ p) @ x) (length (dst @ p)) (length x) = x" for p x :: bytes
    by (simp add: sub_def)
  show ?thesis
    unfolding AppendRecordFrame_def Let_def fold_hdr
    by (cases "chunked_row row"; cases "framePayload (rr_Flags row)")
      (simp_all add: chunked_row_def record_bytes_def record_loc_def record_body_def record_tail_def
        PutUint32_def put4 sub_def add.commute add.left_commute)
qed

lemma wf_row_len: "wf_row row \<Longrightarrow> length (record_body row) < 2 ^ 32"
  using length_PutUvarint [of "of_nat (length (rr_Value row))"]
  by (auto simp: wf_row_def record_body_def record_tail_def)

lemma ParseRecordBody_body:
  assumes "wf_row row" shows "ParseRecordBody (record_body row) = Inr row"
proof -
  have row: "zero_RecordRow\<lparr>rr_Flags := rr_Flags row, rr_ValueWord := rr_ValueWord row, rr_ValueLen := rr_ValueLen row,
      rr_ExpireAt := rr_ExpireAt row, rr_Value := rr_Value row, rr_Key := rr_Key row\<rparr> = row"
    "rr_Value row = [] \<Longrightarrow> zero_RecordRow\<lparr>rr_Flags := rr_Flags row, rr_ValueWord := rr_ValueWord row, rr_ValueLen := rr_ValueLen row,
      rr_ExpireAt := rr_ExpireAt row, rr_Key := rr_Key row\<rparr> = row"
    by (simp_all add: zero_RecordRow_def)
  have u: "unat (of_nat (length (rr_Value row)) :: u64) = length (rr_Value row)"
    using assms by (simp add: wf_row_def unat_of_nat)
  have pos: "0 < length (PutUvarint w)" for w using PutUvarint_pos by simp
  show ?thesis
  proof (cases "framePayload (rr_Flags row)")
    case True
    then have "\<not> chunked_row row" "length (rr_Value row) = unat (rr_ValueLen row)"
      using assms by (auto simp: wf_row_def)
    then show ?thesis using True row(1)
      by (simp add: ParseRecordBody_def record_body_def record_hdr_fields record_tail_def Let_def sub_def
          flip: \<open>length (rr_Value row) = unat (rr_ValueLen row)\<close>)
  next
    case False
    show ?thesis
    proof (cases "chunked_row row")
      case True
      then show ?thesis using False row(1) pos [of "of_nat (length (rr_Value row))"]
        by (simp add: ParseRecordBody_def record_body_def record_hdr_fields record_tail_def Let_def
            Uvarint_Put u sub_def PutUvarint_pos flip: chunked_row_def)
    next
      case nc: False
      then show ?thesis using False row(2) assms
        by (simp add: ParseRecordBody_def record_body_def record_hdr_fields record_tail_def Let_def wf_row_def
            flip: chunked_row_def)
    qed
  qed
qed

lemma NextRecordFrame_body:
  assumes "length (record_body row) < 2 ^ 63" "go_slice (pre @ record_bytes row @ post)"
  shows "NextRecordFrame (pre @ record_bytes row @ post) (length pre) =
    Inr ((record_loc (length pre) row,
          case ParseRecordBody (record_body row) of Inl _ \<Rightarrow> zero_RecordRow | Inr r \<Rightarrow> r),
         length pre + length (record_bytes row))"
proof -
  let ?b = "record_body row" and ?n = "PutUvarint (of_nat (length (record_body row)))"
  have u: "unat (of_nat (length ?b) :: u64) = length ?b" using assms by (simp add: unat_of_nat)
  have "drop (length pre) (pre @ record_bytes row @ post) = ?n @ (?b @ le_bytes 4 (crc32c [?b]) @ post)"
    by (simp add: record_bytes_def)
  moreover have "?n \<noteq> []" by (rule PutUvarint_pos)
  moreover have "slice (pre @ record_bytes row @ post) (length pre + length ?n) (length pre + length ?n + length ?b) = Inr ?b"
    by (simp add: record_bytes_def sub_def)
  moreover have "slice (pre @ record_bytes row @ post) (length pre + length ?n + length ?b) (length pre + length ?n + length ?b + 4)
      = Inr (le_bytes 4 (crc32c [?b]))"
    by (simp add: record_bytes_def sub_def)
  moreover have "24 \<le> length ?b" by (simp add: record_body_def)
  moreover have "length (record_bytes row) = length ?n + length ?b + 4" by (simp add: record_bytes_def)
  ultimately show ?thesis unfolding NextRecordFrame_unfold [OF assms(2)]
    by (simp add: Uvarint_Put u record_loc_def ucast_of_nat_u32 Uint32_def sub_all)
qed

lemma NextRecordFrame_frame:
  "wf_row row \<Longrightarrow> go_slice (pre @ record_bytes row @ post) \<Longrightarrow> NextRecordFrame (pre @ record_bytes row @ post) (length pre) =
    Inr ((record_loc (length pre) row, row), length pre + length (record_bytes row))"
  using wf_row_len [of row] by (simp add: NextRecordFrame_body ParseRecordBody_body)

interpretation rlog: frame_log record_bytes wf_row "\<lambda>off row. (record_loc off row, row)" NextRecordFrame record_loop
proof
  show "wf_row a \<Longrightarrow> record_bytes a \<noteq> []" for a by (simp add: record_bytes_def PutUvarint_pos)
qed (rule NextRecordFrame_frame record_loop.simps; assumption)+

section \<open>Cold frames\<close>

text \<open>A cold frame starts with its own byte length.\<close>

definition cold_ok :: "bytes \<Rightarrow> bool" where
  "cold_ok fr \<longleftrightarrow> 4 \<le> length fr \<and> unat (Uint32 fr 0) = length fr"

lemma next_cold_frame:
  assumes "cold_ok fr" "go_slice (pre @ fr @ post)"
  shows "next_cold (pre @ fr @ post) (length pre) = Inr ((length pre, fr), length pre + length fr)"
proof -
  have "Uint32 (fr @ post) 0 = Uint32 fr 0"
    using assms by (simp add: cold_ok_def Uint32_def layout_simps)
  then show ?thesis using assms by (simp add: next_cold_unfold cold_ok_def sub_def)
qed

interpretation clog: frame_log "\<lambda>fr. fr" cold_ok "\<lambda>off fr. (off, fr)" next_cold cold_loop
proof
  show "cold_ok a \<Longrightarrow> a \<noteq> []" for a by (auto simp: cold_ok_def)
qed (rule next_cold_frame cold_loop.simps; assumption)+

section \<open>Collection payloads and value pointers\<close>

lemma ParseCollOp_Append:
  assumes "length (op_SubKey row) < 2 ^ 63" shows "ParseCollOp (AppendCollOp [] row) = Inr row"
  using assms PutUvarint_pos [of "of_nat (length (op_SubKey row))"]
  by (cases "op_Kind row")
    (simp add: ParseCollOp_def AppendCollOp_def Let_def Uvarint_Put unat_of_nat sub_def byte_at_def)

lemma ParseCollSnap_Append:
  assumes "length (sn_Header row) < 2 ^ 63" shows "ParseCollSnap (AppendCollSnap [] row) = Inr row"
  using assms PutUvarint_pos [of "of_nat (length (sn_Header row))"]
  by (cases "sn_Kind row")
    (simp add: ParseCollSnap_def AppendCollSnap_def Let_def Uvarint_Put unat_of_nat sub_def byte_at_def)

lemma ParseValuePointer_Marshal: "ParseValuePointer (ValuePointer_Marshal p) = Inr p"
  by (simp add: ParseValuePointer_def ValuePointer_Marshal_def Let_def int_layout_defs layout_simps)

end
