(* ===== verification/LogRegions.thy ===== *)
theory LogRegions
  imports FrameWalks Reopen
begin

unbundle bit_operations_syntax

text \<open>
  The log regions of a file: recordwriter.go, recordregion.go, valuewriter.go, valueregion.go
  and coldregion.go.  A writer stages frames in a buffer and cuts one segment for the batch;
  a point read dereferences an absolute address; a walk descends into the segments of its kind;
  compaction reads the live frames and cuts them again into a fresh segment.

  The buffer a caller lends to a read (dst) only saves an allocation and is not an
  argument here.  A writer holds its file by reference in the code; here the file is passed along.
\<close>

section \<open>Cutting one segment\<close>

definition log_pending :: "u16 \<Rightarrow> u16 \<Rightarrow> u64 \<Rightarrow> bytes \<Rightarrow> Pending" where
  "log_pending shard kind shardSeq payload = \<lparr>pe_Shard = shard, pe_Kind = kind, pe_ShardSeq = shardSeq,
     pe_PrevShardSeg = 0, pe_TTLClass = 0, pe_Flags = 0, pe_Payload = payload\<rparr>"

definition cut_log :: "File \<Rightarrow> Pending \<Rightarrow> File \<times> (err + u64)" where
  "cut_log f p =
    (case AppendGroup f [p] of
       (f, offs, Some e) \<Rightarrow> (f, Inl e)
     | (f, [], None) \<Rightarrow> (f, Inl Panic)
     | (f, off # _, None) \<Rightarrow> (f, Inr (off + SegHeaderLen)))"

section \<open>recordwriter.go\<close>

record RecordLogWriter =
  rw_shard :: u16
  rw_pending :: bytes
  rw_frames :: "RecordFrame list"

definition NewRecordLogWriter :: "u16 \<Rightarrow> RecordLogWriter" where
  "NewRecordLogWriter shard = \<lparr>rw_shard = shard, rw_pending = [], rw_frames = []\<rparr>"

definition RecordLogWriter_Stage :: "RecordLogWriter \<Rightarrow> RecordRow \<Rightarrow> RecordLogWriter \<times> nat" where
  "RecordLogWriter_Stage w row =
    (let (pending, fr) = AppendRecordFrame (rw_pending w) row
     in (w\<lparr>rw_pending := pending, rw_frames := rw_frames w @ [fr]\<rparr>, length (rw_frames w)))"

definition RecordLogWriter_Staged :: "RecordLogWriter \<Rightarrow> nat" where
  "RecordLogWriter_Staged w = length (rw_frames w)"

definition RecordLogWriter_PendingBytes :: "RecordLogWriter \<Rightarrow> nat" where
  "RecordLogWriter_PendingBytes w = length (rw_pending w)"

definition RecordLogWriter_ReadStaged :: "RecordLogWriter \<Rightarrow> int \<Rightarrow> err + RecordRow" where
  "RecordLogWriter_ReadStaged w idx =
    (if idx < 0 \<or> nat idx \<ge> length (rw_frames w) then Inl ErrShort
     else let fr = rw_frames w ! nat idx
       in bindE (slice (rw_pending w) (unat (rf_BodyOff fr)) (unat (rf_BodyOff fr + ucast (rf_BodyLen fr)))) ParseRecordBody)"

definition RecordLogWriter_Seal :: "RecordLogWriter \<Rightarrow> RecordLogWriter \<times> bytes \<times> RecordFrame list" where
  "RecordLogWriter_Seal w =
    (if rw_frames w = [] then (w, [], [])
     else (w\<lparr>rw_pending := [], rw_frames := []\<rparr>, rw_pending w, rw_frames w))"

definition RecordLogWriter_Flush :: "File \<Rightarrow> RecordLogWriter \<Rightarrow> u64 \<Rightarrow> File \<times> RecordLogWriter \<times> (err + u64 list)" where
  "RecordLogWriter_Flush f w shardSeq =
    (if rw_frames w = [] then (f, w, Inr [])
     else case cut_log f (log_pending (rw_shard w) KindLog shardSeq (rw_pending w)) of
       (f, Inl e) \<Rightarrow> (f, w, Inl e)
     | (f, Inr base) \<Rightarrow> (f, w\<lparr>rw_pending := [], rw_frames := []\<rparr>, Inr (map (\<lambda>fr. base + rf_FrameOff fr) (rw_frames w))))"

section \<open>recordregion.go\<close>

definition record_visitor :: "('s \<Rightarrow> u64 \<Rightarrow> RecordRow \<Rightarrow> 's \<times> err option) \<Rightarrow> (SegHeader \<Rightarrow> bool) \<Rightarrow> 's visitor" where
  "record_visitor visit sel s off h payload =
    (if \<not> sel h then (s, None)
     else record_loop (\<lambda>s (fr, row). visit s (off + SegHeaderLen + rf_FrameOff fr) row) payload 0 s)"

definition WalkRecords :: "File \<Rightarrow> u64 \<Rightarrow> ('s \<Rightarrow> u64 \<Rightarrow> RecordRow \<Rightarrow> 's \<times> err option) \<Rightarrow> 's \<Rightarrow> 's \<times> err option" where
  "WalkRecords f from' visit s =
    snd (ReplayTail (f_dev f) (f_prefix f) from' (f_cursor f)
      (record_visitor visit (\<lambda>h. sh_Kind h = KindLog)) s)"

definition WalkShardRecords ::
  "File \<Rightarrow> u16 \<Rightarrow> u64 \<Rightarrow> ('s \<Rightarrow> u64 \<Rightarrow> RecordRow \<Rightarrow> 's \<times> err option) \<Rightarrow> 's \<Rightarrow> 's \<times> err option" where
  "WalkShardRecords f shard from' visit s =
    snd (ReplayTail (f_dev f) (f_prefix f) from' (f_cursor f)
      (record_visitor visit (\<lambda>h. sh_Kind h = KindLog \<and> sh_Shard h = shard)) s)"

definition ReadRecordAt :: "File \<Rightarrow> u64 \<Rightarrow> err + RecordRow" where
  "ReadRecordAt f addr =
    (case ReadAt (f_dev f) addr MaxVarintLen64 of (hb, eo) \<Rightarrow>
     if hb = [] then
       (case eo of None \<Rightarrow> Inl ErrShort | Some e \<Rightarrow> if e = EOF then Inl ErrShort else Inl e)
     else let (bl, adv) = Uvarint hb in
       if adv \<le> 0 \<or> bl < recRowHdr then Inl ErrLength
       else bindE (make_bytes (bl + 4)) (\<lambda>buf.
         bindE (read_full (f_dev f) (addr + of_int adv) (length buf)) (\<lambda>buf.
         bindE (slice buf 0 (unat bl)) (\<lambda>body.
         bindE (slice buf (unat bl) (unat (bl + 4))) (\<lambda>cb.
           if crc32c [body] \<noteq> Uint32 cb 0 then Inl ErrChecksum
           else ParseRecordBody body)))))"

fun compact_records_from :: "File \<Rightarrow> bytes \<Rightarrow> u64 list \<Rightarrow> err + bytes \<times> RecordFrame list" where
  "compact_records_from f payload [] = Inr (payload, [])"
| "compact_records_from f payload (addr # live) =
    bindE (ReadRecordAt f addr) (\<lambda>row.
      let (payload, fr) = AppendRecordFrame payload row in
      bindE (compact_records_from f payload live) (\<lambda>(payload, frames). Inr (payload, fr # frames)))"

definition CompactRecords :: "File \<Rightarrow> u16 \<Rightarrow> u64 \<Rightarrow> u64 list \<Rightarrow> File \<times> (err + u64 list)" where
  "CompactRecords f shard shardSeq live =
    (if live = [] then (f, Inr [])
     else case compact_records_from f [] live of
       Inl e \<Rightarrow> (f, Inl e)
     | Inr (payload, frames) \<Rightarrow>
        (case cut_log f (log_pending shard KindLog shardSeq payload) of
           (f, Inl e) \<Rightarrow> (f, Inl e)
         | (f, Inr base) \<Rightarrow> (f, Inr (map (\<lambda>fr. base + rf_FrameOff fr) frames))))"

section \<open>valuewriter.go\<close>

record ValueLogWriter =
  vw_shard :: u16
  vw_pending :: bytes
  vw_frames :: "ValueFrame list"

definition NewValueLogWriter :: "u16 \<Rightarrow> ValueLogWriter" where
  "NewValueLogWriter shard = \<lparr>vw_shard = shard, vw_pending = [], vw_frames = []\<rparr>"

definition ValueLogWriter_Stage :: "ValueLogWriter \<Rightarrow> bytes \<Rightarrow> ValueLogWriter \<times> nat" where
  "ValueLogWriter_Stage w val =
    (let (pending, fr) = AppendValueFrame (vw_pending w) val
     in (w\<lparr>vw_pending := pending, vw_frames := vw_frames w @ [fr]\<rparr>, length (vw_frames w)))"

definition ValueLogWriter_Staged :: "ValueLogWriter \<Rightarrow> nat" where
  "ValueLogWriter_Staged w = length (vw_frames w)"

definition ValueLogWriter_PendingBytes :: "ValueLogWriter \<Rightarrow> nat" where
  "ValueLogWriter_PendingBytes w = length (vw_pending w)"

definition ValueLogWriter_ReadStaged :: "ValueLogWriter \<Rightarrow> int \<Rightarrow> err + bytes" where
  "ValueLogWriter_ReadStaged w idx =
    (if idx < 0 \<or> nat idx \<ge> length (vw_frames w) then Inl ErrShort
     else let fr = vw_frames w ! nat idx
       in slice (vw_pending w) (unat (vf_ValueOff fr)) (unat (vf_ValueOff fr + ucast (vf_ValueLen fr))))"

definition value_ptr :: "u64 \<Rightarrow> ValueFrame \<Rightarrow> ValuePointer" where
  "value_ptr base fr = \<lparr>vp_ValueOff = base + vf_ValueOff fr, vp_ValueLen = vf_ValueLen fr, vp_ValueCRC = vf_CRC fr\<rparr>"

definition ValueLogWriter_Flush :: "File \<Rightarrow> ValueLogWriter \<Rightarrow> u64 \<Rightarrow> File \<times> ValueLogWriter \<times> (err + ValuePointer list)" where
  "ValueLogWriter_Flush f w shardSeq =
    (if vw_frames w = [] then (f, w, Inr [])
     else case cut_log f (log_pending (vw_shard w) KindValueLog shardSeq (vw_pending w)) of
       (f, Inl e) \<Rightarrow> (f, w, Inl e)
     | (f, Inr base) \<Rightarrow> (f, w\<lparr>vw_pending := [], vw_frames := []\<rparr>, Inr (map (value_ptr base) (vw_frames w))))"

section \<open>valueregion.go\<close>

fun append_value_frames :: "bytes \<Rightarrow> bytes list \<Rightarrow> bytes \<times> ValueFrame list" where
  "append_value_frames payload [] = (payload, [])"
| "append_value_frames payload (v # vals) =
    (let (payload, fr) = AppendValueFrame payload v;
         (payload, frames) = append_value_frames payload vals
     in (payload, fr # frames))"

definition AppendValues :: "File \<Rightarrow> u16 \<Rightarrow> u64 \<Rightarrow> bytes list \<Rightarrow> File \<times> (err + ValuePointer list)" where
  "AppendValues f shard shardSeq vals =
    (if vals = [] then (f, Inr [])
     else let (payload, frames) = append_value_frames [] vals in
       (case cut_log f (log_pending shard KindValueLog shardSeq payload) of
          (f, Inl e) \<Rightarrow> (f, Inl e)
        | (f, Inr base) \<Rightarrow> (f, Inr (map (value_ptr base) frames))))"

definition ReadValueAt :: "File \<Rightarrow> ValuePointer \<Rightarrow> err + bytes" where
  "ReadValueAt f p =
    bindE (read_full (f_dev f) (vp_ValueOff p) (unat (vp_ValueLen p))) (\<lambda>dst.
      if crc32c [dst] \<noteq> vp_ValueCRC p then Inl ErrChecksum else Inr dst)"

fun compact_values_from :: "File \<Rightarrow> bytes \<Rightarrow> ValuePointer list \<Rightarrow> err + bytes \<times> ValueFrame list" where
  "compact_values_from f payload [] = Inr (payload, [])"
| "compact_values_from f payload (p # live) =
    bindE (ReadValueAt f p) (\<lambda>val.
      let (payload, fr) = AppendValueFrame payload val in
      bindE (compact_values_from f payload live) (\<lambda>(payload, frames). Inr (payload, fr # frames)))"

definition CompactValues :: "File \<Rightarrow> u16 \<Rightarrow> u64 \<Rightarrow> ValuePointer list \<Rightarrow> File \<times> (err + ValuePointer list)" where
  "CompactValues f shard shardSeq live =
    (if live = [] then (f, Inr [])
     else case compact_values_from f [] live of
       Inl e \<Rightarrow> (f, Inl e)
     | Inr (payload, frames) \<Rightarrow>
        (case cut_log f (log_pending shard KindValueLog shardSeq payload) of
           (f, Inl e) \<Rightarrow> (f, Inl e)
         | (f, Inr base) \<Rightarrow> (f, Inr (map (value_ptr base) frames))))"

definition value_visitor :: "('s \<Rightarrow> ValuePointer \<Rightarrow> 's \<times> err option) \<Rightarrow> 's visitor" where
  "value_visitor visit s off h payload =
    (if sh_Kind h \<noteq> KindValueLog then (s, None)
     else value_loop (\<lambda>s (fr, _). visit s (value_ptr (off + SegHeaderLen) fr)) payload 0 s)"

definition WalkValues :: "File \<Rightarrow> u64 \<Rightarrow> ('s \<Rightarrow> ValuePointer \<Rightarrow> 's \<times> err option) \<Rightarrow> 's \<Rightarrow> 's \<times> err option" where
  "WalkValues f from' visit s =
    snd (ReplayTail (f_dev f) (f_prefix f) from' (f_cursor f) (value_visitor visit) s)"

definition ReadValueFrameAt :: "File \<Rightarrow> u64 \<Rightarrow> u32 \<Rightarrow> err + bytes" where
  "ReadValueFrameAt f off valLen =
    (let need = unat valLen + 4 in
     bindE (read_full (f_dev f) off need) (\<lambda>dst.
     bindE (slice dst 0 (unat valLen)) (\<lambda>val.
     bindE (slice dst (unat valLen) need) (\<lambda>cb.
       if crc32c [val] \<noteq> Uint32 cb 0 then Inl ErrChecksum else Inr val))))"

definition ReadValueRangeAt :: "File \<Rightarrow> u64 \<Rightarrow> nat \<Rightarrow> bytes \<times> err option" where
  "ReadValueRangeAt f off n = ReadAt (f_dev f) off n"

section \<open>coldregion.go\<close>

fun pack_cold :: "bytes \<Rightarrow> bytes list \<Rightarrow> bytes \<times> u64 list" where
  "pack_cold payload [] = (payload, [])"
| "pack_cold payload (fr # frames) =
    (case pack_cold (payload @ fr) frames of (p, offs) \<Rightarrow> (p, of_nat (length payload) # offs))"

definition AppendColdFrames :: "File \<Rightarrow> u16 \<Rightarrow> u64 \<Rightarrow> bytes list \<Rightarrow> File \<times> (err + u64 list)" where
  "AppendColdFrames f shard shardSeq frames =
    (if frames = [] then (f, Inr [])
     else let (payload, offs) = pack_cold [] frames in
       (case cut_log f (log_pending shard KindColdChunk shardSeq payload) of
          (f, Inl e) \<Rightarrow> (f, Inl e)
        | (f, Inr base) \<Rightarrow> (f, Inr (map (\<lambda>o'. o' + base) offs))))"

definition ReadColdFrame :: "File \<Rightarrow> u64 \<Rightarrow> err + bytes" where
  "ReadColdFrame f off =
    bindE (read_full (f_dev f) off 4) (\<lambda>h.
      let total = unat (Uint32 h 0) in
      if total < 4 then Inl ErrLength
      else read_full (f_dev f) off total)"

definition cold_visitor :: "('s \<Rightarrow> u64 \<Rightarrow> bytes \<Rightarrow> 's \<times> err option) \<Rightarrow> 's visitor" where
  "cold_visitor visit s off h payload =
    (if sh_Kind h \<noteq> KindColdChunk then (s, None)
     else cold_loop (\<lambda>s (cur, fr). visit s (off + SegHeaderLen + of_nat cur) fr) payload 0 s)"

definition WalkColdFrames :: "File \<Rightarrow> u64 \<Rightarrow> ('s \<Rightarrow> u64 \<Rightarrow> bytes \<Rightarrow> 's \<times> err option) \<Rightarrow> 's \<Rightarrow> 's \<times> err option" where
  "WalkColdFrames f from' visit s =
    snd (ReplayTail (f_dev f) (f_prefix f) from' (f_cursor f) (cold_visitor visit) s)"

end
