(* ===== verification/RegionLemmas.thy ===== *)
theory RegionLemmas
  imports LogRegions
begin

unbundle bit_operations_syntax

text \<open>
  What the log regions rely on: a payload range reads back at its absolute address, a cut
  keeps every older segment, and the region walks visit the frames of the segments one by one.
\<close>

section \<open>Reads inside a segment\<close>

lemma file_seg:
  assumes "file_inv f ss" "(off, h, pl) \<in> set ss"
  shows "seg_at (f_dev f) 1 off h pl" "unat off + 64 + length pl \<le> length (d_data (f_dev f))"
    "readable (f_dev f)"
  using assms log_at_seg log_at_in_range by (fastforce simp: file_inv_def)+

lemma file_go_slice: "file_inv f ss \<Longrightarrow> (off, h, pl) \<in> set ss \<Longrightarrow> go_slice pl"
  using file_seg(1) by (fastforce simp: seg_at_def go_slice_def)

lemma unat_add_small: "unat (a :: u64) + n < 2 ^ 64 \<Longrightarrow> unat (a + of_nat n) = unat a + n"
  by (rule unat_seq_add)

lemma payload_addr:
  assumes "file_inv f ss" "(off, h, pl) \<in> set ss" "i \<le> length pl"
  shows "unat (off + 64 + of_nat i) = unat off + 64 + i"
proof -
  have "unat off + 64 + length pl < 2 ^ 62"
    using file_seg(2,3) [OF assms(1,2)] by (simp add: readable_def)
  then show ?thesis
    using unat_add_small [of off 64] unat_add_small [of "off + 64" i] assms(3) by simp
qed

lemma payload_read:
  assumes "file_inv f ss" "(off, h, pl) \<in> set ss" "i + n \<le> length pl"
  shows "read_full (f_dev f) (off + 64 + of_nat i) n = Inr (sub pl i n)"
proof -
  note s = file_seg [OF assms(1,2)]
  have a0: "unat (off + 64) = unat off + 64" using payload_addr [OF assms(1,2), of 0] by simp
  have a: "unat (off + 64 + of_nat i) = unat off + 64 + i" using payload_addr [OF assms(1,2)] assms(3) by simp
  have "pl = sub (d_data (f_dev f)) (unat off + 64) (length pl)"
    using s(1) a0 by (simp add: seg_at_def read_full_Inr)
  then have "sub pl i n = sub (d_data (f_dev f)) (unat off + 64 + i) n"
    using sub_sub [OF assms(3), of "d_data (f_dev f)" "unat off + 64"] by metis
  then show ?thesis using s(2,3) assms(3) a by (simp add: read_full_Inr readable_def)
qed

lemma payload_read_at:
  assumes "file_inv f ss" "(off, h, pl) \<in> set ss" "i \<le> length pl"
  shows "\<exists>ex eo. ReadAt (f_dev f) (off + 64 + of_nat i) n = (take n (drop i pl @ ex), eo)"
proof -
  note s = file_seg [OF assms(1,2)]
  have a0: "unat (off + 64) = unat off + 64" using payload_addr [OF assms(1,2), of 0] by simp
  have a: "unat (off + 64 + of_nat i) = unat off + 64 + i" using payload_addr [OF assms(1,2)] assms(3) by simp
  let ?d = "d_data (f_dev f)"
  have "pl = sub ?d (unat off + 64) (length pl)"
    using s(1) a0 by (simp add: seg_at_def read_full_Inr)
  then have "drop (unat off + 64) ?d = pl @ drop (unat off + 64 + length pl) ?d"
    unfolding sub_def by (metis add.commute append_take_drop_id drop_drop)
  moreover have "drop (unat off + 64 + i) ?d = drop i (drop (unat off + 64) ?d)" by (simp add: add.commute)
  ultimately have "drop (unat off + 64 + i) ?d = drop i pl @ drop (unat off + 64 + length pl) ?d"
    using assms(3) by simp
  then have e: "sub ?d (unat off + 64 + i) n = take n (drop i pl @ drop (unat off + 64 + length pl) ?d)"
    by (simp add: sub_def)
  have "\<not> sint (off + 64 + of_nat i) < 0" using a s(2,3) assms(3) by (simp add: sint_u64_neg readable_def)
  moreover have "\<not> d_badread (f_dev f) i' n'" for i' n' using s(3) by (simp add: readable_def)
  ultimately show ?thesis unfolding ReadAt_def Let_def a e by simp blast
qed

section \<open>Cutting a segment\<close>

definition log_seg :: "File \<Rightarrow> Pending \<Rightarrow> seg" where
  "log_seg f p = (f_cursor f, seg_hdr (f_globalSeq f + 1) p, pe_Payload p)"

lemma layout_one: "layout (f_cursor f) (f_globalSeq f) [p] = [log_seg f p]"
  by (simp add: log_seg_def)

lemma cut_ok:
  assumes inv: "file_inv f ss" and fit: "fits (f_cursor f) [p]" and seq: "unat (f_globalSeq f) + 1 < 2 ^ 64"
    and h: "healthy (f_dev f)"
  shows "\<exists>f'. cut_log f p = (f', Inr (f_cursor f + 64)) \<and> file_inv f' (ss @ [log_seg f p]) \<and> healthy (f_dev f')
    \<and> unat (f_cursor f') < 2 ^ 62"
proof -
  obtain f' offs where a: "AppendGroup f [p] = (f', offs, None)" "healthy (f_dev f')"
    using AppendGroup_healthy [OF file_inv_kind [OF inv] h fit] by blast
  note i = AppendGroup_inv [OF inv fit _ a(1), unfolded layout_one]
  have "offs = [f_cursor f]" using i(2) seq by (simp add: log_seg_def)
  moreover have "unat (f_cursor f') < 2 ^ 62"
    using i(3) seq unat_layout_end [OF fit] fit by (simp add: fits_def)
  ultimately show ?thesis using a i(1) seq by (simp add: cut_log_def)
qed

text \<open>Whatever the device does, a cut either returns the payload base or an error.\<close>

lemma cut_inv:
  assumes "file_inv f ss" "fits (f_cursor f) [p]" "unat (f_globalSeq f) + 1 < 2 ^ 64"
    and "cut_log f p = (f', Inr base)"
  shows "file_inv f' (ss @ [log_seg f p])" "base = f_cursor f + 64" "f_cursor f' = layout_end (f_cursor f) [p]"
proof -
  obtain offs where a: "AppendGroup f [p] = (f', offs, None)"
    using assms(4) by (auto simp: cut_log_def split: prod.splits option.splits list.splits)
  note i = AppendGroup_inv [OF assms(1,2) _ a, unfolded layout_one]
  show "file_inv f' (ss @ [log_seg f p])" "f_cursor f' = layout_end (f_cursor f) [p]" using i(1,3) assms(3) by simp_all
  have "offs = [f_cursor f]" using i(2) assms(3) by (simp add: log_seg_def)
  then show "base = f_cursor f + 64" using a assms(4) by (simp add: cut_log_def)
qed

section \<open>Region walks\<close>

lemma log_at_end:
  "log_at d kind c ss e \<Longrightarrow> (off, h, pl) \<in> set ss \<Longrightarrow> unat off + span (length pl) \<le> unat e"
proof (induction d kind c ss e rule: log_at.induct)
  case (2 d kind c off' h' pl' ss e)
  then have s: "seg_at d kind c h' pl'" "log_at d kind (c + SegmentSpan (of_nat (length pl'))) ss e" by auto
  have "unat (c + SegmentSpan (of_nat (length pl'))) = unat c + span (length pl')" using seg_at_end(4) [OF s(1)] .
  moreover have "unat (c + SegmentSpan (of_nat (length pl'))) \<le> unat e" using log_at_mono [OF s(2)] .
  ultimately show ?case using 2 by auto
qed simp

lemma log_at_det: "log_at d k c xs a \<Longrightarrow> log_at d k c xs b \<Longrightarrow> a = b"
  by (induction d k c xs a rule: log_at.induct) auto

lemma file_walk:
  assumes inv: "file_inv f (ss @ ts)" and c: "unat (f_cursor f) < 2 ^ 62" and st: "log_at (f_dev f) 1 16384 ss m"
  shows "ReplayTail (f_dev f) (f_prefix f) m (f_cursor f) visit s = visit_all visit s ts (f_cursor f)"
proof -
  have l: "log_at (f_dev f) 1 16384 (ss @ ts) (f_cursor f)" using inv by (simp add: file_inv_def)
  then obtain m' where m': "log_at (f_dev f) 1 16384 ss m'" "log_at (f_dev f) 1 m' ts (f_cursor f)"
    by (auto simp: log_at_append)
  have "m' = m" by (rule log_at_det [OF m'(1) st])
  then have "log_at (f_dev f) 1 m ts (f_cursor f)" using m'(2) by simp
  moreover have "tail_at (f_dev f) 1 (f_cursor f) (f_cursor f)"
  proof -
    have "unat (f_cursor f + 64) = unat (f_cursor f) + 64" using c unat_add_small [of "f_cursor f" 64] by simp
    then have "\<not> f_cursor f + 64 \<le> f_cursor f" by (simp add: word_le_nat_alt)
    then show ?thesis by (simp only: tail_at_def not_False_eq_True simp_thms)
  qed
  moreover have "\<forall>(off, h, pl) \<in> set ts. unat off + 64 + length pl \<le> unat (f_cursor f)"
  proof (clarify)
    fix off h pl assume "(off, h, pl) \<in> set ts"
    then have "unat off + span (length pl) \<le> unat (f_cursor f)" using log_at_end [OF l, of off h pl] by simp
    then show "unat off + 64 + length pl \<le> unat (f_cursor f)" using span_bounds(1) [of "length pl"] by linarith
  qed
  ultimately show ?thesis using file_inv_kind [OF inv] by (intro ReplayTail_log) simp_all
qed

lemma file_walk_all:
  "file_inv f ss \<Longrightarrow> unat (f_cursor f) < 2 ^ 62 \<Longrightarrow>
   ReplayTail (f_dev f) (f_prefix f) 16384 (f_cursor f) visit s = visit_all visit s ss (f_cursor f)"
  using file_walk [of f "[]" ss 16384 visit s] by simp

text \<open>A walk that runs a visitor over a list of items per segment visits their concatenation.\<close>

lemma visit_list_append:
  "visit_list v (xs @ ys) s =
    (case visit_list v xs s of (s', Some e) \<Rightarrow> (s', Some e) | (s', None) \<Rightarrow> visit_list v ys s')"
  by (induction xs arbitrary: s) (auto split: prod.splits option.splits)

lemma visit_all_concat:
  assumes "\<forall>(off, h, pl) \<in> set ss. \<forall>s. visit s off h pl = visit_list v (items (off, h, pl)) s"
  shows "snd (visit_all visit s ss e) = visit_list v (concat (map items ss)) s"
  using assms
proof (induction ss arbitrary: s)
  case (Cons x ss)
  obtain off h pl where x: "x = (off, h, pl)" by (cases x)
  with Cons show ?case by (auto simp: visit_list_append split: prod.splits option.splits)
qed simp

lemma visit_all_one: "snd (visit_all visit s [(off, h, pl)] e) = visit s off h pl"
  by (simp split: prod.splits option.splits)

lemma visit_list_map: "visit_list v (map g xs) s = visit_list (\<lambda>s x. v s (g x)) xs s"
  by (induction xs arbitrary: s) (auto split: prod.splits option.splits)

end
