(* ===== verification/RegionReads.thy ===== *)
theory RegionReads
  imports RegionLemmas
begin

unbundle bit_operations_syntax

text \<open>
  Point reads: a frame that lies in a segment of the file reads back at its absolute address,
  as a record, as a value (by pointer or by its own trailing CRC) or as a cold frame.  Then the
  writers: a staged batch is the concatenation of its frames, and compaction copies it.
\<close>

section \<open>Records\<close>

lemma take_prefix: "length n \<le> k \<Longrightarrow> take k (n @ x) = n @ take (k - length n) x"
  by simp

lemma ReadRecordAt_frame:
  assumes inv: "file_inv f ss" and seg: "(off, h, pl) \<in> set ss"
    and pl: "pl = pre @ record_bytes row @ post" and row: "wf_row row"
  shows "ReadRecordAt f (off + 64 + of_nat (length pre)) = Inr row"
proof -
  let ?b = "record_body row" and ?a = "off + 64 + of_nat (length pre) :: u64"
  let ?n = "PutUvarint (of_nat (length ?b))"
  have b: "length ?b < 2 ^ 32" "24 \<le> length ?b" using wf_row_len [OF row] by (simp_all add: record_body_def)
  have u: "unat (of_nat (length ?b) :: u64) = length ?b" using b by (simp add: unat_of_nat)
  have u4: "of_nat (length ?b) + (4 :: u64) = of_nat (length ?b + 4)" by simp
  have mk: "make_bytes (of_nat (length ?b) + 4) = Inr (replicate (length ?b + 4) 0)"
    "unat (of_nat (length ?b) + 4 :: u64) = length ?b + 4"
    unfolding u4 using make_bytes_of_nat [of "length ?b + 4"] b(1) by (simp_all add: maxAlloc_def)
  obtain ex eo where r: "ReadAt (f_dev f) ?a 10 = (take 10 (drop (length pre) pl @ ex), eo)"
    using payload_read_at [OF inv seg, of "length pre" 10] pl by auto
  have hb: "take 10 (drop (length pre) pl @ ex)
      = ?n @ take (10 - length ?n) (?b @ le_bytes 4 (crc32c [?b]) @ post @ ex)"
    using length_PutUvarint [of "of_nat (length ?b)"] by (simp add: pl record_bytes_def)
  have "read_full (f_dev f) (off + 64 + of_nat (length pre + length ?n)) (length ?b + 4)
      = Inr (?b @ le_bytes 4 (crc32c [?b]))"
    using payload_read [OF inv seg, of "length pre + length ?n" "length ?b + 4"]
    by (simp add: pl record_bytes_def sub_def)
  then have rd: "read_full (f_dev f) (?a + of_int (int (length ?n))) (length ?b + 4)
      = Inr (?b @ le_bytes 4 (crc32c [?b]))"
    by (simp add: add.assoc)
  have big: "\<not> of_nat (length ?b) < (24 :: u64)" using b u by (simp add: word_less_nat_alt)
  have s: "slice (?b @ le_bytes 4 (crc32c [?b])) 0 (length ?b) = Inr ?b"
    "slice (?b @ le_bytes 4 (crc32c [?b])) (length ?b) (length ?b + 4) = Inr (le_bytes 4 (crc32c [?b]))"
    by (simp_all add: sub_def)
  have ne: "?n \<noteq> []" by (rule PutUvarint_pos)
  show ?thesis
    unfolding ReadRecordAt_def r hb
    using ne big rd s by (simp add: Uvarint_Put mk u ParseRecordBody_body [OF row] Uint32_def sub_all)
qed

section \<open>Values and cold frames\<close>

lemma value_ptr_loc:
  "value_ptr base (value_loc k v) = \<lparr>vp_ValueOff = base + of_nat (k + length (PutUvarint (of_nat (length v)))),
     vp_ValueLen = of_nat (length v), vp_ValueCRC = crc32c [v]\<rparr>"
  by (simp add: value_ptr_def value_loc_def)

lemma small_unat_u32: "small v \<Longrightarrow> unat (of_nat (length v) :: u32) = length v"
  by (simp add: small_def unat_of_nat)

lemma value_frame_reads:
  assumes inv: "file_inv f ss" and seg: "(off, h, pl) \<in> set ss"
    and pl: "pl = pre @ value_bytes v @ post" and v: "small v"
  shows "ReadValueAt f (value_ptr (off + 64) (value_loc (length pre) v)) = Inr v"
    and "ReadValueFrameAt f (vp_ValueOff (value_ptr (off + 64) (value_loc (length pre) v))) (of_nat (length v)) = Inr v"
proof -
  let ?n = "PutUvarint (of_nat (length v))"
  have "read_full (f_dev f) (off + 64 + of_nat (length pre + length ?n)) (length v) = Inr v"
    using payload_read [OF inv seg, of "length pre + length ?n" "length v"] by (simp add: pl value_bytes_def sub_def)
  then show "ReadValueAt f (value_ptr (off + 64) (value_loc (length pre) v)) = Inr v"
    by (simp add: ReadValueAt_def value_ptr_loc small_unat_u32 [OF v] add.assoc)
  have "read_full (f_dev f) (off + 64 + of_nat (length pre + length ?n)) (length v + 4) = Inr (v @ le_bytes 4 (crc32c [v]))"
    using payload_read [OF inv seg, of "length pre + length ?n" "length v + 4"] by (simp add: pl value_bytes_def sub_def)
  then show "ReadValueFrameAt f (vp_ValueOff (value_ptr (off + 64) (value_loc (length pre) v))) (of_nat (length v)) = Inr v"
    by (simp add: ReadValueFrameAt_def value_ptr_loc small_unat_u32 [OF v] add.assoc Let_def sub_def Uint32_def sub_all)
qed

lemma cold_frame_reads:
  assumes inv: "file_inv f ss" and seg: "(off, h, pl) \<in> set ss"
    and pl: "pl = pre @ fr @ post" and fr: "cold_ok fr"
  shows "ReadColdFrame f (off + 64 + of_nat (length pre)) = Inr fr"
proof -
  have "read_full (f_dev f) (off + 64 + of_nat (length pre)) 4 = Inr (sub fr 0 4)"
    using payload_read [OF inv seg, of "length pre" 4] fr by (simp add: pl cold_ok_def sub_def)
  moreover have "read_full (f_dev f) (off + 64 + of_nat (length pre)) (length fr) = Inr fr"
    using payload_read [OF inv seg, of "length pre" "length fr"] by (simp add: pl sub_def)
  moreover have "Uint32 (sub fr 0 4) 0 = Uint32 fr 0" by (simp add: Uint32_def sub_sub)
  ultimately show ?thesis using fr by (simp add: ReadColdFrame_def cold_ok_def Let_def)
qed

section \<open>Writers and batches\<close>

definition record_writer_inv :: "RecordLogWriter \<Rightarrow> RecordRow list \<Rightarrow> bool" where
  "record_writer_inv w rs \<longleftrightarrow>
     rw_pending w = concat (map record_bytes rs) \<and> rw_frames w = placed record_bytes record_loc 0 rs"

definition value_writer_inv :: "ValueLogWriter \<Rightarrow> bytes list \<Rightarrow> bool" where
  "value_writer_inv w vs \<longleftrightarrow>
     vw_pending w = concat (map value_bytes vs) \<and> vw_frames w = placed value_bytes value_loc 0 vs"

lemma record_Stage_inv:
  "record_writer_inv w rs \<Longrightarrow> record_writer_inv (fst (RecordLogWriter_Stage w r)) (rs @ [r])"
  by (simp add: record_writer_inv_def RecordLogWriter_Stage_def AppendRecordFrame_eq placed_append)

lemma value_Stage_inv:
  "value_writer_inv w vs \<Longrightarrow> value_writer_inv (fst (ValueLogWriter_Stage w v)) (vs @ [v])"
  by (simp add: value_writer_inv_def ValueLogWriter_Stage_def AppendValueFrame_eq placed_append)

lemma concat_split:
  "i < length xs \<Longrightarrow> concat (map enc xs) = concat (map enc (take i xs)) @ enc (xs ! i) @ concat (map enc (drop (Suc i) xs))"
  by (subst id_take_nth_drop [of i xs]) simp_all

lemma unat_of_nat_u64: "n < 2 ^ 64 \<Longrightarrow> unat (of_nat n :: u64) = n"
  by (simp add: unat_of_nat)

lemma record_ReadStaged:
  assumes w: "record_writer_inv w rs" and ok: "list_all wf_row rs" and len: "length (rw_pending w) < 2 ^ 62" and i: "i < length rs"
  shows "RecordLogWriter_ReadStaged w (int i) = Inr (rs ! i)"
proof -
  let ?pre = "concat (map record_bytes (take i rs))" and ?post = "concat (map record_bytes (drop (Suc i) rs))"
  let ?b = "record_body (rs ! i)" let ?n = "PutUvarint (of_nat (length ?b))"
  have wf: "wf_row (rs ! i)" using ok i by (simp add: list_all_length)
  have p: "rw_pending w = ?pre @ (?n @ ?b @ le_bytes 4 (crc32c [?b])) @ ?post"
    using w concat_split [OF i, of record_bytes] by (simp add: record_writer_inv_def record_bytes_def)
  then have o: "length ?pre + length ?n + length ?b < 2 ^ 64" "length ?pre + length ?n < 2 ^ 64" using len by simp_all
  have fr: "rw_frames w ! i = record_loc (length ?pre) (rs ! i)" "i < length (rw_frames w)"
    using w i by (simp_all add: record_writer_inv_def nth_placed)
  have bl: "ucast (of_nat (length ?b) :: u32) = (of_nat (length ?b) :: u64)"
    using wf_row_len [OF wf] by (simp add: word_unat_eq_iff unsigned_ucast_eq unat_of_nat take_bit_eq_mod)
  have u: "unat (rf_BodyOff (rw_frames w ! i)) = length ?pre + length ?n"
    "unat (rf_BodyOff (rw_frames w ! i) + ucast (rf_BodyLen (rw_frames w ! i))) = length ?pre + length ?n + length ?b"
  proof -
    show "unat (rf_BodyOff (rw_frames w ! i)) = length ?pre + length ?n"
      unfolding fr(1) by (simp only: record_loc_def RecordFrame.simps unat_of_nat_u64 [OF o(2)])
    have "rf_BodyOff (rw_frames w ! i) + ucast (rf_BodyLen (rw_frames w ! i)) = of_nat (length ?pre + length ?n + length ?b)"
      by (simp add: fr(1) record_loc_def bl)
    then show "unat (rf_BodyOff (rw_frames w ! i) + ucast (rf_BodyLen (rw_frames w ! i))) = length ?pre + length ?n + length ?b"
      by (simp only: unat_of_nat_u64 [OF o(1)])
  qed
  have "slice (rw_pending w) (length ?pre + length ?n) (length ?pre + length ?n + length ?b) = Inr ?b"
    unfolding p by (simp add: sub_def)
  then show ?thesis using fr(2) by (simp add: RecordLogWriter_ReadStaged_def Let_def u ParseRecordBody_body [OF wf])
qed

lemma value_ReadStaged:
  assumes w: "value_writer_inv w vs" and ok: "list_all small vs" and len: "length (vw_pending w) < 2 ^ 62" and i: "i < length vs"
  shows "ValueLogWriter_ReadStaged w (int i) = Inr (vs ! i)"
proof -
  let ?pre = "concat (map value_bytes (take i vs))" and ?post = "concat (map value_bytes (drop (Suc i) vs))"
  let ?v = "vs ! i" let ?n = "PutUvarint (of_nat (length ?v))"
  have sm: "length ?v < 2 ^ 32" using ok i by (simp add: list_all_length small_def)
  have p: "vw_pending w = ?pre @ (?n @ ?v @ le_bytes 4 (crc32c [?v])) @ ?post"
    using w concat_split [OF i, of value_bytes] by (simp add: value_writer_inv_def value_bytes_def)
  then have o: "length ?pre + length ?n + length ?v < 2 ^ 64" "length ?pre + length ?n < 2 ^ 64" using len by simp_all
  have fr: "vw_frames w ! i = value_loc (length ?pre) ?v" "i < length (vw_frames w)"
    using w i by (simp_all add: value_writer_inv_def nth_placed)
  have bl: "ucast (of_nat (length ?v) :: u32) = (of_nat (length ?v) :: u64)"
    using sm by (simp add: word_unat_eq_iff unsigned_ucast_eq unat_of_nat take_bit_eq_mod)
  have "vf_ValueOff (vw_frames w ! i) + ucast (vf_ValueLen (vw_frames w ! i)) = of_nat (length ?pre + length ?n + length ?v)"
    by (simp add: fr(1) value_loc_def bl)
  then have u: "unat (vf_ValueOff (vw_frames w ! i) + ucast (vf_ValueLen (vw_frames w ! i))) = length ?pre + length ?n + length ?v"
    by (simp only: unat_of_nat_u64 [OF o(1)])
  have v: "unat (vf_ValueOff (vw_frames w ! i)) = length ?pre + length ?n"
    unfolding fr(1) by (simp only: value_loc_def ValueFrame.simps unat_of_nat_u64 [OF o(2)])
  have "slice (vw_pending w) (length ?pre + length ?n) (length ?pre + length ?n + length ?v) = Inr ?v"
    unfolding p by (simp add: sub_def)
  then show ?thesis using fr(2) by (simp add: ValueLogWriter_ReadStaged_def Let_def u v)
qed

lemma append_value_frames_eq:
  "append_value_frames payload vals =
    (payload @ concat (map value_bytes vals), placed value_bytes value_loc (length payload) vals)"
  by (induction vals arbitrary: payload) (simp_all add: AppendValueFrame_eq)

lemma pack_cold_eq:
  "pack_cold payload frs = (payload @ concat frs, placed (\<lambda>fr. fr) (\<lambda>k fr. of_nat k) (length payload) frs)"
  by (induction frs arbitrary: payload) simp_all

lemma compact_records_from_eq:
  assumes "list_all2 (\<lambda>a r. ReadRecordAt f a = Inr r) live rs"
  shows "compact_records_from f payload live =
    Inr (payload @ concat (map record_bytes rs), placed record_bytes record_loc (length payload) rs)"
  using assms by (induction live rs arbitrary: payload rule: list_all2_induct) (simp_all add: AppendRecordFrame_eq)

lemma compact_values_from_eq:
  assumes "list_all2 (\<lambda>p v. ReadValueAt f p = Inr v) live vs"
  shows "compact_values_from f payload live =
    Inr (payload @ concat (map value_bytes vs), placed value_bytes value_loc (length payload) vs)"
  using assms by (induction live vs arbitrary: payload rule: list_all2_induct) (simp_all add: AppendValueFrame_eq)

text \<open>The frame table of a batch resolves to the addresses of its items in the segment.\<close>

lemma record_addrs:
  "map (\<lambda>fr. base + rf_FrameOff fr) (placed record_bytes record_loc 0 rs)
    = placed record_bytes (\<lambda>k r. base + of_nat k) 0 rs"
  by (simp add: map_placed record_loc_def)

lemma value_ptrs:
  "map (value_ptr base) (placed value_bytes value_loc 0 vs)
    = placed value_bytes (\<lambda>k v. value_ptr base (value_loc k v)) 0 vs"
  by (simp add: map_placed)

lemma batch_reads:
  assumes inv: "file_inv f ss" and seg: "(off, h, concat (map record_bytes rs)) \<in> set ss"
    and ok: "list_all wf_row rs" and i: "i < length rs"
  shows "ReadRecordAt f (placed record_bytes (\<lambda>k r. off + 64 + of_nat k) 0 rs ! i) = Inr (rs ! i)"
  using ReadRecordAt_frame [OF inv seg concat_split [OF i]] ok i
  by (simp add: nth_placed list_all_length)

lemma value_batch_reads:
  assumes inv: "file_inv f ss" and seg: "(off, h, concat (map value_bytes vs)) \<in> set ss"
    and ok: "list_all small vs" and i: "i < length vs"
    and p: "p = placed value_bytes (\<lambda>k v. value_ptr (off + 64) (value_loc k v)) 0 vs ! i"
  shows "ReadValueAt f p = Inr (vs ! i)"
    "ReadValueFrameAt f (vp_ValueOff p) (vp_ValueLen p) = Inr (vs ! i)"
  using value_frame_reads [OF inv seg concat_split [OF i]] ok i p
  by (simp_all add: nth_placed list_all_length value_ptr_loc)

lemma cold_batch_reads:
  assumes inv: "file_inv f ss" and seg: "(off, h, concat frs) \<in> set ss"
    and ok: "list_all cold_ok frs" and i: "i < length frs"
  shows "ReadColdFrame f (placed (\<lambda>fr. fr) (\<lambda>k fr. off + 64 + of_nat k) 0 frs ! i) = Inr (frs ! i)"
  using cold_frame_reads [OF inv seg concat_split [OF i, where enc = "\<lambda>fr. fr", simplified]] ok i
  by (simp add: nth_placed list_all_length)

end
