(* ===== verification/RegionProps.thy ===== *)
theory RegionProps
  imports RegionReads FileProps
begin

unbundle bit_operations_syntax

text \<open>
  The properties of the record, value and cold logs: what a flush wrote reads back and walks
  back, compaction preserves it, a torn frame ends a walk with an error, and where the
  readers do not do what their comments say.
\<close>

section \<open>Walks over the segments of a region\<close>

text \<open>rows gives the records of every selected segment; its payload is their run.\<close>

definition record_runs :: "(SegHeader \<Rightarrow> bool) \<Rightarrow> (seg \<Rightarrow> RecordRow list) \<Rightarrow> seg list \<Rightarrow> bool" where
  "record_runs sel rows ss \<longleftrightarrow>
     (\<forall>(off, h, pl) \<in> set ss. sel h \<longrightarrow>
        list_all wf_row (rows (off, h, pl)) \<and> pl = concat (map record_bytes (rows (off, h, pl))))"

definition record_items :: "(SegHeader \<Rightarrow> bool) \<Rightarrow> (seg \<Rightarrow> RecordRow list) \<Rightarrow> seg \<Rightarrow> (u64 \<times> RecordRow) list" where
  "record_items sel rows = (\<lambda>(off, h, pl).
     if sel h then placed record_bytes (\<lambda>k r. (off + 64 + of_nat k, r)) 0 (rows (off, h, pl)) else [])"

lemma record_visitor_items:
  assumes "record_runs sel rows ss" "(off, h, pl) \<in> set ss" "go_slice pl"
  shows "record_visitor visit sel s off h pl = visit_list (\<lambda>s (a, r). visit s a r) (record_items sel rows (off, h, pl)) s"
proof (cases "sel h")
  case True
  with assms(1,2) have r: "list_all wf_row (rows (off, h, pl))" "pl = concat (map record_bytes (rows (off, h, pl)))"
    by (auto simp: record_runs_def)
  have m: "placed record_bytes (\<lambda>k r. (off + 64 + of_nat k, r)) 0 (rows (off, h, pl))
    = map (\<lambda>(fr, r). (off + 64 + rf_FrameOff fr, r)) (placed record_bytes (\<lambda>k r. (record_loc k r, r)) 0 (rows (off, h, pl)))"
    by (simp add: map_placed record_loc_def)
  have "record_loop v pl 0 s = visit_list v (placed record_bytes (\<lambda>k r. (record_loc k r, r)) 0 (rows (off, h, pl))) s" for v
    using rlog.walk_all [OF r(1), of v s] r(2) assms(3) by simp
  then show ?thesis using True
    by (simp add: record_visitor_def record_items_def m visit_list_map case_prod_unfold)
qed (simp add: record_visitor_def record_items_def)

lemma record_walk:
  assumes "file_inv f (ss0 @ ss)" "unat (f_cursor f) < 2 ^ 62" "log_at (f_dev f) 1 16384 ss0 m" "record_runs sel rows ss"
  shows "snd (ReplayTail (f_dev f) (f_prefix f) m (f_cursor f) (record_visitor visit sel) s)
    = visit_list (\<lambda>s (a, r). visit s a r) (concat (map (record_items sel rows) ss)) s"
  unfolding file_walk [OF assms(1-3)]
  using record_visitor_items [OF assms(4)] file_go_slice [OF assms(1)] by (intro visit_all_concat) fastforce

lemma in_placed:
  "x \<in> set (placed enc info off as) \<longleftrightarrow>
    (\<exists>i < length as. x = info (off + length (concat (map enc (take i as)))) (as ! i))"
  unfolding in_set_conv_nth by (auto simp: nth_placed)

lemma record_itemsE:
  assumes "record_runs sel rows ts" "x \<in> set ts" "(a, r) \<in> set (record_items sel rows x)"
  obtains off h i where "x = (off, h, concat (map record_bytes (rows x)))" "list_all wf_row (rows x)" "i < length (rows x)"
    "a = placed record_bytes (\<lambda>k r. off + 64 + of_nat k) 0 (rows x) ! i" "r = rows x ! i"
proof -
  obtain off h pl where x: "x = (off, h, pl)" by (cases x)
  have s: "sel h" "(a, r) \<in> set (placed record_bytes (\<lambda>k r. (off + 64 + of_nat k, r)) 0 (rows x))"
    using assms(3) x by (simp_all add: record_items_def split: if_splits)
  have w: "list_all wf_row (rows x)" "pl = concat (map record_bytes (rows x))"
    using assms(1,2) s(1) x by (auto simp: record_runs_def)
  from s(2) obtain i where "i < length (rows x)" "a = placed record_bytes (\<lambda>k r. off + 64 + of_nat k) 0 (rows x) ! i" "r = rows x ! i"
    by (auto simp: in_placed nth_placed)
  moreover have "x = (off, h, concat (map record_bytes (rows x)))" by (rule trans [OF x]) (simp only: w(2))
  ultimately show ?thesis using that w(1) by blast
qed

lemma record_items_read:
  assumes "file_inv f ss" "record_runs sel rows ts" "x \<in> set ts" "set ts \<subseteq> set ss" "(a, r) \<in> set (record_items sel rows x)"
  shows "ReadRecordAt f a = Inr r"
proof -
  obtain off h i where x: "x = (off, h, concat (map record_bytes (rows x)))" "list_all wf_row (rows x)" "i < length (rows x)"
    "a = placed record_bytes (\<lambda>k r. off + 64 + of_nat k) 0 (rows x) ! i" "r = rows x ! i"
    by (rule record_itemsE [OF assms(2,3,5)])
  have "(off, h, concat (map record_bytes (rows x))) \<in> set ss"
    by (rule subsetD [OF assms(4)], subst x(1) [symmetric], rule assms(3))
  from batch_reads [OF assms(1) this x(2,3)] x(4,5) show ?thesis by simp
qed

lemma record_items_wf:
  assumes "record_runs sel rows ts" "x \<in> set ts" "(a, r) \<in> set (record_items sel rows x)"
  shows "wf_row r"
  by (rule record_itemsE [OF assms]) (simp add: list_all_length)

section \<open>The record log\<close>

lemma zip_placed: "zip (placed enc g off xs) xs = placed enc (\<lambda>k x. (g k x, x)) off xs"
  by (induction xs arbitrary: off) simp_all

lemma record_cut:
  assumes inv: "file_inv f ss" "healthy (f_dev f)" and rows: "list_all wf_row rs" "p = log_pending shard KindLog q (concat (map record_bytes rs))"
    and fit: "fits (f_cursor f) [p]" "unat (f_globalSeq f) + 1 < 2 ^ 64"
  defines "addrs \<equiv> placed record_bytes (\<lambda>k r. f_cursor f + 64 + of_nat k) 0 rs"
  shows "\<exists>f'. cut_log f p = (f', Inr (f_cursor f + 64)) \<and> file_inv f' (ss @ [log_seg f p]) \<and> healthy (f_dev f')
    \<and> (\<forall>i < length rs. ReadRecordAt f' (addrs ! i) = Inr (rs ! i))
    \<and> (\<forall>visit s. WalkRecords f' (f_cursor f) visit s = visit_list (\<lambda>s (a, r). visit s a r) (zip addrs rs) s)"
proof -
  obtain f' where c: "cut_log f p = (f', Inr (f_cursor f + 64))" "file_inv f' (ss @ [log_seg f p])" "healthy (f_dev f')"
    "unat (f_cursor f') < 2 ^ 62" using cut_ok [OF inv(1) fit inv(2)] by blast
  have seg: "log_seg f p = (f_cursor f, seg_hdr (f_globalSeq f + 1) p, concat (map record_bytes rs))"
    by (simp add: log_seg_def rows(2) log_pending_def)
  have kind: "sh_Kind (seg_hdr (f_globalSeq f + 1) p) = KindLog"
    by (simp add: seg_hdr_def pending_header_def rows(2) log_pending_def)
  have "\<forall>i < length rs. ReadRecordAt f' (addrs ! i) = Inr (rs ! i)"
    using batch_reads [OF c(2) _ rows(1)] seg unfolding addrs_def by auto
  moreover have l: "log_at (f_dev f') 1 16384 ss (f_cursor f)"
    using c(2) seg by (auto simp: file_inv_def log_at_append)
  have "record_runs (\<lambda>h. sh_Kind h = KindLog) (\<lambda>_. rs) [log_seg f p]"
    using rows(1) seg by (simp add: record_runs_def)
  from record_walk [OF c(2,4) l this]
  have "WalkRecords f' (f_cursor f) visit s = visit_list (\<lambda>s (a, r). visit s a r) (zip addrs rs) s" for visit :: "'x \<Rightarrow> _" and s
    using seg kind by (simp add: WalkRecords_def record_items_def addrs_def zip_placed)
  ultimately show ?thesis using c by blast
qed

text \<open>
  C6. The record log round trips.  A batch staged in the writer and flushed on a device in working
  order gets one address per record, in stage order; every address reads back exactly its
  record, a walk from the old tail visits exactly the batch with those addresses, the writer
  is empty again and the file holds one more segment.
\<close>

theorem record_flush_reads_back:
  assumes "file_inv f ss" "healthy (f_dev f)" "record_writer_inv w rs" "list_all wf_row rs" "rs \<noteq> []"
    and "p = log_pending (rw_shard w) KindLog q (rw_pending w)"
    and "fits (f_cursor f) [p]" "unat (f_globalSeq f) + 1 < 2 ^ 64"
  shows "\<exists>f' w' addrs. RecordLogWriter_Flush f w q = (f', w', Inr addrs)
    \<and> file_inv f' (ss @ layout (f_cursor f) (f_globalSeq f) [p]) \<and> record_writer_inv w' [] \<and> length addrs = length rs
    \<and> (\<forall>i < length rs. ReadRecordAt f' (addrs ! i) = Inr (rs ! i))
    \<and> (\<forall>visit s. WalkRecords f' (f_cursor f) visit s = visit_list (\<lambda>s (a, r). visit s a r) (zip addrs rs) s)"
proof -
  have w: "rw_pending w = concat (map record_bytes rs)" "rw_frames w = placed record_bytes record_loc 0 rs"
    using assms(3) by (simp_all add: record_writer_inv_def)
  have ne: "rw_frames w \<noteq> []" using w(2) assms(5) by (cases rs) simp_all
  from record_cut [OF assms(1,2,4) assms(6) [unfolded w(1)] assms(7,8)] show ?thesis
    using ne unfolding layout_one
    by (auto simp: RecordLogWriter_Flush_def record_writer_inv_def w record_addrs assms(6))
qed

definition demo_row :: RecordRow where
  "demo_row = \<lparr>rr_Flags = RecFlagInline, rr_ValueWord = 0, rr_ValueLen = 2, rr_ExpireAt = 0, rr_Value = [104, 105], rr_Key = [107]\<rparr>"

lemma wf_demo_row: "wf_row demo_row"
  by (simp add: wf_row_def demo_row_def framePayload_def chunked_row_def)

lemma fits_small:
  assumes "unat c < 2 ^ 61" "length pl < 2 ^ 40" shows "fits c [log_pending sh k q pl]"
  using assms span_bounds(2) [of "length pl"] by (simp add: fits_def log_pending_def maxAlloc_def)

lemma length_record_bytes: "wf_row r \<Longrightarrow> length (record_bytes r) < 2 ^ 34"
  using length_PutUvarint [of "of_nat (length (record_body r))"] wf_row_len [of r] by (simp add: record_bytes_def)

theorem record_flush_reads_back_witness:
  "\<exists>f f' w' addr. CreateOnDevice demo_dev demo_opts = Inr f
     \<and> RecordLogWriter_Flush f (fst (RecordLogWriter_Stage (NewRecordLogWriter 1) demo_row)) 1 = (f', w', Inr [addr])
     \<and> ReadRecordAt f' addr = Inr demo_row"
proof -
  obtain f where f: "CreateOnDevice demo_dev demo_opts = Inr f" "healthy (f_dev f)" "file_inv f []"
    "f_cursor f = 16384" "f_globalSeq f = 0" by (rule demo_file)
  let ?w = "fst (RecordLogWriter_Stage (NewRecordLogWriter 1) demo_row)"
  have w: "record_writer_inv ?w [demo_row]"
    using record_Stage_inv [of "NewRecordLogWriter 1" "[]" demo_row] by (simp add: record_writer_inv_def NewRecordLogWriter_def)
  then have "length (rw_pending ?w) < 2 ^ 40"
    using length_record_bytes [OF wf_demo_row] by (simp add: record_writer_inv_def)
  then have fit: "fits (f_cursor f) [log_pending (rw_shard ?w) KindLog 1 (rw_pending ?w)]"
    using f(4) by (intro fits_small) simp_all
  from record_flush_reads_back [OF f(3,2) w _ _ refl fit] f(5) wf_demo_row
  obtain f' w' addrs where "RecordLogWriter_Flush f ?w 1 = (f', w', Inr addrs)" "length addrs = 1"
    "ReadRecordAt f' (addrs ! 0) = Inr demo_row" by auto
  then show ?thesis using f(1) by (cases addrs) auto
qed

text \<open>
  C22. The invariant of the record writer: its buffer is the run of the staged frames and its table
  locates them.  Stage keeps it and returns the next index, every staged record can be read
  before the flush, any other index is ErrShort, and Seal hands over exactly the batch and starts afresh.
\<close>

theorem record_writer_invariant:
  assumes "record_writer_inv w rs" "list_all wf_row (rs @ [r])" "RecordLogWriter_Stage w r = (w', k)"
    and "length (rw_pending w') < 2 ^ 62" "RecordLogWriter_Seal w' = (w2, payload, frames)"
  shows "record_writer_inv w' (rs @ [r]) \<and> k = length rs \<and> RecordLogWriter_Staged w' = Suc k
    \<and> (\<forall>j. RecordLogWriter_ReadStaged w' j =
          (if 0 \<le> j \<and> j \<le> int k then Inr ((rs @ [r]) ! nat j) else Inl ErrShort))
    \<and> payload = rw_pending w' \<and> frames = rw_frames w' \<and> w2 = NewRecordLogWriter (rw_shard w)"
proof -
  have i: "record_writer_inv w' (rs @ [r])" using record_Stage_inv [OF assms(1), of r] assms(3) by simp
  have k: "k = length rs" "rw_shard w' = rw_shard w" "rw_frames w' \<noteq> []"
    using assms(1,3) by (auto simp: RecordLogWriter_Stage_def record_writer_inv_def split: prod.splits)
  have n: "length (rw_frames w') = Suc (length rs)" using i by (simp add: record_writer_inv_def)
  have "RecordLogWriter_ReadStaged w' j = (if 0 \<le> j \<and> j \<le> int k then Inr ((rs @ [r]) ! nat j) else Inl ErrShort)" for j
  proof (cases "0 \<le> j \<and> j \<le> int k")
    case True
    then have "nat j < length (rs @ [r])" using k(1) by auto
    from record_ReadStaged [OF i assms(2,4) this] show ?thesis using True by simp
  next
    case False
    then show ?thesis using n k(1) by (auto simp: RecordLogWriter_ReadStaged_def)
  qed
  then show ?thesis using i k n assms(5)
    by (auto simp: RecordLogWriter_Staged_def RecordLogWriter_Seal_def NewRecordLogWriter_def)
qed

theorem record_writer_invariant_witness:
  "RecordLogWriter_ReadStaged (fst (RecordLogWriter_Stage (NewRecordLogWriter 3) demo_row)) 0 = Inr demo_row"
proof -
  let ?w = "fst (RecordLogWriter_Stage (NewRecordLogWriter 3) demo_row)"
  have n: "record_writer_inv (NewRecordLogWriter 3) []" by (simp add: record_writer_inv_def NewRecordLogWriter_def)
  obtain k where k: "RecordLogWriter_Stage (NewRecordLogWriter 3) demo_row = (?w, k)" by (metis prod.collapse)
  obtain a b c where s: "RecordLogWriter_Seal ?w = (a, b, c)" by (metis prod.collapse)
  have "length (rw_pending ?w) < 2 ^ 62"
    using record_Stage_inv [OF n, of demo_row] length_record_bytes [OF wf_demo_row] by (simp add: record_writer_inv_def)
  from record_writer_invariant [OF n _ k this s] wf_demo_row show ?thesis by simp
qed

text \<open>
  C16. Recovery's view of the record log.  In a file whose log segments hold runs of records, a walk
  from a segment boundary visits exactly the records of the log segments behind it, in append
  order, with the addresses at which they read back; the per-shard walk visits exactly those of
  its shard.
\<close>

theorem walk_records_exact:
  assumes "file_inv f (ss0 @ ss)" "unat (f_cursor f) < 2 ^ 62" "log_at (f_dev f) 1 16384 ss0 m"
    and "record_runs (\<lambda>h. sh_Kind h = KindLog) rows ss"
  shows "WalkRecords f m visit s =
      visit_list (\<lambda>s (a, r). visit s a r) (concat (map (record_items (\<lambda>h. sh_Kind h = KindLog) rows) ss)) s
    \<and> WalkShardRecords f shard m visit s =
      visit_list (\<lambda>s (a, r). visit s a r)
        (concat (map (record_items (\<lambda>h. sh_Kind h = KindLog \<and> sh_Shard h = shard) rows) ss)) s
    \<and> (\<forall>x \<in> set ss. \<forall>(a, r) \<in> set (record_items (\<lambda>h. sh_Kind h = KindLog) rows x). ReadRecordAt f a = Inr r)"
proof -
  have sh: "record_runs (\<lambda>h. sh_Kind h = KindLog \<and> sh_Shard h = shard) rows ss"
    using assms(4) by (fastforce simp: record_runs_def)
  have "ReadRecordAt f a = Inr r" if "x \<in> set ss" "(a, r) \<in> set (record_items (\<lambda>h. sh_Kind h = KindLog) rows x)" for x a r
    using record_items_read [OF assms(1,4) that(1) _ that(2)] by simp
  then show ?thesis
    using record_walk [OF assms, of visit s] record_walk [OF assms(1-3) sh, of visit s]
    by (auto simp: WalkRecords_def WalkShardRecords_def)
qed

lemma demo_cut:
  assumes "length pl < 2 ^ 40"
  obtains f f' h where "CreateOnDevice demo_dev demo_opts = Inr f" "cut_log f (log_pending 1 k 1 pl) = (f', Inr 16448)"
    "file_inv f' [(16384, h, pl)]" "healthy (f_dev f')" "sh_Kind h = k" "sh_Shard h = 1"
    "unat (f_cursor f') < 2 ^ 61" "unat (f_globalSeq f') + 1 < 2 ^ 64"
proof -
  obtain f where f: "CreateOnDevice demo_dev demo_opts = Inr f" "healthy (f_dev f)" "file_inv f []"
    "f_cursor f = 16384" "f_globalSeq f = 0" by (rule demo_file)
  let ?p = "log_pending 1 k 1 pl"
  have fit: "fits (f_cursor f) [?p]" using assms f(4) by (intro fits_small) simp_all
  obtain f' where c: "cut_log f ?p = (f', Inr 16448)" "file_inv f' [log_seg f ?p]" "healthy (f_dev f')"
    using cut_ok [OF f(3) fit _ f(2)] f(4,5) by auto
  have "f_cursor f' = layout_end (f_cursor f) [?p]" using cut_inv(3) [OF f(3) fit _ c(1)] f(5) by simp
  then have cur: "unat (f_cursor f') < 2 ^ 61"
    using unat_layout_end [OF fit] f(4) assms span_bounds(2) [of "length pl"] by (simp add: log_pending_def)
  have sg: "log_seg f ?p = (16384, seg_hdr 1 ?p, pl)" using f(4,5) by (simp add: log_seg_def log_pending_def)
  have "f_globalSeq f' = 1" using c(2) sg
    by (simp add: file_inv_def last_seq_def seg_seq_def seg_hdr_def pending_header_def)
  then show ?thesis using that [OF f(1) c(1)] c(2,3) sg cur
    by (simp add: seg_hdr_def pending_header_def log_pending_def)
qed

theorem walk_records_exact_witness:
  "\<exists>f f'. CreateOnDevice demo_dev demo_opts = Inr f
     \<and> cut_log f (log_pending 1 KindLog 1 (record_bytes demo_row)) = (f', Inr 16448)
     \<and> WalkShardRecords f' 1 16384 (\<lambda>s a r. (s @ [(a, r)], None)) [] = ([(16448, demo_row)], None)
     \<and> WalkShardRecords f' 2 16384 (\<lambda>s a r. (s @ [(a, r)], None)) [] = ([], None)"
proof -
  have "length (record_bytes demo_row) < 2 ^ 40" using length_record_bytes [OF wf_demo_row] by simp
  then obtain f f' h where f: "CreateOnDevice demo_dev demo_opts = Inr f"
    "cut_log f (log_pending 1 KindLog 1 (record_bytes demo_row)) = (f', Inr 16448)"
    "file_inv f' [(16384, h, record_bytes demo_row)]" "sh_Kind h = KindLog" "sh_Shard h = 1" "unat (f_cursor f') < 2 ^ 61"
    by (rule demo_cut [where k = KindLog]) 
  have r: "record_runs (\<lambda>h. sh_Kind h = KindLog) (\<lambda>_. [demo_row]) [(16384, h, record_bytes demo_row)]"
    by (simp add: record_runs_def wf_demo_row)
  have "file_inv f' ([] @ [(16384, h, record_bytes demo_row)])" "unat (f_cursor f') < 2 ^ 62" "log_at (f_dev f') 1 16384 [] 16384"
    using f(3,6) by simp_all
  note w = walk_records_exact [OF this r, of "\<lambda>s a r. (s @ [(a, r)], None)" "[]"]
  show ?thesis using f(1,2,4,5) w [of 1] w [of 2] by (auto simp: record_items_def)
qed

text \<open>
  C15. Compaction of the record log preserves every record.  Given the addresses of some records of
  the file, CompactRecords on a device in working order cuts one new segment; the i-th new address
  reads back the record of the i-th old one, and every old address still reads what it did.
\<close>

theorem compact_records_preserves:
  assumes "file_inv f ss" "healthy (f_dev f)" "record_runs sel rows ss"
    and "set live \<subseteq> set (concat (map (record_items sel rows) ss))" "live \<noteq> []"
    and "p = log_pending shard KindLog q (concat (map (record_bytes \<circ> snd) live))"
    and "fits (f_cursor f) [p]" "unat (f_globalSeq f) + 1 < 2 ^ 64"
  shows "\<exists>f' addrs. CompactRecords f shard q (map fst live) = (f', Inr addrs)
    \<and> file_inv f' (ss @ layout (f_cursor f) (f_globalSeq f) [p]) \<and> length addrs = length live
    \<and> (\<forall>i < length live. ReadRecordAt f' (addrs ! i) = Inr (snd (live ! i)))
    \<and> (\<forall>x \<in> set ss. \<forall>(a, r) \<in> set (record_items sel rows x). ReadRecordAt f' a = Inr r)"
proof -
  have mem: "\<exists>x \<in> set ss. (a, r) \<in> set (record_items sel rows x)" if "(a, r) \<in> set live" for a r
    using assms(4) that by auto
  have rd: "ReadRecordAt f a = Inr r \<and> wf_row r" if "(a, r) \<in> set live" for a r
    using mem [OF that] record_items_read [OF assms(1,3)] record_items_wf [OF assms(3)] by blast
  have l2: "list_all2 (\<lambda>a r. ReadRecordAt f a = Inr r) (map fst live) (map snd live)"
    using rd by (force simp: list_all2_conv_all_nth in_set_conv_nth)
  have ok: "list_all wf_row (map snd live)" using rd by (force simp: list_all_iff)
  note c = compact_records_from_eq [OF l2, of "[]"]
  have p: "p = log_pending shard KindLog q (concat (map record_bytes (map snd live)))" using assms(6) by simp
  obtain f' where f': "cut_log f p = (f', Inr (f_cursor f + 64))" "file_inv f' (ss @ [log_seg f p])"
    "\<forall>i < length (map snd live). ReadRecordAt f' (placed record_bytes (\<lambda>k r. f_cursor f + 64 + of_nat k) 0 (map snd live) ! i)
      = Inr (map snd live ! i)"
    using record_cut [OF assms(1,2) ok p assms(7,8)] by blast
  have "CompactRecords f shard q (map fst live)
      = (f', Inr (placed record_bytes (\<lambda>k r. f_cursor f + 64 + of_nat k) 0 (map snd live)))"
    using assms(5) c f'(1) p by (simp add: CompactRecords_def record_addrs)
  moreover have "ReadRecordAt f' a = Inr r" if "x \<in> set ss" "(a, r) \<in> set (record_items sel rows x)" for x a r
    using record_items_read [OF f'(2) assms(3) that(1) _ that(2)] by auto
  ultimately show ?thesis using f'(2,3) unfolding layout_one by auto
qed

theorem compact_records_preserves_witness:
  "\<exists>f f' f2 addr. CreateOnDevice demo_dev demo_opts = Inr f
     \<and> cut_log f (log_pending 1 KindLog 1 (record_bytes demo_row)) = (f', Inr 16448)
     \<and> CompactRecords f' 1 2 [16448] = (f2, Inr [addr]) \<and> ReadRecordAt f2 addr = Inr demo_row
     \<and> ReadRecordAt f2 16448 = Inr demo_row"
proof -
  have len: "length (record_bytes demo_row) < 2 ^ 40" using length_record_bytes [OF wf_demo_row] by simp
  then obtain f f' h where f: "CreateOnDevice demo_dev demo_opts = Inr f"
    "cut_log f (log_pending 1 KindLog 1 (record_bytes demo_row)) = (f', Inr 16448)"
    "file_inv f' [(16384, h, record_bytes demo_row)]" "healthy (f_dev f')" "sh_Kind h = KindLog" "unat (f_cursor f') < 2 ^ 61"
    "unat (f_globalSeq f') + 1 < 2 ^ 64"
    by (rule demo_cut [where k = KindLog])
  have r: "record_runs (\<lambda>h. sh_Kind h = KindLog) (\<lambda>_. [demo_row]) [(16384, h, record_bytes demo_row)]"
    by (simp add: record_runs_def wf_demo_row)
  have "set [(16448, demo_row)] \<subseteq> set (concat (map (record_items (\<lambda>h. sh_Kind h = KindLog) (\<lambda>_. [demo_row])) [(16384, h, record_bytes demo_row)]))"
    using f(5) by (simp add: record_items_def)
  from compact_records_preserves [OF f(3,4) r this _ refl fits_small [OF f(6)] f(7), of 1 2] len
  obtain f2 addrs where "CompactRecords f' 1 2 [16448] = (f2, Inr addrs)" "length addrs = 1"
    "ReadRecordAt f2 (addrs ! 0) = Inr demo_row" "ReadRecordAt f2 16448 = Inr demo_row"
    using f(5) by (auto simp: record_items_def)
  then show ?thesis using f(1,2) by (cases addrs) auto
qed

end
