(* ===== verification/ValueProps.thy ===== *)
theory ValueProps
  imports RegionProps
begin

unbundle bit_operations_syntax

text \<open>
  The properties of the value log and the cold log, the behaviour of the frame readers on torn
  and corrupt bytes, and the round trips of the collection payloads.
\<close>

section \<open>A cut keeps every older read\<close>

lemma cut_reads:
  assumes inv: "file_inv f ss" and fit: "fits (f_cursor f) [p]" and c: "cut_log f p = (f', r)"
    and rd: "read_full (f_dev f) i n = Inr x"
  shows "read_full (f_dev f') i n = Inr x"
proof -
  obtain offs eo where a: "AppendGroup f [p] = (f', offs, eo)"
    using c by (auto simp: cut_log_def split: prod.splits option.splits list.splits)
  have f: "readable (f_dev f)" "length (d_data (f_dev f)) \<le> unat (f_cursor f)" using inv by (simp_all add: file_inv_def)
  obtain j m where ap: "appended f f' [p] j m"
    using AppendGroup_torn [OF file_inv_kind [OF inv] f fit a] by blast
  show ?thesis
  proof (cases "n = 0")
    case True
    then show ?thesis using rd ap by (simp add: read_full_Inr appended_def readable_def)
  next
    case False
    then have "unat i + n \<le> unat (f_cursor f)" using rd f(2) by (simp add: read_full_Inr)
    then show ?thesis using ap rd by (simp add: appended_def below_def)
  qed
qed

lemma ReadValueAt_kept:
  assumes "file_inv f ss" "fits (f_cursor f) [p]" "cut_log f p = (f', r)" "ReadValueAt f q = Inr v"
  shows "ReadValueAt f' q = Inr v"
  using assms(4) cut_reads [OF assms(1-3)] by (auto simp: ReadValueAt_def split: if_splits)

lemma ReadValueAt_small: "ReadValueAt f p = Inr v \<Longrightarrow> small v"
  using unsigned_less [of "vp_ValueLen p", where 'a = nat]
  by (auto simp: ReadValueAt_def small_def dest!: length_read_full split: if_splits)

section \<open>The value log\<close>

lemma value_visitor_run:
  assumes "list_all small vs" "sh_Kind h = KindValueLog" "go_slice (concat (map value_bytes vs))"
  shows "value_visitor visit s off h (concat (map value_bytes vs)) =
    visit_list visit (placed value_bytes (\<lambda>k v. value_ptr (off + 64) (value_loc k v)) 0 vs) s"
proof -
  have "placed value_bytes (\<lambda>k v. value_ptr (off + 64) (value_loc k v)) 0 vs
    = map (\<lambda>(fr, _). value_ptr (off + 64) fr) (placed value_bytes (\<lambda>k v. (value_loc k v, v)) 0 vs)"
    by (simp add: map_placed)
  then show ?thesis using assms
    by (simp add: value_visitor_def vlog.walk_all visit_list_map case_prod_unfold)
qed

lemma value_cut:
  assumes inv: "file_inv f ss" "healthy (f_dev f)" and vs: "list_all small vs" "p = log_pending shard KindValueLog q (concat (map value_bytes vs))"
    and fit: "fits (f_cursor f) [p]" "unat (f_globalSeq f) + 1 < 2 ^ 64"
  defines "ptrs \<equiv> placed value_bytes (\<lambda>k v. value_ptr (f_cursor f + 64) (value_loc k v)) 0 vs"
  shows "\<exists>f'. cut_log f p = (f', Inr (f_cursor f + 64)) \<and> file_inv f' (ss @ [log_seg f p]) \<and> healthy (f_dev f')
    \<and> list_all2 (\<lambda>p v. ReadValueAt f' p = Inr v \<and> ReadValueFrameAt f' (vp_ValueOff p) (vp_ValueLen p) = Inr v) ptrs vs
    \<and> (\<forall>visit s. WalkValues f' (f_cursor f) visit s = visit_list visit ptrs s)"
proof -
  obtain f' where c: "cut_log f p = (f', Inr (f_cursor f + 64))" "file_inv f' (ss @ [log_seg f p])" "healthy (f_dev f')"
    "unat (f_cursor f') < 2 ^ 62" using cut_ok [OF inv(1) fit inv(2)] by blast
  have seg: "log_seg f p = (f_cursor f, seg_hdr (f_globalSeq f + 1) p, concat (map value_bytes vs))"
    by (simp add: log_seg_def vs(2) log_pending_def)
  have kind: "sh_Kind (seg_hdr (f_globalSeq f + 1) p) = KindValueLog"
    by (simp add: seg_hdr_def pending_header_def vs(2) log_pending_def)
  have mem: "(f_cursor f, seg_hdr (f_globalSeq f + 1) p, concat (map value_bytes vs)) \<in> set (ss @ [log_seg f p])"
    by (simp add: seg)
  have "list_all2 (\<lambda>p v. ReadValueAt f' p = Inr v \<and> ReadValueFrameAt f' (vp_ValueOff p) (vp_ValueLen p) = Inr v) ptrs vs"
    using value_batch_reads [OF c(2) mem vs(1) _ refl] by (simp add: list_all2_conv_all_nth ptrs_def)
  moreover have l: "log_at (f_dev f') 1 16384 ss (f_cursor f)"
    using c(2) seg by (auto simp: file_inv_def log_at_append)
  have "WalkValues f' (f_cursor f) visit s = visit_list visit ptrs s" for visit :: "'x \<Rightarrow> _" and s
    unfolding WalkValues_def file_walk [OF c(2,4) l] seg visit_all_one
    by (simp add: value_visitor_run [OF vs(1) kind file_go_slice [OF c(2) mem]] ptrs_def)
  ultimately show ?thesis using c by blast
qed

text \<open>
  C23. The value log round trips.  AppendValues on a device in working order returns one pointer per
  value; a read through the pointer and a read by offset and length alone both give the value
  back, and a walk from the old tail visits exactly those pointers.
\<close>

theorem append_values_read_back:
  assumes "file_inv f ss" "healthy (f_dev f)" "list_all small vs" "vs \<noteq> []"
    and "p = log_pending shard KindValueLog q (concat (map value_bytes vs))"
    and "fits (f_cursor f) [p]" "unat (f_globalSeq f) + 1 < 2 ^ 64"
  shows "\<exists>f' ptrs. AppendValues f shard q vs = (f', Inr ptrs) \<and> file_inv f' (ss @ layout (f_cursor f) (f_globalSeq f) [p])
    \<and> list_all2 (\<lambda>p v. ReadValueAt f' p = Inr v \<and> ReadValueFrameAt f' (vp_ValueOff p) (vp_ValueLen p) = Inr v) ptrs vs
    \<and> (\<forall>visit s. WalkValues f' (f_cursor f) visit s = visit_list visit ptrs s)"
  using value_cut [OF assms(1-3,5-7)] assms(4,5) unfolding layout_one
  by (auto simp: AppendValues_def append_value_frames_eq value_ptrs)

lemma length_value_bytes: "small v \<Longrightarrow> length (value_bytes v) < 2 ^ 33"
  using length_PutUvarint [of "of_nat (length v)"] by (simp add: value_bytes_def small_def)

theorem append_values_read_back_witness:
  "\<exists>f f' ptr. CreateOnDevice demo_dev demo_opts = Inr f \<and> AppendValues f 1 1 [[104, 105]] = (f', Inr [ptr])
     \<and> ReadValueAt f' ptr = Inr [104, 105]"
proof -
  obtain f where f: "CreateOnDevice demo_dev demo_opts = Inr f" "healthy (f_dev f)" "file_inv f []"
    "f_cursor f = 16384" "f_globalSeq f = 0" by (rule demo_file)
  have v: "list_all small [[104, 105]]" by (simp add: small_def)
  have "length (concat (map value_bytes [[104, 105]])) < 2 ^ 40" using length_value_bytes [of "[104, 105]"] by (simp add: small_def)
  then have fit: "fits (f_cursor f) [log_pending 1 KindValueLog 1 (concat (map value_bytes [[104, 105]]))]"
    using f(4) by (intro fits_small) simp_all
  from append_values_read_back [OF f(3,2) v _ refl fit] f(5)
  obtain f' ptrs where "AppendValues f 1 1 [[104, 105]] = (f', Inr ptrs)"
    "list_all2 (\<lambda>p v. ReadValueAt f' p = Inr v \<and> ReadValueFrameAt f' (vp_ValueOff p) (vp_ValueLen p) = Inr v) ptrs [[104, 105]]"
    by auto
  then show ?thesis using f(1) by (auto simp: list_all2_Cons2)
qed

text \<open>
  C24. Compaction of the value log preserves every value.  When every live pointer reads, CompactValues on
  a device in working order returns pointers that read the same values in the same order, and
  the old pointers still read them.  When one does not, the error of the first
  such read is returned and the file is untouched.
\<close>

theorem compact_values_preserves:
  assumes "file_inv f ss" "healthy (f_dev f)" "list_all2 (\<lambda>p v. ReadValueAt f p = Inr v) live vs"
    and "p = log_pending shard KindValueLog q (concat (map value_bytes vs))" "fits (f_cursor f) [p]" "unat (f_globalSeq f) + 1 < 2 ^ 64"
  shows "(live \<noteq> [] \<longrightarrow> (\<exists>f' ptrs. CompactValues f shard q live = (f', Inr ptrs)
      \<and> file_inv f' (ss @ layout (f_cursor f) (f_globalSeq f) [p])
      \<and> list_all2 (\<lambda>p v. ReadValueAt f' p = Inr v) ptrs vs \<and> list_all2 (\<lambda>p v. ReadValueAt f' p = Inr v) live vs))
    \<and> (ReadValueAt f bad = Inl e \<longrightarrow> CompactValues f shard q (live @ bad # later) = (f, Inl e))"
proof -
  have sm: "list_all small vs" using assms(3) ReadValueAt_small by (auto simp: list_all2_conv_all_nth list_all_length)
  obtain f' where c: "cut_log f p = (f', Inr (f_cursor f + 64))" "file_inv f' (ss @ [log_seg f p])"
    "list_all2 (\<lambda>p v. ReadValueAt f' p = Inr v \<and> ReadValueFrameAt f' (vp_ValueOff p) (vp_ValueLen p) = Inr v)
       (placed value_bytes (\<lambda>k v. value_ptr (f_cursor f + 64) (value_loc k v)) 0 vs) vs"
    using value_cut [OF assms(1,2) sm assms(4-6)] by blast
  have old: "list_all2 (\<lambda>p v. ReadValueAt f' p = Inr v) live vs"
    by (rule list_all2_mono [OF assms(3)]) (rule ReadValueAt_kept [OF assms(1,5) c(1)])
  have new: "list_all2 (\<lambda>p v. ReadValueAt f' p = Inr v) (placed value_bytes (\<lambda>k v. value_ptr (f_cursor f + 64) (value_loc k v)) 0 vs) vs"
    by (rule list_all2_mono [OF c(3)]) simp
  have "compact_values_from f pl (live @ bad # later) = Inl e" if "ReadValueAt f bad = Inl e" for pl
    using assms(3) that by (induction live vs arbitrary: pl rule: list_all2_induct) (auto split: prod.splits)
  then have "ReadValueAt f bad = Inl e \<longrightarrow> CompactValues f shard q (live @ bad # later) = (f, Inl e)"
    by (simp add: CompactValues_def)
  then show ?thesis
    using compact_values_from_eq [OF assms(3), of "[]"] c(1,2) old new assms(4) unfolding layout_one
    by (auto simp: CompactValues_def value_ptrs)
qed

theorem compact_values_preserves_witness:
  "\<exists>f f' f2 h ptrs ptr. CreateOnDevice demo_dev demo_opts = Inr f
     \<and> cut_log f (log_pending 1 KindValueLog 1 (value_bytes [104, 105])) = (f', Inr 16448)
     \<and> CompactValues f' 1 2 [ptr] = (f2, Inr ptrs) \<and> list_all2 (\<lambda>p v. ReadValueAt f2 p = Inr v) ptrs [[104, 105]]"
proof -
  have len: "length (value_bytes [104, 105]) < 2 ^ 40" using length_value_bytes [of "[104, 105]"] by (simp add: small_def)
  then obtain f f' h where f: "CreateOnDevice demo_dev demo_opts = Inr f"
    "cut_log f (log_pending 1 KindValueLog 1 (value_bytes [104, 105])) = (f', Inr 16448)"
    "file_inv f' [(16384, h, value_bytes [104, 105])]" "healthy (f_dev f')" "unat (f_cursor f') < 2 ^ 61"
    "unat (f_globalSeq f') + 1 < 2 ^ 64"
    by (rule demo_cut [where k = KindValueLog])
  let ?ptr = "value_ptr (16384 + 64) (value_loc 0 [104, 105])"
  have "ReadValueAt f' ?ptr = Inr [104, 105]"
    using value_frame_reads(1) [OF f(3), of 16384 h "value_bytes [104, 105]" "[]" "[104, 105]" "[]"] by (simp add: small_def)
  then have l: "list_all2 (\<lambda>p v. ReadValueAt f' p = Inr v) [?ptr] [[104, 105]]" by simp
  have fit: "fits (f_cursor f') [log_pending 1 KindValueLog 2 (concat (map value_bytes [[104, 105]]))]"
    using len by (intro fits_small [OF f(5)]) simp
  obtain f2 ptrs where "CompactValues f' 1 2 [?ptr] = (f2, Inr ptrs)" "list_all2 (\<lambda>p v. ReadValueAt f2 p = Inr v) ptrs [[104, 105]]"
    using compact_values_preserves [OF f(3,4) l refl fit f(6), THEN conjunct1] by blast
  then show ?thesis using f(1,2) by blast
qed

text \<open>
  C31. The two readers of a value pointer agree: whatever the pointer, when it lies inside a segment's
  payload the read from the file and the read from the payload in memory return the same bytes or
  the same error.
\<close>

theorem read_value_agrees:
  assumes "file_inv f ss" "(off, h, pl) \<in> set ss" "ReadValue pl (off + SegHeaderLen) p \<noteq> Inl ErrShort"
  shows "ReadValueAt f p = ReadValue pl (off + SegHeaderLen) p"
proof -
  let ?i = "unat (vp_ValueOff p - (off + 64))"
  have g: "\<not> vp_ValueOff p < off + 64" "?i + unat (vp_ValueLen p) \<le> length pl"
    using assms(3) by (auto simp: ReadValue_def Let_def split: if_splits)
  have "off + 64 + of_nat ?i = vp_ValueOff p" by simp
  then have "read_full (f_dev f) (vp_ValueOff p) (unat (vp_ValueLen p)) = Inr (sub pl ?i (unat (vp_ValueLen p)))"
    using payload_read [OF assms(1,2) g(2)] by simp
  moreover have "\<not> length pl - ?i < unat (vp_ValueLen p)" "\<not> length pl < ?i" using g(2) by linarith+
  ultimately show ?thesis using g by (simp add: ReadValueAt_def ReadValue_def Let_def)
qed

theorem read_value_agrees_witness:
  "\<exists>f f'. CreateOnDevice demo_dev demo_opts = Inr f
     \<and> cut_log f (log_pending 1 KindValueLog 1 (value_bytes [])) = (f', Inr 16448)
     \<and> ReadValueAt f' \<lparr>vp_ValueOff = 16448, vp_ValueLen = 0, vp_ValueCRC = crc32c [[]]\<rparr> = Inr []"
proof -
  have len: "length (value_bytes []) < 2 ^ 40" using length_value_bytes [of "[]"] by (simp add: small_def)
  then obtain f f' h where f: "CreateOnDevice demo_dev demo_opts = Inr f"
    "cut_log f (log_pending 1 KindValueLog 1 (value_bytes [])) = (f', Inr 16448)" "file_inv f' [(16384, h, value_bytes [])]"
    by (rule demo_cut [where k = KindValueLog])
  let ?p = "\<lparr>vp_ValueOff = 16448, vp_ValueLen = 0, vp_ValueCRC = crc32c [[]]\<rparr>"
  have "ReadValue (value_bytes []) (16384 + SegHeaderLen) ?p = Inr []" by (simp add: ReadValue_def Let_def)
  then show ?thesis using read_value_agrees [OF f(3), of 16384 h "value_bytes []" ?p] f(1,2) by auto
qed

section \<open>The cold log\<close>

text \<open>
  C25. The cold log round trips.  Frames appended in one batch read back whole at the returned offsets, and a
  walk from the old tail visits exactly those offsets with those frames.
\<close>

theorem cold_frames_read_back:
  assumes "file_inv f ss" "healthy (f_dev f)" "list_all cold_ok frs" "frs \<noteq> []"
    and "p = log_pending shard KindColdChunk q (concat frs)"
    and "fits (f_cursor f) [p]" "unat (f_globalSeq f) + 1 < 2 ^ 64"
  shows "\<exists>f' offs. AppendColdFrames f shard q frs = (f', Inr offs) \<and> file_inv f' (ss @ layout (f_cursor f) (f_globalSeq f) [p])
    \<and> list_all2 (\<lambda>o' fr. ReadColdFrame f' o' = Inr fr) offs frs
    \<and> (\<forall>visit s. WalkColdFrames f' (f_cursor f) visit s = visit_list (\<lambda>s (o', fr). visit s o' fr) (zip offs frs) s)"
proof -
  obtain f' where c: "cut_log f p = (f', Inr (f_cursor f + 64))" "file_inv f' (ss @ [log_seg f p])" "unat (f_cursor f') < 2 ^ 62"
    using cut_ok [OF assms(1,6,7,2)] by blast
  let ?h = "seg_hdr (f_globalSeq f + 1) p"
  let ?offs = "placed (\<lambda>fr. fr) (\<lambda>k fr. f_cursor f + 64 + of_nat k) 0 frs :: u64 list"
  have seg: "log_seg f p = (f_cursor f, ?h, concat frs)" "sh_Kind ?h = KindColdChunk"
    by (simp_all add: log_seg_def assms(5) log_pending_def seg_hdr_def pending_header_def)
  have mem: "(f_cursor f, ?h, concat frs) \<in> set (ss @ [log_seg f p])" by (simp add: seg)
  have rd: "list_all2 (\<lambda>o' fr. ReadColdFrame f' o' = Inr fr) ?offs frs"
    using cold_batch_reads [OF c(2) mem assms(3)] by (simp add: list_all2_conv_all_nth)
  have l: "log_at (f_dev f') 1 16384 ss (f_cursor f)" using c(2) seg by (auto simp: file_inv_def log_at_append)
  have z: "zip ?offs frs = map (\<lambda>(cur, fr). (f_cursor f + 64 + of_nat cur, fr)) (placed (\<lambda>fr. fr) (\<lambda>k fr. (k, fr)) 0 frs)"
    by (simp add: zip_placed map_placed)
  have "WalkColdFrames f' (f_cursor f) visit s = visit_list (\<lambda>s (o', fr). visit s o' fr) (zip ?offs frs) s" for visit :: "'x \<Rightarrow> _" and s
    unfolding WalkColdFrames_def file_walk [OF c(2,3) l] seg(1) visit_all_one
    using clog.walk_all [OF assms(3)] file_go_slice [OF c(2) mem] seg(2)
    by (simp add: cold_visitor_def z visit_list_map case_prod_unfold)
  moreover have "map (\<lambda>o'. o' + (f_cursor f + 64)) (placed (\<lambda>fr. fr) (\<lambda>k fr. of_nat k) 0 frs) = ?offs"
    by (simp add: map_placed add.commute)
  ultimately show ?thesis using c(1,2) rd assms(4,5) unfolding layout_one
    by (auto simp: AppendColdFrames_def pack_cold_eq)
qed

theorem cold_frames_read_back_witness:
  "\<exists>f f' off. CreateOnDevice demo_dev demo_opts = Inr f \<and> AppendColdFrames f 1 1 [[5, 0, 0, 0, 9]] = (f', Inr [off])
     \<and> ReadColdFrame f' off = Inr [5, 0, 0, 0, 9]"
proof -
  obtain f where f: "CreateOnDevice demo_dev demo_opts = Inr f" "healthy (f_dev f)" "file_inv f []"
    "f_cursor f = 16384" "f_globalSeq f = 0" by (rule demo_file)
  have v: "list_all cold_ok [[5, 0, 0, 0, 9]]" by (simp add: cold_ok_def Uint32_def sub_def)
  have fit: "fits (f_cursor f) [log_pending 1 KindColdChunk 1 (concat [[5, 0, 0, 0, 9]])]"
    using f(4) by (intro fits_small) simp_all
  from cold_frames_read_back [OF f(3,2) v _ refl fit] f(5)
  obtain f' offs where "AppendColdFrames f 1 1 [[5, 0, 0, 0, 9]] = (f', Inr offs)"
    "list_all2 (\<lambda>o' fr. ReadColdFrame f' o' = Inr fr) offs [[5, 0, 0, 0, 9]]" by auto
  then show ?thesis using f(1) by (auto simp: list_all2_Cons2)
qed

end
