(* ===== verification/FrameProps.thy ===== *)
theory FrameProps
  imports RegionProps
begin

unbundle bit_operations_syntax

text \<open>
  The frame readers on torn and malformed bytes: a partial frame ends a walk with an error, no
  decoder slices out of range, and three inputs on which the record reader and writer do not do
  what their comments promise.
\<close>

section \<open>Partial frames\<close>

lemma Uvarint_from_partial:
  assumes "i < 10" "unat y < 2 ^ (64 - 7 * i)" "k < length (PutUvarint y)"
  shows "Uvarint_from i x (take k (PutUvarint y)) = (0, 0)"
  using assms
proof (induction y arbitrary: i x k rule: PutUvarint.induct)
  case (1 y)
  show ?case
  proof (cases k)
    case 0
    then show ?thesis by simp
  next
    case (Suc k')
    have y: "y \<ge> 0x80" using 1(4) Suc by (subst (asm) PutUvarint.simps) (auto split: if_splits)
    have "i \<noteq> 9" using 1(3) y by (auto simp: word_le_nat_alt)
    with 1(2) have i: "i \<le> 8" by simp
    have l: "k' < length (PutUvarint (drop_bit 7 y))" using 1(4) Suc y by (subst (asm) PutUvarint.simps) simp
    show ?thesis using 1(1) [OF y _ drop_7_bound [OF i 1(3)] l] y i Suc
      by (subst PutUvarint.simps) (simp add: cont_byte)
  qed
qed

lemma Uvarint_partial: "k < length (PutUvarint y) \<Longrightarrow> Uvarint (take k (PutUvarint y)) = (0, 0)"
  using Uvarint_from_partial [of 0 y k 0] unsigned_less [of y, where 'a = nat] by (simp add: Uvarint_def)

lemma NextRecordFrame_partial:
  assumes "length (record_body row) < 2 ^ 63" "0 < k" "k < length (record_bytes row)"
    and "go_slice (pre @ take k (record_bytes row))"
  shows "NextRecordFrame (pre @ take k (record_bytes row)) (length pre)
    = Inl (if k < length (PutUvarint (of_nat (length (record_body row)))) then ErrLength else ErrShort)"
proof -
  let ?b = "record_body row" and ?n = "PutUvarint (of_nat (length (record_body row)))"
  have u: "unat (of_nat (length ?b) :: u64) = length ?b" using assms(1) by (simp add: unat_of_nat)
  have rb: "record_bytes row = ?n @ ?b @ le_bytes 4 (crc32c [?b])" by (simp add: record_bytes_def)
  show ?thesis
  proof (cases "k < length ?n")
    case True
    then have "take k (record_bytes row) = take k ?n" by (simp add: rb)
    then show ?thesis using True assms(2,4) Uvarint_partial [OF True] by (auto simp: NextRecordFrame_unfold)
  next
    case False
    then have t: "take k (record_bytes row) = ?n @ take (k - length ?n) (?b @ le_bytes 4 (crc32c [?b]))" by (simp add: rb)
    have k: "k < length ?n + length ?b + 4" using assms(3) by (simp add: rb)
    then show ?thesis using False assms(2,4) PutUvarint_pos [of "of_nat (length ?b)"]
      unfolding t by (auto simp: NextRecordFrame_unfold Uvarint_Put u Let_def)
  qed
qed

lemma NextValueFrame_partial:
  assumes "small v" "0 < k" "k < length (value_bytes v)" "go_slice (pre @ take k (value_bytes v))"
  shows "NextValueFrame (pre @ take k (value_bytes v)) (length pre)
    = Inl (if k < length (PutUvarint (of_nat (length v))) then ErrLength else ErrShort)"
proof -
  let ?n = "PutUvarint (of_nat (length v))"
  have rb: "value_bytes v = ?n @ v @ le_bytes 4 (crc32c [v])" by (simp add: value_bytes_def)
  show ?thesis
  proof (cases "k < length ?n")
    case True
    then have "take k (value_bytes v) = take k ?n" by (simp add: rb)
    then show ?thesis using True assms(2,4) Uvarint_partial [OF True] by (auto simp: NextValueFrame_unfold)
  next
    case False
    then have t: "take k (value_bytes v) = ?n @ take (k - length ?n) (v @ le_bytes 4 (crc32c [v]))" by (simp add: rb)
    have k: "k < length ?n + length v + 4" using assms(3) by (simp add: rb)
    then show ?thesis using False assms(2,4) PutUvarint_pos [of "of_nat (length v)"]
      unfolding t by (auto simp: NextValueFrame_unfold Uvarint_Put small_unat [OF assms(1)] Let_def)
  qed
qed

lemma visit_list_collect:
  "visit_list (\<lambda>s (fr, x). (s @ [x], None)) (placed enc (\<lambda>k x. (loc k x, x)) off xs) s = (s @ xs, None)"
  by (induction xs arbitrary: off s) simp_all

text \<open>
  C30. A torn frame ends a walk where the durable frames end.  A payload that holds whole frames and then a
  frame cut short at any byte is walked over exactly the whole frames, and the walk then
  returns ErrLength when the cut is inside the length varint and ErrShort when it is behind it;
  this holds of the record log and of the value log.
\<close>

theorem torn_frame_stops_walk:
  assumes "list_all wf_row rs" "wf_row r" "0 < k" "k < length (record_bytes r)"
    and "go_slice (concat (map record_bytes rs) @ take k (record_bytes r))"
    and "list_all small vs" "small v" "0 < j" "j < length (value_bytes v)"
    and "go_slice (concat (map value_bytes vs) @ take j (value_bytes v))"
  shows "record_loop (\<lambda>s (fr, row). (s @ [row], None)) (concat (map record_bytes rs) @ take k (record_bytes r)) 0 s
      = (s @ rs, Some (if k < length (PutUvarint (of_nat (length (record_body r)))) then ErrLength else ErrShort))
    \<and> value_loop (\<lambda>s (fr, val). (s @ [val], None)) (concat (map value_bytes vs) @ take j (value_bytes v)) 0 t
      = (t @ vs, Some (if j < length (PutUvarint (of_nat (length v))) then ErrLength else ErrShort))"
proof -
  have l: "length (record_body r) < 2 ^ 63" using wf_row_len [OF assms(2)] by simp
  have ne: "take k (record_bytes r) \<noteq> []" "take j (value_bytes v) \<noteq> []" using assms(3,4,8,9) by auto
  show ?thesis
    unfolding rlog.walk_cut [OF assms(1) ne(1) assms(5) NextRecordFrame_partial [OF l assms(3-5)]]
      vlog.walk_cut [OF assms(6) ne(2) assms(10) NextValueFrame_partial [OF assms(7-10)]] visit_list_collect
    by simp
qed

theorem torn_frame_stops_walk_witness:
  "record_loop (\<lambda>s (fr, row). (s @ [row], None)) (record_bytes demo_row @ take 1 (record_bytes demo_row)) 0 [] = ([demo_row], Some ErrShort)"
proof -
  have one: "length (PutUvarint (of_nat (length (record_body demo_row)))) = 1"
    by (subst PutUvarint.simps) (simp add: record_body_def record_hdr_def record_tail_def demo_row_def chunked_row_def int_layout_defs)
  have l: "1 < length (record_bytes demo_row)" "1 < length (value_bytes [])"
    using PutUvarint_pos [of 0] by (auto simp: record_bytes_def value_bytes_def record_body_def)
  have g: "go_slice (concat (map record_bytes [demo_row]) @ take 1 (record_bytes demo_row))" "go_slice (concat (map value_bytes []) @ take 1 (value_bytes []))"
    using one by (simp_all add: go_slice_def maxAlloc_def record_bytes_def record_body_def record_tail_def demo_row_def chunked_row_def)
  from torn_frame_stops_walk [of "[demo_row]" demo_row 1 "[]" "[]" 1 "[]" "[]", OF _ _ _ l(1) g(1) _ _ _ l(2) g(2)] wf_demo_row one
  show ?thesis by (simp add: small_def)
qed

section \<open>Totality\<close>

text \<open>
  C33. No frame decoder of the logs panics, whatever bytes it is given and although its offset
  arithmetic is modulo 2 to the 64: every slice it takes is in range, for record frames and bodies,
  value frames and pointers, cold frames at an offset inside the payload, and collection payloads.
\<close>

theorem frame_decoders_never_panic:
  assumes "go_slice b" "cur \<le> length b"
  shows "NextRecordFrame b off \<noteq> Inl Panic \<and> ParseRecordBody b \<noteq> Inl Panic \<and> NextValueFrame b off \<noteq> Inl Panic
   \<and> ReadValue b base p \<noteq> Inl Panic \<and> ParseValuePointer b \<noteq> Inl Panic \<and> next_cold b cur \<noteq> Inl Panic
   \<and> ParseCollOp b \<noteq> Inl Panic \<and> ParseCollSnap b \<noteq> Inl Panic"
proof -
  have prb: "ParseRecordBody b' \<noteq> Inl Panic" for b'
  proof -
    obtain plen adv where v: "Uvarint (drop 24 b') = (plen, adv)" by force
    with Uvarint_bound [OF v] have "nat adv \<le> length b' - 24" by simp
    then show ?thesis by (auto simp: ParseRecordBody_def Let_def v)
  qed
  have nrf: "NextRecordFrame b off \<noteq> Inl Panic"
    by (cases "Uvarint (drop off b)") (simp add: NextRecordFrame_unfold [OF assms(1)] Let_def)
  have nvf: "NextValueFrame b off \<noteq> Inl Panic"
    by (cases "Uvarint (drop off b)") (simp add: NextValueFrame_unfold [OF assms(1)] Let_def)
  have rv: "ReadValue b base p \<noteq> Inl Panic" "ParseValuePointer b \<noteq> Inl Panic" "next_cold b cur \<noteq> Inl Panic"
    by (auto simp: ReadValue_def ParseValuePointer_def next_cold_unfold [OF assms] Let_def split: if_splits)
  have co: "ParseCollOp b \<noteq> Inl Panic"
    by (cases "Uvarint (drop 2 b)") (simp add: ParseCollOp_def Let_def)
  have cs: "ParseCollSnap b \<noteq> Inl Panic"
    by (cases "Uvarint (drop 1 b)") (simp add: ParseCollSnap_def Let_def)
  show ?thesis using prb nrf nvf rv co cs by blast
qed

text \<open>A length varint of nine 255 bytes, whose frame end wraps, is refused without a panic.\<close>

theorem frame_decoders_never_panic_witness:
  "NextRecordFrame (replicate 9 255 @ [1]) 0 \<noteq> Inl Panic \<and> next_cold [255, 255, 255, 255] 0 \<noteq> Inl Panic"
  using frame_decoders_never_panic [of "replicate 9 255 @ [1]" 0 0] frame_decoders_never_panic [of "[255, 255, 255, 255]" 0 0]
  by (simp add: go_slice_def maxAlloc_def)

text \<open>
  C39. The collection payloads and the value pointer round trip: a decoded effect, snapshot or pointer
  is the one that was encoded, for any sub-key, sub-value, header and element run.
\<close>

theorem collection_payloads_roundtrip:
  assumes "length (op_SubKey opr) < 2 ^ 63" "length (sn_Header sn) < 2 ^ 63"
  shows "ParseCollOp (AppendCollOp [] opr) = Inr opr \<and> ParseCollSnap (AppendCollSnap [] sn) = Inr sn
    \<and> ParseValuePointer (ValuePointer_Marshal p) = Inr p"
  using ParseCollOp_Append [OF assms(1)] ParseCollSnap_Append [OF assms(2)] ParseValuePointer_Marshal by simp

theorem collection_payloads_roundtrip_witness:
  "ParseCollOp (AppendCollOp [] \<lparr>op_Kind = CollKindSet, op_Op = 1, op_SubKey = [109], op_SubValue = []\<rparr>)
     = Inr \<lparr>op_Kind = CollKindSet, op_Op = 1, op_SubKey = [109], op_SubValue = []\<rparr>"
  using collection_payloads_roundtrip [of "\<lparr>op_Kind = CollKindSet, op_Op = 1, op_SubKey = [109], op_SubValue = []\<rparr>"
      "\<lparr>sn_Kind = CollKindSet, sn_Header = [], sn_ElementRun = []\<rparr>"] by simp

section \<open>Where the record log departs from its comments\<close>

text \<open>
  C35. Two gaps of the record codec.  A frame whose value_len outruns its body, with a matching CRC, is not
  refused by NextRecordFrame, which drops the error of ParseRecordBody and reports the zero row
  as a record.  And a row flagged both chunked and inline is written with a length
  prefix that the parser does not expect, so it comes back with another key.
\<close>

theorem record_codec_gaps:
  assumes "framePayload (rr_Flags row)" "\<not> chunked_row row" "length (rr_Value row) + length (rr_Key row) < unat (rr_ValueLen row)"
    and "framePayload (rr_Flags both)" "chunked_row both" "rr_ValueLen both = of_nat (length (rr_Value both))"
    and "length (rr_Value both) < 128" "length (rr_Key both) < 2 ^ 30"
  shows "ParseRecordBody (record_body row) = Inl ErrLength
    \<and> (\<exists>fr. NextRecordFrame (fst (AppendRecordFrame [] row)) 0 = Inr ((fr, zero_RecordRow), length (record_bytes row)))
    \<and> (\<exists>r. ParseRecordBody (record_body both) = Inr r \<and> length (rr_Key r) = Suc (length (rr_Key both)))"
proof -
  have len: "length (record_body row) < 2 ^ 63"
    using assms(3) unsigned_less [of "rr_ValueLen row", where 'a = nat] assms(2)
    by (simp add: record_body_def record_tail_def)
  have pr: "ParseRecordBody (record_body row) = Inl ErrLength"
    using assms(1-3) by (simp add: ParseRecordBody_def record_body_def record_hdr_fields record_tail_def Let_def)
  have "length (record_body row) < 2 ^ 33"
    using assms(3) unsigned_less [of "rr_ValueLen row", where 'a = nat] assms(2)
    by (simp add: record_body_def record_tail_def)
  then have g: "go_slice (record_bytes row)"
    using length_PutUvarint [of "of_nat (length (record_body row))"] by (simp add: go_slice_def maxAlloc_def record_bytes_def)
  have nr: "NextRecordFrame (fst (AppendRecordFrame [] row)) 0
      = Inr ((record_loc 0 row, zero_RecordRow), length (record_bytes row))"
    using NextRecordFrame_body [OF len, of "[]" "[]"] pr g by (simp add: AppendRecordFrame_eq)
  have u: "unat (rr_ValueLen both) = length (rr_Value both)" using assms(6,7) by (simp add: unat_of_nat)
  have "PutUvarint (of_nat (length (rr_Value both))) = [of_nat (length (rr_Value both))]"
  proof -
    have "\<not> (0x80 :: u64) \<le> of_nat (length (rr_Value both))" using assms(7) by (simp add: word_le_nat_alt unat_of_nat)
    then show ?thesis by (subst PutUvarint.simps) (simp add: unsigned_of_nat word_unat_eq_iff unat_of_nat take_bit_eq_mod mod_mod_cancel)
  qed
  then have t: "record_tail both = (of_nat (length (rr_Value both)) # rr_Value both) @ rr_Key both"
    using assms(5) by (simp add: record_tail_def)
  have "\<exists>r. ParseRecordBody (record_body both) = Inr r \<and> length (rr_Key r) = Suc (length (rr_Key both))"
    using assms(4) by (simp add: ParseRecordBody_def record_body_def record_hdr_fields Let_def t u)
  with pr nr show ?thesis by blast
qed

theorem record_codec_gaps_witness:
  "(\<exists>fr. NextRecordFrame (fst (AppendRecordFrame [] (demo_row\<lparr>rr_ValueLen := 9\<rparr>))) 0
      = Inr ((fr, zero_RecordRow), length (record_bytes (demo_row\<lparr>rr_ValueLen := 9\<rparr>))))
   \<and> (\<exists>r. ParseRecordBody (record_body (demo_row\<lparr>rr_Flags := 6\<rparr>)) = Inr r \<and> length (rr_Key r) = 2)"
  using record_codec_gaps [of "demo_row\<lparr>rr_ValueLen := 9\<rparr>" "demo_row\<lparr>rr_Flags := 6\<rparr>"]
  by (auto simp: demo_row_def framePayload_def chunked_row_def)

text \<open>
  C36. ReadRecordAt trusts the length varint before any check: at an address whose bytes are the varint of a
  body length near 2 to the 64, the buffer size wraps and the read panics, and at one of a
  length past the allocation bound the allocation panics; neither is refused with an error.
\<close>

theorem read_record_at_panics:
  assumes "ReadAt (f_dev f) addr 10 = (PutUvarint bl @ rest, eo)"
    and "unat bl + 4 > maxAlloc" "unat bl + 4 < 2 ^ 64 \<or> sint (addr + of_nat (length (PutUvarint bl))) \<ge> 0
       \<and> (\<forall>i n. \<not> d_badread (f_dev f) i n) \<and> unat (addr + of_nat (length (PutUvarint bl))) + 4 \<le> length (d_data (f_dev f))"
  shows "ReadRecordAt f addr = Inl Panic"
proof -
  let ?n = "PutUvarint bl"
  have ne: "?n \<noteq> []" by (rule PutUvarint_pos)
  have big: "\<not> bl < 24" using assms(2) by (simp add: word_less_nat_alt maxAlloc_def)
  show ?thesis
  proof (cases "unat bl + 4 < 2 ^ 64")
    case True
    then have "unat (bl + 4) = unat bl + 4" using unat_add_small [of bl 4] by simp
    then have "make_bytes (bl + 4) = Inl Panic" using assms(2) by (simp add: make_bytes_def)
    then show ?thesis using ne big by (simp add: ReadRecordAt_def assms(1) Uvarint_Put)
  next
    case False
    have bu: "unat bl < 2 ^ 64" using unsigned_less [of bl, where 'a = nat] by simp
    have w: "unat (bl + 4) = unat bl + 4 - 2 ^ 64"
      using False bu unat_word_ariths(1) [of bl 4] by (simp add: mod_if)
    then have small: "unat (bl + 4) < 4" using bu by simp
    have mk: "make_bytes (bl + 4) = Inr (replicate (unat (bl + 4)) 0)"
      using small by (simp add: make_bytes_def maxAlloc_def)
    obtain buf where rd: "read_full (f_dev f) (addr + of_nat (length ?n)) (unat (bl + 4)) = Inr buf" "length buf = unat (bl + 4)"
      using assms(3) False small by (auto simp: read_full_Inr sint_u64_nonneg)
    have "slice buf 0 (unat bl) = Inl Panic" using rd(2) small assms(2) by (simp add: slice_def maxAlloc_def)
    then show ?thesis using ne big rd(1) by (simp add: ReadRecordAt_def assms(1) Uvarint_Put mk)
  qed
qed

theorem read_record_at_panics_witness:
  "\<exists>f f'. CreateOnDevice demo_dev demo_opts = Inr f
     \<and> cut_log f (log_pending 1 KindLog 1 (PutUvarint (2 ^ 50))) = (f', Inr 16448) \<and> ReadRecordAt f' 16448 = Inl Panic"
proof -
  let ?n = "PutUvarint (2 ^ 50)"
  have len: "length ?n \<le> 10" "length ?n < 2 ^ 40" using length_PutUvarint [of "2 ^ 50"] by simp_all
  obtain f f' h where f: "CreateOnDevice demo_dev demo_opts = Inr f"
    "cut_log f (log_pending 1 KindLog 1 ?n) = (f', Inr 16448)" "file_inv f' [(16384, h, ?n)]"
    using demo_cut [OF len(2), where k = KindLog] by metis
  obtain ex eo where "ReadAt (f_dev f') 16448 10 = (?n @ take (10 - length ?n) ex, eo)"
    using payload_read_at [OF f(3), of 16384 h ?n 0 10] len(1) by auto
  from read_record_at_panics [OF this] f show ?thesis by (auto simp: maxAlloc_def)
qed

end
