(* ===== verification/GroupCommit.thy ===== *)
theory GroupCommit
  imports RegionReads "HOL-Library.Sublist"
begin

unbundle bit_operations_syntax

text \<open>
  The group-commit writer of groupwriter.go: shard owners push sealed batches into bounded
  rings; one goroutine drains every ring in a pass, appends the batches as one group,
  and hands each batch its addresses or the error.

  The producers, the callers of Barrier and Stop, and the goroutine interleave freely, so the
  writer is a transition system.  A step is one channel operation or one call that only the
  goroutine makes (commit, Sync).  The select of the parked goroutine is the choice between the
  rules that start at Parked.  Three fields record the history: the batches accepted by
  Submit and the batches committed, in order, and the completions called.
\<close>

section \<open>State\<close>

text \<open>A batch; its completion is named by a number, None when the producer passed nil.\<close>

record sealed =
  se_shard :: u16
  se_shardSeq :: u64
  se_payload :: bytes
  se_frames :: "RecordFrame list"
  se_done :: "nat option"

text \<open>
  Where the goroutine is: not started, in a drain pass (why it drains, the ring it is at, the
  group so far), parked on the select, or gone.  A pass for a barrier carries the batches
  that had been accepted when the barrier was taken.
\<close>

datatype drain_cause = Loop | ForBarrier "sealed list" | ForQuit

datatype writer_pc = NotStarted | Draining drain_cause nat "sealed list" | Parked | Exited

record GroupWriter =
  gw_f :: File
  gw_rings :: "sealed list list"
  gw_cap :: nat
  gw_signal :: bool
  gw_ringing :: "nat list"
  gw_quit :: bool
  gw_pc :: writer_pc
  gw_accepted :: "sealed list"
  gw_committed :: "sealed list"
  gw_calls :: "(nat \<times> u64 list \<times> err option) list"
  gw_acks :: "(sealed list \<times> err option) list"

definition NewGroupWriter :: "File \<Rightarrow> int \<Rightarrow> int \<Rightarrow> GroupWriter" where
  "NewGroupWriter f shards ring =
    (let shards = (if shards < 1 then 1 else shards);
         ring = (if ring < 1 then 1 else ring)
     in \<lparr>gw_f = f, gw_rings = replicate (nat shards) [], gw_cap = nat ring, gw_signal = False, gw_ringing = [], gw_quit = False,
         gw_pc = NotStarted, gw_accepted = [], gw_committed = [], gw_calls = [], gw_acks = []\<rparr>)"

section \<open>Operations\<close>

text \<open>
  A Submit is two channel operations, the push into the ring and the ring of the doorbell, and the goroutine
  may run between them; gw_ringing holds the shards whose owner is between the two.
\<close>

text \<open>begin.Do: the first Submit or Barrier starts the goroutine at the head of its loop.\<close>

definition started :: "GroupWriter \<Rightarrow> GroupWriter" where
  "started w = (if gw_pc w = NotStarted then w\<lparr>gw_pc := Draining Loop 0 []\<rparr> else w)"

definition Submit_push :: "GroupWriter \<Rightarrow> sealed \<Rightarrow> GroupWriter \<times> (err + bool)" where
  "Submit_push w b =
    (let w = started w; i = unat (se_shard b) in
     if i \<ge> length (gw_rings w) then (w, Inl Panic)
     else if length (gw_rings w ! i) < gw_cap w then
       (w\<lparr>gw_rings := (gw_rings w)[i := gw_rings w ! i @ [b]], gw_ringing := i # gw_ringing w,
          gw_accepted := gw_accepted w @ [b]\<rparr>, Inr True)
     else (w, Inr False))"

definition Submit_bell :: "GroupWriter \<Rightarrow> nat \<Rightarrow> GroupWriter" where
  "Submit_bell w i = w\<lparr>gw_signal := True, gw_ringing := remove1 i (gw_ringing w)\<rparr>"

text \<open>commit: one AppendGroup; on an error every completion gets it and no address.\<close>

definition batch_pending :: "sealed \<Rightarrow> Pending" where
  "batch_pending b = log_pending (se_shard b) KindLog (se_shardSeq b) (se_payload b)"

definition resolve :: "u64 \<Rightarrow> sealed \<Rightarrow> u64 list" where
  "resolve off b = map (\<lambda>fr. off + SegHeaderLen + rf_FrameOff fr) (se_frames b)"

fun completions :: "sealed list \<Rightarrow> (sealed \<Rightarrow> nat \<Rightarrow> u64 list \<times> err option) \<Rightarrow> nat \<Rightarrow> (nat \<times> u64 list \<times> err option) list" where
  "completions [] res i = []"
| "completions (b # bs) res i =
    (case se_done b of None \<Rightarrow> [] | Some k \<Rightarrow> [(k, res b i)]) @ completions bs res (Suc i)"

definition commit :: "File \<Rightarrow> sealed list \<Rightarrow> File \<times> (nat \<times> u64 list \<times> err option) list" where
  "commit f grp =
    (case AppendGroup f (map batch_pending grp) of
       (f, offs, Some e) \<Rightarrow> (f, completions grp (\<lambda>b i. ([], Some e)) 0)
     | (f, offs, None) \<Rightarrow> (f, completions grp (\<lambda>b i. (resolve (offs ! i) b, None)) 0))"

section \<open>The transition system\<close>

text \<open>What follows a finished pass: commit when it collected anything, then go on as the cause says.\<close>

definition commit_pass :: "GroupWriter \<Rightarrow> sealed list \<Rightarrow> GroupWriter" where
  "commit_pass w grp =
    (if grp = [] then w
     else case commit (gw_f w) grp of
       (f, calls) \<Rightarrow> w\<lparr>gw_f := f, gw_committed := gw_committed w @ grp, gw_calls := gw_calls w @ calls\<rparr>)"

fun finish_pass :: "GroupWriter \<Rightarrow> drain_cause \<Rightarrow> sealed list \<Rightarrow> GroupWriter" where
  "finish_pass w Loop grp =
    (commit_pass w grp)\<lparr>gw_pc := if grp = [] then Parked else Draining Loop 0 []\<rparr>"
| "finish_pass w (ForBarrier acc) grp =
    (let w = commit_pass w grp in
     case doSync (gw_f w) of (f, e) \<Rightarrow> w\<lparr>gw_f := f, gw_acks := gw_acks w @ [(acc, e)], gw_pc := Draining Loop 0 []\<rparr>)"
| "finish_pass w ForQuit grp = (commit_pass w grp)\<lparr>gw_pc := Exited\<rparr>"

text \<open>The steps of the goroutine on its own: drain, commit, park, wake.\<close>

inductive writer_step :: "GroupWriter \<Rightarrow> GroupWriter \<Rightarrow> bool" where
  take_batch: "gw_pc w = Draining c i grp \<Longrightarrow> i < length (gw_rings w) \<Longrightarrow> gw_rings w ! i = b # bs \<Longrightarrow>
     writer_step w (w\<lparr>gw_rings := (gw_rings w)[i := bs], gw_pc := Draining c i (grp @ [b])\<rparr>)"
| next_ring: "gw_pc w = Draining c i grp \<Longrightarrow> i < length (gw_rings w) \<Longrightarrow> gw_rings w ! i = [] \<Longrightarrow>
     writer_step w (w\<lparr>gw_pc := Draining c (Suc i) grp\<rparr>)"
| end_pass: "gw_pc w = Draining c i grp \<Longrightarrow> i \<ge> length (gw_rings w) \<Longrightarrow> writer_step w (finish_pass w c grp)"
| wake: "gw_pc w = Parked \<Longrightarrow> gw_signal w \<Longrightarrow> writer_step w (w\<lparr>gw_signal := False, gw_pc := Draining Loop 0 []\<rparr>)"
| see_quit: "gw_pc w = Parked \<Longrightarrow> gw_quit w \<Longrightarrow> writer_step w (w\<lparr>gw_pc := Draining ForQuit 0 []\<rparr>)"

text \<open>
  The steps of the others.  Stop is called after the producers have quiesced, so no Submit follows it;
  a Barrier is taken by the parked goroutine, or returns nil once quit is closed.  gw_acks holds
  what every Barrier returned, with the batches accepted when it was taken or returned through quit.
\<close>

inductive gw_step :: "GroupWriter \<Rightarrow> GroupWriter \<Rightarrow> bool" where
  writer: "writer_step w w' \<Longrightarrow> gw_step w w'"
| push: "\<not> gw_quit w \<Longrightarrow> unat (se_shard b) < length (gw_rings w) \<Longrightarrow> unat (se_shard b) \<notin> set (gw_ringing w) \<Longrightarrow>
     gw_step w (fst (Submit_push w b))"
| bell: "i \<in> set (gw_ringing w) \<Longrightarrow> gw_step w (Submit_bell w i)"
| call_barrier: "\<not> gw_quit w \<Longrightarrow> gw_step w (started w)"
| take_barrier: "gw_pc w = Parked \<Longrightarrow> gw_step w (w\<lparr>gw_pc := Draining (ForBarrier (gw_accepted w)) 0 []\<rparr>)"
| stop: "gw_pc w \<noteq> NotStarted \<Longrightarrow> gw_ringing w = [] \<Longrightarrow> gw_step w (w\<lparr>gw_quit := True\<rparr>)"
| quit_barrier: "gw_quit w \<Longrightarrow> gw_step w (w\<lparr>gw_acks := gw_acks w @ [(gw_accepted w, None)]\<rparr>)"

text \<open>The states reached through states that satisfy P.\<close>

inductive gw_run :: "(GroupWriter \<Rightarrow> bool) \<Rightarrow> GroupWriter \<Rightarrow> GroupWriter \<Rightarrow> bool" for P where
  start: "gw_run P w w"
| step: "gw_run P w w1 \<Longrightarrow> P w1 \<Longrightarrow> gw_step w1 w2 \<Longrightarrow> gw_run P w w2"

inductive_cases writer_stepE: "writer_step w w'"
inductive_cases gw_stepE: "gw_step w w'"

section \<open>The invariant\<close>

definition of_shard :: "nat \<Rightarrow> sealed list \<Rightarrow> sealed list" where
  "of_shard s bs = filter (\<lambda>b. unat (se_shard b) = s) bs"

lemma of_shard_simps [simp]:
  "of_shard s [] = []" "of_shard s (xs @ ys) = of_shard s xs @ of_shard s ys"
  "of_shard s (b # bs) = (if unat (se_shard b) = s then b # of_shard s bs else of_shard s bs)"
  by (simp_all add: of_shard_def)

definition in_flight :: "GroupWriter \<Rightarrow> sealed list" where
  "in_flight w = (case gw_pc w of Draining c i grp \<Rightarrow> grp | _ \<Rightarrow> [])"

text \<open>Ring s holds batches of shard s, within its bound, and every accepted batch is, in order, committed, in the group or queued.\<close>

definition gw_fifo :: "GroupWriter \<Rightarrow> bool" where
  "gw_fifo w \<longleftrightarrow> (\<forall>s < length (gw_rings w).
     list_all (\<lambda>b. unat (se_shard b) = s) (gw_rings w ! s) \<and> length (gw_rings w ! s) \<le> gw_cap w
     \<and> of_shard s (gw_accepted w) = of_shard s (gw_committed w) @ of_shard s (in_flight w) @ gw_rings w ! s)"

text \<open>
  The doorbell rule: a ring behind the pass, or any ring of a parked goroutine, is empty, or the doorbell
  has been rung, or its owner is about to ring it.  After quit the rings behind the pass stay empty.
\<close>

definition rung :: "GroupWriter \<Rightarrow> nat \<Rightarrow> bool" where
  "rung w s \<longleftrightarrow> gw_rings w ! s = [] \<or> gw_signal w \<or> s \<in> set (gw_ringing w)"

definition gw_bell :: "GroupWriter \<Rightarrow> bool" where
  "gw_bell w \<longleftrightarrow> (gw_quit w \<longrightarrow> gw_ringing w = []) \<and>
     (case gw_pc w of
        NotStarted \<Rightarrow> (\<forall>s < length (gw_rings w). gw_rings w ! s = []) \<and> \<not> gw_quit w
      | Draining c i grp \<Rightarrow> (\<forall>s < length (gw_rings w). s < i \<longrightarrow> rung w s)
          \<and> (c = ForQuit \<longrightarrow> gw_quit w \<and> (\<forall>s < length (gw_rings w). s < i \<longrightarrow> gw_rings w ! s = []))
      | Parked \<Rightarrow> (\<forall>s < length (gw_rings w). rung w s)
      | Exited \<Rightarrow> gw_quit w \<and> (\<forall>s < length (gw_rings w). gw_rings w ! s = []))"

text \<open>A pass for a barrier has covered, ring by ring, the batches accepted before the barrier.\<close>

definition gw_barrier :: "GroupWriter \<Rightarrow> bool" where
  "gw_barrier w \<longleftrightarrow>
     (case gw_pc w of
        Draining (ForBarrier acc) i grp \<Rightarrow> (\<forall>s < length (gw_rings w).
          prefix (of_shard s acc) (of_shard s (gw_accepted w))
          \<and> (s < i \<longrightarrow> prefix (of_shard s acc) (of_shard s (gw_committed w) @ of_shard s grp)))
      | _ \<Rightarrow> True)"

text \<open>Every committed batch that has a completion gets one call, in order.\<close>

definition gw_called :: "GroupWriter \<Rightarrow> bool" where
  "gw_called w \<longleftrightarrow> map fst (gw_calls w) = List.map_filter se_done (gw_committed w)"

section \<open>Preservation\<close>

lemma map_fst_completions: "map fst (completions grp res i) = List.map_filter se_done grp"
  by (induction grp res i rule: completions.induct) (auto simp: List.map_filter_def split: option.splits)

lemma commit_calls: "commit f grp = (f', calls) \<Longrightarrow> map fst calls = List.map_filter se_done grp"
  by (auto simp: commit_def map_fst_completions split: prod.splits option.splits)

lemma commit_pass_fields:
  "gw_rings (commit_pass w grp) = gw_rings w" "gw_cap (commit_pass w grp) = gw_cap w"
  "gw_signal (commit_pass w grp) = gw_signal w" "gw_ringing (commit_pass w grp) = gw_ringing w"
  "gw_quit (commit_pass w grp) = gw_quit w" "gw_accepted (commit_pass w grp) = gw_accepted w"
  "gw_committed (commit_pass w grp) = gw_committed w @ grp" "gw_pc (commit_pass w grp) = gw_pc w"
  "gw_acks (commit_pass w grp) = gw_acks w"
  by (auto simp: commit_pass_def split: prod.splits)

lemma commit_pass_called: "gw_called w \<Longrightarrow> gw_called (commit_pass w grp)"
  by (auto simp: commit_pass_def gw_called_def List.map_filter_def dest!: commit_calls split: prod.splits)

lemma finish_pass_fields:
  "gw_rings (finish_pass w c grp) = gw_rings w" "gw_cap (finish_pass w c grp) = gw_cap w"
  "gw_signal (finish_pass w c grp) = gw_signal w" "gw_ringing (finish_pass w c grp) = gw_ringing w"
  "gw_quit (finish_pass w c grp) = gw_quit w" "gw_accepted (finish_pass w c grp) = gw_accepted w"
  "gw_committed (finish_pass w c grp) = gw_committed w @ grp"
  "gw_pc (finish_pass w c grp) =
    (case c of Loop \<Rightarrow> if grp = [] then Parked else Draining Loop 0 [] | ForBarrier acc \<Rightarrow> Draining Loop 0 [] | ForQuit \<Rightarrow> Exited)"
  by (cases c; simp add: commit_pass_fields Let_def split: prod.splits)+

lemma finish_pass_called: "gw_called w \<Longrightarrow> gw_called (finish_pass w c grp)"
  using commit_pass_called [of w grp] by (cases c) (auto simp: gw_called_def Let_def split: prod.splits)

declare finish_pass.simps [simp del]

end
