(* ===== verification/GroupProps.thy ===== *)
theory GroupProps
  imports GroupCommit RegionProps
begin

unbundle bit_operations_syntax

text \<open>
  The properties of the group-commit writer over every interleaving: no batch is lost, duplicated or
  reordered, no wake-up is lost, the goroutine left alone commits everything, and an address
  that is handed out reads back its record.
\<close>

section \<open>The invariant holds in every reachable state\<close>

definition gw_inv :: "GroupWriter \<Rightarrow> bool" where
  "gw_inv w \<longleftrightarrow> gw_fifo w \<and> gw_bell w \<and> gw_barrier w \<and> gw_called w"

lemma gw_inv_new: "gw_inv (NewGroupWriter f shards ring)"
  by (simp add: gw_inv_def gw_fifo_def gw_bell_def gw_barrier_def gw_called_def NewGroupWriter_def Let_def
      in_flight_def List.map_filter_def)

lemma list_all_shard: "list_all (\<lambda>b. unat (se_shard b) = s) bs \<Longrightarrow> of_shard t bs = (if t = s then bs else [])"
  by (induction bs) auto

lemma gw_fifoD:
  assumes "gw_fifo w" "s < length (gw_rings w)"
  shows "list_all (\<lambda>b. unat (se_shard b) = s) (gw_rings w ! s)" "length (gw_rings w ! s) \<le> gw_cap w"
    "of_shard s (gw_accepted w) = of_shard s (gw_committed w) @ of_shard s (in_flight w) @ gw_rings w ! s"
  using assms by (simp_all add: gw_fifo_def)

lemma take_batch_inv:
  assumes "gw_inv w" "gw_pc w = Draining c i grp" "i < length (gw_rings w)" "gw_rings w ! i = b # bs"
  shows "gw_inv (w\<lparr>gw_rings := (gw_rings w)[i := bs], gw_pc := Draining c i (grp @ [b])\<rparr>)" (is "gw_inv ?w")
proof -
  have f: "gw_fifo w" "gw_bell w" "gw_barrier w" "gw_called w" using assms(1) by (simp_all add: gw_inv_def)
  have b: "unat (se_shard b) = i" using gw_fifoD(1) [OF f(1) assms(3)] assms(4) by simp
  have "gw_fifo ?w"
    using f(1) assms(2-4) b by (auto simp: gw_fifo_def in_flight_def nth_list_update)
  moreover have "gw_bell ?w" using f(2) assms(2,3) by (auto simp: gw_bell_def rung_def nth_list_update)
  moreover have "gw_barrier ?w"
    using f(3) assms(2) b by (cases c) (auto simp: gw_barrier_def intro: prefix_order.trans)
  ultimately show ?thesis using f(4) by (simp add: gw_inv_def gw_called_def)
qed

lemma next_ring_inv:
  assumes "gw_inv w" "gw_pc w = Draining c i grp" "i < length (gw_rings w)" "gw_rings w ! i = []"
  shows "gw_inv (w\<lparr>gw_pc := Draining c (Suc i) grp\<rparr>)" (is "gw_inv ?w")
proof -
  have f: "gw_fifo w" "gw_bell w" "gw_barrier w" "gw_called w" using assms(1) by (simp_all add: gw_inv_def)
  have "gw_fifo ?w" using f(1) assms(2) by (simp add: gw_fifo_def in_flight_def)
  moreover have "gw_bell ?w" using f(2) assms(2-4) by (auto simp: gw_bell_def rung_def less_Suc_eq)
  moreover have "gw_barrier ?w"
  proof (cases c)
    case (ForBarrier acc)
    have "of_shard i (gw_accepted w) = of_shard i (gw_committed w) @ of_shard i grp"
      using gw_fifoD(3) [OF f(1) assms(3)] assms(2,4) by (simp add: in_flight_def)
    then show ?thesis using ForBarrier f(3) assms(2,3) by (auto simp: gw_barrier_def less_Suc_eq)
  qed (simp_all add: gw_barrier_def)
  ultimately show ?thesis using f(4) by (simp add: gw_inv_def gw_called_def)
qed

lemma end_pass_inv:
  assumes "gw_inv w" "gw_pc w = Draining c i grp" "i \<ge> length (gw_rings w)"
  shows "gw_inv (finish_pass w c grp)"
proof -
  have f: "gw_fifo w" "gw_bell w" "gw_barrier w" "gw_called w" using assms(1) by (simp_all add: gw_inv_def)
  have "gw_fifo (finish_pass w c grp)"
    using f(1) assms(2) by (cases c) (auto simp: gw_fifo_def in_flight_def finish_pass_fields)
  moreover have "gw_bell (finish_pass w c grp)"
    using f(2) assms(2,3)
    by (cases c) (auto simp: gw_bell_def rung_def finish_pass_fields)
  moreover have "gw_barrier (finish_pass w c grp)"
    by (cases c) (simp_all add: gw_barrier_def finish_pass_fields)
  ultimately show ?thesis using finish_pass_called [OF f(4)] by (simp add: gw_inv_def)
qed

lemma writer_step_inv:
  assumes "writer_step w w'" "gw_inv w" shows "gw_inv w'"
  using assms
proof (cases rule: writer_step.cases)
  case (take_batch c i grp b bs)
  then show ?thesis using take_batch_inv assms(2) by simp
next
  case (next_ring c i grp)
  then show ?thesis using next_ring_inv assms(2) by simp
next
  case (end_pass c i grp)
  then show ?thesis using end_pass_inv assms(2) by simp
next
  case wake
  then show ?thesis using assms(2)
    by (simp add: gw_inv_def gw_fifo_def gw_bell_def gw_barrier_def gw_called_def in_flight_def)
next
  case see_quit
  then show ?thesis using assms(2)
    by (simp add: gw_inv_def gw_fifo_def gw_bell_def gw_barrier_def gw_called_def in_flight_def)
qed

lemma started_fields [simp]:
  "gw_rings (started w) = gw_rings w" "gw_cap (started w) = gw_cap w" "gw_signal (started w) = gw_signal w"
  "gw_ringing (started w) = gw_ringing w" "gw_quit (started w) = gw_quit w" "gw_accepted (started w) = gw_accepted w"
  "gw_committed (started w) = gw_committed w" "gw_calls (started w) = gw_calls w" "gw_f (started w) = gw_f w"
  "gw_acks (started w) = gw_acks w" "in_flight (started w) = in_flight w" "gw_pc (started w) \<noteq> NotStarted"
  by (simp_all add: started_def in_flight_def)

lemma started_inv: "gw_inv w \<Longrightarrow> gw_inv (started w)"
  by (cases "gw_pc w = NotStarted")
    (simp_all add: started_def gw_inv_def gw_fifo_def gw_bell_def gw_barrier_def gw_called_def in_flight_def)

lemma push_inv:
  assumes "gw_inv w" "\<not> gw_quit w" "unat (se_shard b) < length (gw_rings w)"
  shows "gw_inv (fst (Submit_push w b))"
proof (cases "length (gw_rings w ! unat (se_shard b)) < gw_cap w")
  case True
  let ?i = "unat (se_shard b)" and ?w = "started w"
  let ?v = "?w\<lparr>gw_rings := (gw_rings w)[?i := gw_rings w ! ?i @ [b]], gw_ringing := ?i # gw_ringing w,
     gw_accepted := gw_accepted w @ [b]\<rparr>"
  have v: "fst (Submit_push w b) = ?v" using True assms(3) by (simp add: Submit_push_def Let_def)
  have f: "gw_fifo ?w" "gw_bell ?w" "gw_barrier ?w" "gw_called ?w" using started_inv [OF assms(1)] by (simp_all add: gw_inv_def)
  have infl: "in_flight ?v = in_flight ?w" by (simp add: in_flight_def)
  have "gw_fifo ?v"
    unfolding gw_fifo_def infl using f(1) True assms(3) by (auto simp: gw_fifo_def nth_list_update)
  moreover have "gw_bell ?v"
    using f(2) assms(2,3) by (cases "gw_pc ?w") (auto simp: gw_bell_def rung_def nth_list_update)
  moreover have "gw_barrier ?v"
    using f(3) by (auto simp: gw_barrier_def split: writer_pc.splits drain_cause.splits)
  ultimately show ?thesis using f(4) unfolding v by (simp add: gw_inv_def gw_called_def)
next
  case False
  then show ?thesis using started_inv [OF assms(1)] assms(3) by (simp add: Submit_push_def Let_def)
qed

lemma gw_step_inv:
  assumes "gw_step w w'" "gw_inv w" shows "gw_inv w'"
  using assms
proof (cases rule: gw_step.cases)
  case writer
  then show ?thesis using writer_step_inv assms(2) by blast
next
  case (push b)
  then show ?thesis using push_inv assms(2) by simp
next
  case (bell i)
  then show ?thesis using assms(2)
    by (auto simp: gw_inv_def gw_fifo_def gw_bell_def gw_barrier_def gw_called_def in_flight_def Submit_bell_def rung_def
        split: writer_pc.splits drain_cause.splits)
next
  case call_barrier
  then show ?thesis using started_inv assms(2) by simp
next
  case take_barrier
  then show ?thesis using assms(2)
    by (auto simp: gw_inv_def gw_fifo_def gw_bell_def gw_barrier_def gw_called_def in_flight_def)
next
  case stop
  then show ?thesis using assms(2)
    by (auto simp: gw_inv_def gw_fifo_def gw_bell_def gw_barrier_def gw_called_def in_flight_def rung_def
        split: writer_pc.splits drain_cause.splits)
next
  case quit_barrier
  then show ?thesis using assms(2)
    by (auto simp: gw_inv_def gw_fifo_def gw_bell_def gw_barrier_def gw_called_def in_flight_def rung_def
        split: writer_pc.splits drain_cause.splits)
qed

lemma gw_run_inv: "gw_run P w w' \<Longrightarrow> gw_inv w \<Longrightarrow> gw_inv w'"
  by (induction rule: gw_run.induct) (auto intro: gw_step_inv)

text \<open>
  C4. No batch is lost, duplicated or reordered.  In every reachable state, whatever the interleaving and
  whatever the device does, each shard's accepted batches are, in order, the ones committed, then those in the
  group being drained, then those in its ring, which is within its bound; the completions called
  are those of the committed batches, in order, once each; and when the goroutine has exited after Stop
  nothing accepted is left uncommitted.
\<close>

theorem group_writer_fifo:
  assumes "gw_run (\<lambda>_. True) (NewGroupWriter f shards ring) w" "s < length (gw_rings w)"
  shows "of_shard s (gw_accepted w) = of_shard s (gw_committed w) @ of_shard s (in_flight w) @ gw_rings w ! s
    \<and> length (gw_rings w ! s) \<le> gw_cap w
    \<and> map fst (gw_calls w) = List.map_filter se_done (gw_committed w)
    \<and> (gw_pc w = Exited \<longrightarrow> of_shard s (gw_accepted w) = of_shard s (gw_committed w))"
proof -
  have i: "gw_inv w" using gw_run_inv [OF assms(1) gw_inv_new] .
  then have "gw_fifo w" "gw_bell w" "gw_called w" by (simp_all add: gw_inv_def)
  then show ?thesis using gw_fifoD [of w s] assms(2) by (auto simp: gw_bell_def gw_called_def in_flight_def)
qed

definition demo_batch :: sealed where
  "demo_batch = \<lparr>se_shard = 1, se_shardSeq = 1, se_payload = record_bytes demo_row,
     se_frames = [record_loc 0 demo_row], se_done = Some 7\<rparr>"

lemma demo_push:
  "fst (Submit_push (NewGroupWriter f 2 4) demo_batch) =
    (NewGroupWriter f 2 4)\<lparr>gw_pc := Draining Loop 0 [], gw_rings := [[], [demo_batch]], gw_ringing := [1], gw_accepted := [demo_batch]\<rparr>"
  by (simp add: Submit_push_def started_def NewGroupWriter_def demo_batch_def Let_def numeral_2_eq_2)

lemma demo_push_step: "gw_step (NewGroupWriter f 2 4) (fst (Submit_push (NewGroupWriter f 2 4) demo_batch))"
  by (rule gw_step.push) (simp_all add: NewGroupWriter_def demo_batch_def Let_def)

theorem group_writer_fifo_witness:
  "\<exists>f w. CreateOnDevice demo_dev demo_opts = Inr f \<and> w = fst (Submit_push (NewGroupWriter f 2 4) demo_batch)
     \<and> of_shard 1 (gw_accepted w) = [demo_batch]
     \<and> of_shard 1 (gw_accepted w) = of_shard 1 (gw_committed w) @ of_shard 1 (in_flight w) @ gw_rings w ! 1"
proof -
  obtain f where f: "CreateOnDevice demo_dev demo_opts = Inr f" by (rule demo_file)
  let ?w = "fst (Submit_push (NewGroupWriter f 2 4) demo_batch)"
  have "gw_run (\<lambda>_. True) (NewGroupWriter f 2 4) ?w" by (rule gw_run.step [OF gw_run.start TrueI demo_push_step])
  moreover have "1 < length (gw_rings ?w)" by (simp add: demo_push)
  ultimately have "of_shard 1 (gw_accepted ?w) = of_shard 1 (gw_committed ?w) @ of_shard 1 (in_flight ?w) @ gw_rings ?w ! 1"
    using group_writer_fifo [of f 2 4 ?w 1] by blast
  moreover have "of_shard 1 (gw_accepted ?w) = [demo_batch]" by (simp add: demo_push) (simp add: demo_batch_def)
  ultimately show ?thesis using f by blast
qed

section \<open>The goroutine left alone\<close>

definition queued :: "GroupWriter \<Rightarrow> nat" where
  "queued w = sum_list (map length (gw_rings w))"

definition pc_rank :: "GroupWriter \<Rightarrow> nat" where
  "pc_rank w = (case gw_pc w of
     Draining (ForBarrier _) i grp \<Rightarrow> (length (gw_rings w) - i) + length (gw_rings w) + 3
   | Draining _ i grp \<Rightarrow> (length (gw_rings w) - i) + 1
   | _ \<Rightarrow> 0)"

definition pc_class :: "GroupWriter \<Rightarrow> nat" where
  "pc_class w = (case gw_pc w of Draining ForQuit i grp \<Rightarrow> 0 | Exited \<Rightarrow> 0 | _ \<Rightarrow> 1)"

lemma queued_take: "i < length (gw_rings w) \<Longrightarrow> gw_rings w ! i = b # bs \<Longrightarrow>
    queued w = Suc (sum_list (map length ((gw_rings w)[i := bs])))"
proof -
  assume i: "i < length (gw_rings w)" and b: "gw_rings w ! i = b # bs"
  have "sum_list (map length (gw_rings w)) = sum_list (map length (take i (gw_rings w))) + Suc (length bs) + sum_list (map length (drop (Suc i) (gw_rings w)))"
    using i b by (subst id_take_nth_drop [OF i]) simp
  then show ?thesis using i by (simp add: queued_def upd_conv_take_nth_drop)
qed

definition writer_order :: "(GroupWriter \<times> GroupWriter) set" where
  "writer_order = measures [\<lambda>w. queued w + length (in_flight w), queued, \<lambda>w. of_bool (gw_signal w), pc_class, pc_rank]"

lemma queued_finish: "queued (finish_pass w c grp) = queued w"
  by (simp add: queued_def finish_pass_fields)

lemma writer_step_decreases: "writer_step w w' \<Longrightarrow> (w', w) \<in> writer_order"
proof (induction rule: writer_step.induct)
  case (take_batch w c i grp b bs)
  then show ?case using queued_take [of i w b bs] by (simp add: writer_order_def in_flight_def queued_def)
next
  case (next_ring w c i grp)
  then show ?case
    by (cases c) (simp_all add: writer_order_def in_flight_def queued_def pc_class_def pc_rank_def)
next
  case (end_pass w c i grp)
  show ?case
  proof (cases "grp = []")
    case True
    then show ?thesis using end_pass
      by (cases c) (simp_all add: writer_order_def in_flight_def queued_finish finish_pass_fields pc_class_def pc_rank_def)
  next
    case False
    then show ?thesis using end_pass
      by (cases c) (simp_all add: writer_order_def in_flight_def queued_finish finish_pass_fields)
  qed
next
  case (wake w)
  then show ?case by (simp add: writer_order_def in_flight_def queued_def)
next
  case (see_quit w)
  then show ?case by (simp add: writer_order_def in_flight_def queued_def pc_class_def)
qed

lemma writer_step_wf: "wf {(w', w). writer_step w w'}"
  by (rule wf_subset [OF wf_measures [of "[\<lambda>w. queued w + length (in_flight w), queued, \<lambda>w. of_bool (gw_signal w), pc_class, pc_rank]"]])
    (use writer_step_decreases in \<open>auto simp: writer_order_def\<close>)

lemma writer_stuck:
  assumes "gw_inv w" "gw_ringing w = []" "gw_pc w \<noteq> NotStarted" "\<nexists>w'. writer_step w w'" "s < length (gw_rings w)"
  shows "of_shard s (gw_accepted w) = of_shard s (gw_committed w)"
proof -
  have f: "gw_fifo w" "gw_bell w" using assms(1) by (simp_all add: gw_inv_def)
  have "gw_pc w \<noteq> Draining c i grp" for c i grp
    using assms(4) writer_step.take_batch [of w c i grp] writer_step.next_ring [of w c i grp] writer_step.end_pass [of w c i grp]
    by (metis leI neq_Nil_conv)
  moreover have "\<not> (gw_pc w = Parked \<and> gw_signal w)" using assms(4) writer_step.wake by blast
  ultimately have "gw_rings w ! s = []" "in_flight w = []"
    using f(2) assms(2,3,5) by (cases "gw_pc w"; auto simp: gw_bell_def rung_def in_flight_def)+
  then show ?thesis using gw_fifoD(3) [OF f(1) assms(5)] by simp
qed

lemma writer_step_frame: "writer_step w w' \<Longrightarrow> gw_accepted w' = gw_accepted w \<and> gw_ringing w' = gw_ringing w
    \<and> length (gw_rings w') = length (gw_rings w) \<and> gw_pc w' \<noteq> NotStarted"
  by (induction rule: writer_step.induct) (auto simp: finish_pass_fields split: drain_cause.splits)

text \<open>
  C9. No wake-up is lost and the goroutine makes progress.  Its own steps terminate from any state, so it
  never spins; and from every reachable state in which it has been started and no producer is between its
  push and the doorbell, it runs by itself to a state where everything accepted so far has been committed.
\<close>

theorem group_writer_live:
  "wf {(w', w). writer_step w w'}
   \<and> (gw_run (\<lambda>_. True) (NewGroupWriter f shards ring) w \<longrightarrow> gw_pc w \<noteq> NotStarted \<longrightarrow> gw_ringing w = [] \<longrightarrow>
      (\<exists>w'. rtranclp writer_step w w' \<and> gw_accepted w' = gw_accepted w
        \<and> (\<forall>s < length (gw_rings w). of_shard s (gw_committed w') = of_shard s (gw_accepted w))))"
proof (intro conjI impI)
  show "wf {(w', w). writer_step w w'}" by (rule writer_step_wf)
  assume r: "gw_run (\<lambda>_. True) (NewGroupWriter f shards ring) w" and st: "gw_pc w \<noteq> NotStarted" "gw_ringing w = []"
  have "gw_inv w" using gw_run_inv [OF r gw_inv_new] .
  then show "\<exists>w'. rtranclp writer_step w w' \<and> gw_accepted w' = gw_accepted w
        \<and> (\<forall>s < length (gw_rings w). of_shard s (gw_committed w') = of_shard s (gw_accepted w))"
    using st
  proof (induction w rule: wf_induct_rule [OF writer_step_wf])
    case (1 w)
    show ?case
    proof (cases "\<exists>w'. writer_step w w'")
      case True
      then obtain v where v: "writer_step w v" by blast
      note fr = writer_step_frame [OF v]
      obtain w' where "rtranclp writer_step v w'" "gw_accepted w' = gw_accepted v"
        "\<forall>s < length (gw_rings v). of_shard s (gw_committed w') = of_shard s (gw_accepted v)"
        using "1.IH" [of v] v writer_step_inv [OF v 1(2)] fr 1(4) by auto
      then show ?thesis using v fr by (auto intro: converse_rtranclp_into_rtranclp)
    next
      case False
      then show ?thesis using writer_stuck [OF 1(2,4,3)] by auto
    qed
  qed
qed

theorem group_writer_live_witness:
  "\<exists>f w w'. CreateOnDevice demo_dev demo_opts = Inr f
     \<and> w = Submit_bell (fst (Submit_push (NewGroupWriter f 2 4) demo_batch)) 1
     \<and> rtranclp writer_step w w' \<and> of_shard 1 (gw_committed w') = [demo_batch]"
proof -
  obtain f where f: "CreateOnDevice demo_dev demo_opts = Inr f" by (rule demo_file)
  let ?v = "fst (Submit_push (NewGroupWriter f 2 4) demo_batch)"
  let ?w = "Submit_bell ?v 1"
  have "gw_run (\<lambda>_. True) (NewGroupWriter f 2 4) ?v" by (rule gw_run.step [OF gw_run.start TrueI demo_push_step])
  moreover have "gw_step ?v ?w" by (rule gw_step.bell) (simp add: demo_push)
  ultimately have r: "gw_run (\<lambda>_. True) (NewGroupWriter f 2 4) ?w" by (rule gw_run.step [OF _ TrueI])
  have w: "gw_pc ?w \<noteq> NotStarted" "gw_ringing ?w = []" "1 < length (gw_rings ?w)" "gw_accepted ?w = [demo_batch]"
    by (simp_all add: Submit_bell_def demo_push)
  obtain w' where "rtranclp writer_step ?w w'" "of_shard 1 (gw_committed w') = of_shard 1 (gw_accepted ?w)"
    using group_writer_live [THEN conjunct2, rule_format, OF r w(1,2)] w(3) by blast
  moreover have "of_shard 1 [demo_batch] = [demo_batch]" by (simp add: demo_batch_def)
  ultimately show ?thesis using f w(4) by metis
qed

section \<open>Published addresses\<close>

lemma file_inv_io_same:
  assumes "io_same f f'" "file_inv f ss" shows "file_inv f' ss"
proof -
  have d: "d_data (f_dev f') = d_data (f_dev f)" "d_badread (f_dev f') = d_badread (f_dev f)"
    using assms(1) by (simp_all add: io_same_def)
  show ?thesis using file_inv_dev [OF assms(2) d] assms(1) by (simp add: file_inv_def io_same_def same_file_def)
qed

lemma layout_payload: "i < length ps \<Longrightarrow> \<exists>h. layout c seq ps ! i = (fst (layout c seq ps ! i), h, pe_Payload (ps ! i))"
  by (induction ps arbitrary: c seq i) (auto simp: nth_Cons split: nat.splits)

lemma completions_mem:
  "i < length grp \<Longrightarrow> se_done (grp ! i) = Some k \<Longrightarrow> (k, res (grp ! i) (j + i)) \<in> set (completions grp res j)"
proof (induction grp res j arbitrary: i rule: completions.induct)
  case (2 b bs res j)
  then show ?case by (cases i) auto
qed simp

lemma completions_res: "(k, r) \<in> set (completions grp res j) \<Longrightarrow> \<exists>b i. r = res b i"
  by (induction grp res j rule: completions.induct) (auto split: option.splits)

definition published :: "GroupWriter \<Rightarrow> seg list \<Rightarrow> bool" where
  "published w ss \<longleftrightarrow> file_inv (gw_f w) ss \<and> healthy (f_dev (gw_f w))
     \<and> (\<forall>b \<in> set (gw_committed w). \<exists>off h. (off, h, se_payload b) \<in> set ss
          \<and> (\<forall>k. se_done b = Some k \<longrightarrow> (k, resolve off b, None) \<in> set (gw_calls w)))
     \<and> (\<forall>(k, addrs, e) \<in> set (gw_calls w). e = None)"

text \<open>The file has room for the group being drained.\<close>

definition roomy :: "GroupWriter \<Rightarrow> bool" where
  "roomy w \<longleftrightarrow> fits (f_cursor (gw_f w)) (map batch_pending (in_flight w))
     \<and> unat (f_globalSeq (gw_f w)) + length (in_flight w) < 2 ^ 64"

lemma commit_pass_published:
  assumes pub: "published w ss" and fit: "fits (f_cursor (gw_f w)) (map batch_pending grp)"
    and seq: "unat (f_globalSeq (gw_f w)) + length grp < 2 ^ 64"
  shows "\<exists>ss'. published (commit_pass w grp) ss'"
proof (cases "grp = []")
  case True
  then show ?thesis using pub by (auto simp: commit_pass_def)
next
  case False
  let ?f = "gw_f w" and ?ps = "map batch_pending grp"
  let ?l = "layout (f_cursor ?f) (f_globalSeq ?f) ?ps"
  have inv: "file_inv ?f ss" "healthy (f_dev ?f)" using pub by (simp_all add: published_def)
  obtain f' offs where a: "AppendGroup ?f ?ps = (f', offs, None)" "healthy (f_dev f')"
    using AppendGroup_healthy [OF file_inv_kind [OF inv(1)] inv(2) fit] by blast
  have seq': "unat (f_globalSeq ?f) + length ?ps < 2 ^ 64" using seq by simp
  note i = AppendGroup_inv [OF inv(1) fit seq' a(1)]
  let ?calls = "completions grp (\<lambda>b i. (resolve (offs ! i) b, None)) 0"
  have w: "commit_pass w grp = w\<lparr>gw_f := f', gw_committed := gw_committed w @ grp, gw_calls := gw_calls w @ ?calls\<rparr>"
    using False a by (simp add: commit_pass_def commit_def)
  have new: "\<exists>off h. (off, h, se_payload b) \<in> set (ss @ ?l) \<and> (\<forall>k. se_done b = Some k \<longrightarrow> (k, resolve off b, None) \<in> set ?calls)"
    if bg: "b \<in> set grp" for b
  proof -
    obtain n where n: "n < length grp" "grp ! n = b" using bg by (auto simp: in_set_conv_nth)
    obtain h where "?l ! n = (offs ! n, h, se_payload b)"
      using layout_payload [of n ?ps "f_cursor ?f" "f_globalSeq ?f"] n i(2) by (auto simp: batch_pending_def log_pending_def)
    then have "(offs ! n, h, se_payload b) \<in> set (ss @ ?l)" using n by (auto simp: in_set_conv_nth intro!: exI [of _ n])
    then show ?thesis using completions_mem [OF n(1), of _ "\<lambda>b i. (resolve (offs ! i) b, None)" 0] n(2) by auto
  qed
  have old: "\<exists>off h. (off, h, se_payload b) \<in> set (ss @ ?l) \<and> (\<forall>k. se_done b = Some k \<longrightarrow> (k, resolve off b, None) \<in> set (gw_calls w))"
    if bg: "b \<in> set (gw_committed w)" for b
  proof -
    from pub bg obtain off h where "(off, h, se_payload b) \<in> set ss" "\<forall>k. se_done b = Some k \<longrightarrow> (k, resolve off b, None) \<in> set (gw_calls w)"
      unfolding published_def by blast
    then have "(off, h, se_payload b) \<in> set (ss @ ?l)" by simp
    then show ?thesis using \<open>\<forall>k. se_done b = Some k \<longrightarrow> _\<close> by blast
  qed
  let ?w = "commit_pass w grp"
  have fields: "gw_f ?w = f'" "gw_committed ?w = gw_committed w @ grp" "gw_calls ?w = gw_calls w @ ?calls"
    unfolding w by simp_all
  have "\<exists>off h. (off, h, se_payload b) \<in> set (ss @ ?l) \<and> (\<forall>k. se_done b = Some k \<longrightarrow> (k, resolve off b, None) \<in> set (gw_calls ?w))"
    if "b \<in> set (gw_committed ?w)" for b
  proof (cases "b \<in> set grp")
    case True
    from new [OF this] show ?thesis unfolding fields(3) set_append by blast
  next
    case False
    then have "b \<in> set (gw_committed w)" using that unfolding fields(2) by simp
    from old [OF this] show ?thesis unfolding fields(3) set_append by blast
  qed
  moreover have "e = None" if m: "(k, addrs, e) \<in> set (gw_calls ?w)" for k addrs e
  proof (cases "(k, addrs, e) \<in> set (gw_calls w)")
    case True
    then show ?thesis using pub unfolding published_def by blast
  next
    case False
    then have "(k, addrs, e) \<in> set ?calls" using m unfolding fields(3) by simp
    from completions_res [OF this] show ?thesis by simp
  qed
  ultimately have "published ?w (ss @ ?l)" using i(1) a(2) unfolding published_def fields(1) by blast
  then show ?thesis by blast
qed

lemma published_cong:
  assumes "published w ss" "gw_f w' = gw_f w" "gw_committed w' = gw_committed w" "gw_calls w' = gw_calls w"
  shows "published w' ss"
  using assms by (simp add: published_def)

lemma end_pass_published:
  assumes "gw_pc w = Draining c i grp" "published w ss" "roomy w" shows "\<exists>ss'. published (finish_pass w c grp) ss'"
proof -
  have g: "in_flight w = grp" using assms(1) by (simp add: in_flight_def)
  obtain ss' where p: "published (commit_pass w grp) ss'"
    using commit_pass_published [OF assms(2)] assms(3) g by (auto simp: roomy_def)
  show ?thesis
  proof (cases c)
    case (ForBarrier acc)
    let ?w = "commit_pass w grp"
    obtain f e where d: "doSync (gw_f ?w) = (f, e)" by force
    have w: "finish_pass w c grp = ?w\<lparr>gw_f := f, gw_acks := gw_acks ?w @ [(acc, e)], gw_pc := Draining Loop 0 []\<rparr>"
      using ForBarrier d by (simp add: finish_pass.simps Let_def)
    have f0: "file_inv (gw_f ?w) ss'" "healthy (f_dev (gw_f ?w))" using p by (simp_all add: published_def)
    have "file_inv f ss'" by (rule file_inv_io_same [OF doSync_same [OF d] f0(1)])
    moreover have "healthy (f_dev f)" using doSync_healthy [OF f0(2)] d by auto
    ultimately have "published (finish_pass w c grp) ss'" using p unfolding w by (simp add: published_def)
    then show ?thesis by blast
  next
    case Loop
    have "published (finish_pass w c grp) ss'" by (rule published_cong [OF p]) (simp_all add: Loop finish_pass.simps)
    then show ?thesis by blast
  next
    case ForQuit
    have "published (finish_pass w c grp) ss'" by (rule published_cong [OF p]) (simp_all add: ForQuit finish_pass.simps)
    then show ?thesis by blast
  qed
qed

lemma gw_step_keeps:
  assumes "gw_step w w'"
  shows "(\<exists>c i grp. gw_pc w = Draining c i grp \<and> w' = finish_pass w c grp)
    \<or> gw_f w' = gw_f w \<and> gw_committed w' = gw_committed w \<and> gw_calls w' = gw_calls w"
  using assms
proof (cases rule: gw_step.cases)
  case writer
  then show ?thesis by (cases rule: writer_step.cases) auto
qed (simp_all add: Submit_push_def Submit_bell_def Let_def)

lemma gw_step_published:
  assumes "gw_step w w'" "published w ss" "roomy w" shows "\<exists>ss'. published w' ss'"
  using gw_step_keeps [OF assms(1)] end_pass_published [OF _ assms(2,3)] published_cong [OF assms(2)] by metis

lemma gw_run_published:
  assumes "gw_run roomy w w'" "published w ss" shows "\<exists>ss'. published w' ss'"
  using assms
proof (induction rule: gw_run.induct)
  case (step w w1 w2)
  then show ?case using gw_step_published by blast
qed blast

text \<open>
  C10. Publish after the append.  On a device in working order, as long as the file has room, every batch
  that has been committed is a segment of the file, no completion reports an error, and a
  completion's addresses are those at which its records read back, in stage order.
\<close>

theorem published_addresses_read:
  assumes "gw_run roomy (NewGroupWriter f shards ring) w" "file_inv f ss" "healthy (f_dev f)"
    and "b \<in> set (gw_committed w)" "se_done b = Some k" "list_all wf_row rs"
    and "se_payload b = concat (map record_bytes rs)" "se_frames b = placed record_bytes record_loc 0 rs"
  shows "(\<exists>addrs. (k, addrs, None) \<in> set (gw_calls w) \<and> list_all2 (\<lambda>a r. ReadRecordAt (gw_f w) a = Inr r) addrs rs)
    \<and> (\<forall>c \<in> set (gw_calls w). snd (snd c) = None)"
proof -
  have "published (NewGroupWriter f shards ring) ss"
    using assms(2,3) by (simp add: published_def NewGroupWriter_def Let_def)
  then obtain ss' where p: "published w ss'" using gw_run_published [OF assms(1)] by blast
  then obtain off h where o: "(off, h, se_payload b) \<in> set ss'" "(k, resolve off b, None) \<in> set (gw_calls w)"
    using assms(4,5) by (auto simp: published_def)
  have "resolve off b = placed record_bytes (\<lambda>j r. off + 64 + of_nat j) 0 rs"
    by (simp add: resolve_def assms(8) map_placed record_loc_def)
  moreover have "list_all2 (\<lambda>a r. ReadRecordAt (gw_f w) a = Inr r) (placed record_bytes (\<lambda>j r. off + 64 + of_nat j) 0 rs) rs"
    using batch_reads [of "gw_f w" ss' off h rs] p o(1) assms(6,7) by (simp add: published_def list_all2_conv_all_nth)
  moreover have "\<forall>c \<in> set (gw_calls w). snd (snd c) = None" using p unfolding published_def by auto
  ultimately show ?thesis using o(2) by auto
qed

lemma batch_demo: "se_payload demo_batch = concat (map record_bytes [demo_row])"
    "se_frames demo_batch = placed record_bytes record_loc 0 [demo_row]"
  by (simp_all add: demo_batch_def)

text \<open>A writer over two rings in which nothing has been committed, and its steps.\<close>

definition demo_state :: "File \<Rightarrow> sealed list list \<Rightarrow> nat list \<Rightarrow> writer_pc \<Rightarrow> sealed list \<Rightarrow> GroupWriter" where
  "demo_state f rings ringing pc acc = \<lparr>gw_f = f, gw_rings = rings, gw_cap = 4, gw_signal = False, gw_ringing = ringing,
     gw_quit = False, gw_pc = pc, gw_accepted = acc, gw_committed = [], gw_calls = [], gw_acks = []\<rparr>"

lemma demo_state_new: "NewGroupWriter f 2 4 = demo_state f [[], []] [] NotStarted []"
  by (simp add: NewGroupWriter_def demo_state_def Let_def numeral_2_eq_2)

lemma demo_steps:
  "gw_step (demo_state f rings rg NotStarted acc) (demo_state f rings rg (Draining Loop 0 []) acc)"
  "i < length rings \<Longrightarrow> rings ! i = [] \<Longrightarrow>
     gw_step (demo_state f rings rg (Draining c i g) acc) (demo_state f rings rg (Draining c (Suc i) g) acc)"
  "i < length rings \<Longrightarrow> rings ! i = b # bs \<Longrightarrow>
     gw_step (demo_state f rings rg (Draining c i g) acc) (demo_state f (rings[i := bs]) rg (Draining c i (g @ [b])) acc)"
  "length rings \<le> i \<Longrightarrow> gw_step (demo_state f rings rg (Draining Loop i []) acc) (demo_state f rings rg Parked acc)"
  "gw_step (demo_state f [[], []] [] Parked []) (demo_state f [[], [demo_batch]] [1] Parked [demo_batch])"
  "gw_step (demo_state f rings rg Parked acc) (demo_state f rings rg (Draining (ForBarrier acc) 0 []) acc)"
proof -
  show "gw_step (demo_state f rings rg NotStarted acc) (demo_state f rings rg (Draining Loop 0 []) acc)"
    using gw_step.call_barrier [of "demo_state f rings rg NotStarted acc"] by (simp add: demo_state_def started_def)
  show "i < length rings \<Longrightarrow> rings ! i = [] \<Longrightarrow>
     gw_step (demo_state f rings rg (Draining c i g) acc) (demo_state f rings rg (Draining c (Suc i) g) acc)"
    using gw_step.writer [OF writer_step.next_ring [of "demo_state f rings rg (Draining c i g) acc" c i g]] by (simp add: demo_state_def)
  show "i < length rings \<Longrightarrow> rings ! i = b # bs \<Longrightarrow>
     gw_step (demo_state f rings rg (Draining c i g) acc) (demo_state f (rings[i := bs]) rg (Draining c i (g @ [b])) acc)"
    using gw_step.writer [OF writer_step.take_batch [of "demo_state f rings rg (Draining c i g) acc" c i g b bs]] by (simp add: demo_state_def)
  show "length rings \<le> i \<Longrightarrow> gw_step (demo_state f rings rg (Draining Loop i []) acc) (demo_state f rings rg Parked acc)"
    using gw_step.writer [OF writer_step.end_pass [of "demo_state f rings rg (Draining Loop i []) acc" Loop i "[]"]]
    by (simp add: demo_state_def finish_pass.simps commit_pass_def)
  show "gw_step (demo_state f [[], []] [] Parked []) (demo_state f [[], [demo_batch]] [1] Parked [demo_batch])"
    using gw_step.push [of "demo_state f [[], []] [] Parked []" demo_batch]
    by (simp add: demo_state_def Submit_push_def started_def Let_def) (simp add: demo_batch_def)
  show "gw_step (demo_state f rings rg Parked acc) (demo_state f rings rg (Draining (ForBarrier acc) 0 []) acc)"
    using gw_step.take_barrier [of "demo_state f rings rg Parked acc"] by (simp add: demo_state_def)
qed

text \<open>The run that parks the goroutine and pushes a batch, and the one that goes on with a barrier that drains it.\<close>

lemma demo_parked_run:
  assumes "\<And>w. gw_f w = f \<Longrightarrow> in_flight w = [] \<or> in_flight w = [demo_batch] \<Longrightarrow> P w"
  shows "gw_run P (NewGroupWriter f 2 4) (demo_state f [[], [demo_batch]] [1] Parked [demo_batch])"
proof -
  let ?z = "[[], []] :: sealed list list" and ?N = "NewGroupWriter f 2 4"
  have go: "gw_run P ?N w \<Longrightarrow> gw_step w w' \<Longrightarrow> gw_f w = f \<Longrightarrow> in_flight w = [] \<or> in_flight w = [demo_batch] \<Longrightarrow> gw_run P ?N w'" for w w'
    by (rule gw_run.step [where P = P]) (simp_all add: assms)
  note fl = demo_state_def in_flight_def
  have "gw_run P ?N (demo_state f ?z [] NotStarted [])" unfolding demo_state_new by (rule gw_run.start)
  from go [OF this demo_steps(1)] have "gw_run P ?N (demo_state f ?z [] (Draining Loop 0 []) [])" by (simp add: fl)
  from go [OF this demo_steps(2)] have "gw_run P ?N (demo_state f ?z [] (Draining Loop 1 []) [])" by (simp add: fl)
  from go [OF this demo_steps(2)] have "gw_run P ?N (demo_state f ?z [] (Draining Loop 2 []) [])" by (simp add: fl numeral_2_eq_2)
  from go [OF this demo_steps(4)] have "gw_run P ?N (demo_state f ?z [] Parked [])" by (simp add: fl)
  from go [OF this demo_steps(5)] show ?thesis by (simp add: fl)
qed

lemma demo_barrier_run:
  assumes "\<And>w. gw_f w = f \<Longrightarrow> in_flight w = [] \<or> in_flight w = [demo_batch] \<Longrightarrow> P w"
  shows "gw_run P (NewGroupWriter f 2 4)
    (demo_state f [[], []] [1] (Draining (ForBarrier [demo_batch]) 2 [demo_batch]) [demo_batch])"
proof -
  let ?z = "[[], []] :: sealed list list" and ?r = "[[], [demo_batch]]" and ?B = "ForBarrier [demo_batch]"
  let ?N = "NewGroupWriter f 2 4"
  have go: "gw_run P ?N w \<Longrightarrow> gw_step w w' \<Longrightarrow> gw_f w = f \<Longrightarrow> in_flight w = [] \<or> in_flight w = [demo_batch] \<Longrightarrow> gw_run P ?N w'" for w w'
    by (rule gw_run.step [where P = P]) (simp_all add: assms)
  note fl = demo_state_def in_flight_def
  have "gw_run P ?N (demo_state f ?r [1] Parked [demo_batch])" by (rule demo_parked_run [OF assms])
  from go [OF this demo_steps(6)] have "gw_run P ?N (demo_state f ?r [1] (Draining ?B 0 []) [demo_batch])" by (simp add: fl)
  from go [OF this demo_steps(2)] have "gw_run P ?N (demo_state f ?r [1] (Draining ?B 1 []) [demo_batch])" by (simp add: fl)
  from go [OF this demo_steps(3)] have "gw_run P ?N (demo_state f ?z [1] (Draining ?B 1 [demo_batch]) [demo_batch])" by (simp add: fl)
  from go [OF this demo_steps(2)] show ?thesis by (simp add: fl numeral_2_eq_2)
qed

lemma fits_demo_batch: "f_cursor f = 16384 \<Longrightarrow> fits (f_cursor f) (map batch_pending [demo_batch])"
  using length_record_bytes [OF wf_demo_row] fits_small [of 16384 "record_bytes demo_row"]
  by (simp add: batch_pending_def demo_batch_def)

theorem published_addresses_read_witness:
  "\<exists>f w addr. CreateOnDevice demo_dev demo_opts = Inr f \<and> gw_run roomy (NewGroupWriter f 2 4) w
     \<and> gw_committed w = [demo_batch] \<and> (7, [addr], None) \<in> set (gw_calls w) \<and> ReadRecordAt (gw_f w) addr = Inr demo_row"
proof -
  obtain f where f: "CreateOnDevice demo_dev demo_opts = Inr f" "healthy (f_dev f)" "file_inv f []"
    "f_cursor f = 16384" "f_globalSeq f = 0" by (rule demo_file)
  let ?B = "ForBarrier [demo_batch]"
  let ?w4 = "demo_state f [[], []] [1] (Draining ?B 2 [demo_batch]) [demo_batch]"
  let ?w5 = "finish_pass ?w4 ?B [demo_batch]"
  have room: "roomy w" if "gw_f w = f" "in_flight w = [] \<or> in_flight w = [demo_batch]" for w
    using fits_demo_batch [OF f(4)] f(4,5) that by (auto simp: roomy_def fits_def)
  have run4: "gw_run roomy (NewGroupWriter f 2 4) ?w4" by (rule demo_barrier_run) (rule room)
  have s5: "gw_step ?w4 ?w5" by (rule gw_step.writer, rule writer_step.end_pass [where i = 2]) (simp_all add: demo_state_def)
  have run: "gw_run roomy (NewGroupWriter f 2 4) ?w5"
    by (rule gw_run.step [OF run4 _ s5], rule room) (simp_all add: demo_state_def in_flight_def)
  have c: "gw_committed ?w5 = [demo_batch]" by (simp add: finish_pass_fields demo_state_def)
  have "se_done demo_batch = Some 7" "list_all wf_row [demo_row]" "demo_batch \<in> set (gw_committed ?w5)"
    using wf_demo_row c by (simp_all add: demo_batch_def)
  from published_addresses_read [OF run f(3,2) this(3,1,2) batch_demo]
  obtain addrs where "(7, addrs, None) \<in> set (gw_calls ?w5)" "list_all2 (\<lambda>a r. ReadRecordAt (gw_f ?w5) a = Inr r) addrs [demo_row]"
    by blast
  then show ?thesis using f(1) run c by (auto simp: list_all2_Cons2)
qed

section \<open>Barriers\<close>

lemma doSync_acks:
  "gw_acks (finish_pass w (ForBarrier acc') grp) = gw_acks w @ [(acc', snd (doSync (gw_f (commit_pass w grp))))]"
  "c = Loop \<or> c = ForQuit \<Longrightarrow> gw_acks (finish_pass w c grp) = gw_acks w"
  by (auto simp: finish_pass.simps Let_def commit_pass_fields split: prod.splits)

lemma ack_step:
  assumes "gw_step w w'" "gw_acks w' = gw_acks w @ [a]"
  shows "gw_quit w \<and> w' = w\<lparr>gw_acks := gw_acks w @ [(gw_accepted w, None)]\<rparr>
    \<or> (\<exists>acc i grp. gw_pc w = Draining (ForBarrier acc) i grp \<and> i \<ge> length (gw_rings w) \<and> w' = finish_pass w (ForBarrier acc) grp)"
  using assms(1)
proof (cases rule: gw_step.cases)
  case writer
  then show ?thesis
  proof (cases rule: writer_step.cases)
    case (end_pass c i grp)
    then show ?thesis using assms(2) doSync_acks(2) [of c w grp] by (cases c) auto
  qed (use assms(2) in simp_all)
next
  case (push b)
  then show ?thesis using assms(2) by (simp add: Submit_push_def Let_def split: if_splits)
qed (use assms(2) in \<open>simp_all add: Submit_bell_def\<close>)

text \<open>A barrier called after Stop closed the quit channel returns nil while an accepted batch is still in its ring.\<close>

lemma barrier_nil_at_quit:
  "\<exists>f w. CreateOnDevice demo_dev demo_opts = Inr f \<and> gw_run (\<lambda>_. True) (NewGroupWriter f 2 4) w
     \<and> gw_acks w = [([demo_batch], None)] \<and> gw_rings w ! 1 = [demo_batch] \<and> gw_committed w = [] \<and> gw_f w = f"
proof -
  obtain f where f: "CreateOnDevice demo_dev demo_opts = Inr f" by (rule demo_file)
  let ?w = "demo_state f [[], [demo_batch]] [1] Parked [demo_batch]"
  let ?w1 = "?w\<lparr>gw_signal := True, gw_ringing := []\<rparr>"
  let ?w2 = "?w1\<lparr>gw_quit := True\<rparr>"
  let ?w3 = "?w2\<lparr>gw_acks := [([demo_batch], None)]\<rparr>"
  have r: "gw_run (\<lambda>_. True) (NewGroupWriter f 2 4) ?w" by (rule demo_parked_run) simp
  have s1: "gw_step ?w ?w1" using gw_step.bell [of 1 ?w] by (simp add: demo_state_def Submit_bell_def)
  have s2: "gw_step ?w1 ?w2" by (rule gw_step.stop) (simp_all add: demo_state_def)
  have s3: "gw_step ?w2 ?w3" using gw_step.quit_barrier [of ?w2] by (simp add: demo_state_def)
  have "gw_run (\<lambda>_. True) (NewGroupWriter f 2 4) ?w3"
    by (rule gw_run.step [OF gw_run.step [OF gw_run.step [OF r TrueI s1] TrueI s2] TrueI s3])
  then show ?thesis using f by (intro exI [of _ f] exI [of _ ?w3]) (simp add: demo_state_def)
qed

text \<open>
  C20. What a barrier that returns nil has done.  Unless it returned because the writer was being stopped, in which case
  it changed nothing, the goroutine has flushed the device, and every batch accepted before the goroutine took the
  barrier has been through a commit: per shard they are a prefix of the committed batches.  The exception is
  real: after Stop a barrier can return nil with an accepted batch still in its ring and the file as it was.
\<close>

theorem barrier_flushes:
  assumes "gw_run (\<lambda>_. True) (NewGroupWriter f shards ring) w" "gw_step w w'" "gw_acks w' = gw_acks w @ [(acc, None)]"
    and "s < length (gw_rings w)"
  shows "(gw_quit w \<and> w' = w\<lparr>gw_acks := gw_acks w @ [(gw_accepted w, None)]\<rparr>
      \<or> d_synced (f_dev (gw_f w')) = d_data (f_dev (gw_f w')) \<and> prefix (of_shard s acc) (of_shard s (gw_committed w')))
    \<and> (\<exists>f w. CreateOnDevice demo_dev demo_opts = Inr f \<and> gw_run (\<lambda>_. True) (NewGroupWriter f 2 4) w
      \<and> gw_acks w = [([demo_batch], None)] \<and> gw_rings w ! 1 = [demo_batch] \<and> gw_committed w = [] \<and> gw_f w = f)"
  using ack_step [OF assms(2,3)]
proof
  assume "\<exists>acc i grp. gw_pc w = Draining (ForBarrier acc) i grp \<and> i \<ge> length (gw_rings w) \<and> w' = finish_pass w (ForBarrier acc) grp"
  then obtain acc' i grp where p: "gw_pc w = Draining (ForBarrier acc') i grp" "i \<ge> length (gw_rings w)"
    "w' = finish_pass w (ForBarrier acc') grp" by blast
  obtain f' e where d: "doSync (gw_f (commit_pass w grp)) = (f', e)" by force
  have "acc' = acc" "e = None" using assms(3) doSync_acks(1) [of w acc' grp] d p(3) by simp_all
  moreover have "gw_f w' = f'" using p(3) d by (simp add: finish_pass.simps Let_def commit_pass_fields)
  moreover have "gw_barrier w" using gw_run_inv [OF assms(1) gw_inv_new] by (simp add: gw_inv_def)
  then have "prefix (of_shard s acc') (of_shard s (gw_committed w) @ of_shard s grp)"
    using p(1,2) assms(4) by (simp add: gw_barrier_def)
  moreover have "gw_committed w' = gw_committed w @ grp" using p(3) by (simp add: finish_pass_fields)
  ultimately show ?thesis using doSync_synced [of "gw_f (commit_pass w grp)" f'] d barrier_nil_at_quit by simp
qed (use barrier_nil_at_quit in simp)

theorem barrier_flushes_witness:
  "\<exists>f (w :: GroupWriter). CreateOnDevice demo_dev demo_opts = Inr f \<and> gw_acks w = [([demo_batch], None)] \<and> \<not> gw_quit w
     \<and> d_synced (f_dev (gw_f w)) = d_data (f_dev (gw_f w)) \<and> prefix [demo_batch] (of_shard 1 (gw_committed w))"
proof -
  obtain f where f: "CreateOnDevice demo_dev demo_opts = Inr f" "healthy (f_dev f)" "file_inv f []"
    "f_cursor f = 16384" by (rule demo_file)
  let ?B = "ForBarrier [demo_batch]"
  let ?w = "demo_state f [[], []] [1] (Draining ?B 2 [demo_batch]) [demo_batch]"
  have run: "gw_run (\<lambda>_. True) (NewGroupWriter f 2 4) ?w" by (rule demo_barrier_run) simp
  obtain f1 offs where a: "AppendGroup f (map batch_pending [demo_batch]) = (f1, offs, None)" "healthy (f_dev f1)"
    using AppendGroup_healthy [OF file_inv_kind [OF f(3)] f(2) fits_demo_batch [OF f(4)]] by blast
  obtain f2 where "doSync f1 = (f2, None)" using doSync_healthy [OF a(2)] by blast
  then have acks: "gw_acks (finish_pass ?w ?B [demo_batch]) = gw_acks ?w @ [([demo_batch], None)]"
    using a(1) by (simp add: finish_pass.simps commit_pass_def commit_def demo_state_def)
  have sh: "of_shard 1 [demo_batch] = [demo_batch]" by (simp add: demo_batch_def)
  have pc: "1 < length (gw_rings ?w)" "gw_acks ?w = []" "\<not> gw_quit ?w" by (simp_all add: demo_state_def)
  have st: "gw_step ?w (finish_pass ?w ?B [demo_batch])"
    by (rule gw_step.writer, rule writer_step.end_pass [where i = 2]) (simp_all add: demo_state_def)
  have q: "\<not> gw_quit (finish_pass ?w ?B [demo_batch])" using pc(3) by (simp add: finish_pass_fields)
  have "d_synced (f_dev (gw_f (finish_pass ?w ?B [demo_batch]))) = d_data (f_dev (gw_f (finish_pass ?w ?B [demo_batch])))
      \<and> prefix [demo_batch] (of_shard 1 (gw_committed (finish_pass ?w ?B [demo_batch])))"
    using barrier_flushes [OF run st acks pc(1)] pc(3) unfolding sh by blast
  then show ?thesis
    by (intro exI conjI, rule_tac f(1), rule_tac acks [unfolded pc(2) append_Nil], rule_tac q) simp_all
qed

text \<open>
  C21. A barrier does not report a failed append.  When the pass that a barrier starts collects batches whose
  AppendGroup fails, and the fsync behind it succeeds, the barrier returns nil although every
  batch of that group was told the error and none of its addresses was published.
\<close>

theorem barrier_hides_append_error:
  assumes "gw_pc w = Draining (ForBarrier acc) i grp" "grp \<noteq> []"
    and "AppendGroup (gw_f w) (map batch_pending grp) = (f', offs, Some e)" "doSync f' = (f'', None)"
  shows "gw_acks (finish_pass w (ForBarrier acc) grp) = gw_acks w @ [(acc, None)]
    \<and> (\<forall>b k. b \<in> set grp \<longrightarrow> se_done b = Some k \<longrightarrow> (k, [], Some e) \<in> set (gw_calls (finish_pass w (ForBarrier acc) grp)))"
proof -
  have c: "commit (gw_f w) grp = (f', completions grp (\<lambda>b i. ([], Some e)) 0)" using assms(3) by (simp add: commit_def)
  have "gw_f (commit_pass w grp) = f'" "gw_calls (commit_pass w grp) = gw_calls w @ completions grp (\<lambda>b i. ([], Some e)) 0"
    using assms(2) c by (simp_all add: commit_pass_def)
  moreover have "(k, [], Some e) \<in> set (completions grp (\<lambda>b i. ([], Some e)) 0)" if "b \<in> set grp" "se_done b = Some k" for b k
    using that completions_mem [of _ grp k "\<lambda>b i. ([], Some e)" 0] by (auto simp: in_set_conv_nth)
  ultimately show ?thesis using assms(4) by (auto simp: finish_pass.simps Let_def commit_pass_fields)
qed

lemma AppendGroup_first_write_fails:
  assumes "p_ChecksumKind (f_prefix f) = 1" "d_faults (f_dev f) = [FailAfter 0]" "\<not> d_readonly (f_dev f)" "unat (f_cursor f) < 2 ^ 63"
  shows "\<exists>f'. AppendGroup f [p] = (f', [], Some ErrDevice) \<and> d_faults (f_dev f') = [] \<and> \<not> d_readonly (f_dev f')"
proof -
  obtain hb h' where m: "SegHeader_Marshal (pending_header (f_globalSeq f + 1) p) 1 (pe_Payload p) = Inr (hb, h')"
    using SegHeader_Marshal_crc by blast
  have "\<not> sint (f_cursor f) < 0" using assms(4) by (simp add: sint_u64_neg)
  then show ?thesis using assms m
    by (simp add: AppendGroup_def writeAt_def WriteAt_def next_fault_def Let_def)
qed

theorem barrier_hides_append_error_witness:
  "\<exists>f w. CreateOnDevice demo_dev demo_opts = Inr f
     \<and> gw_run (\<lambda>_. True) (NewGroupWriter (f\<lparr>f_dev := (f_dev f)\<lparr>d_faults := [FailAfter 0]\<rparr>\<rparr>) 2 4) w
     \<and> gw_acks w = [([demo_batch], None)] \<and> (7, [], Some ErrDevice) \<in> set (gw_calls w)"
proof -
  obtain f0 where f0: "CreateOnDevice demo_dev demo_opts = Inr f0" "healthy (f_dev f0)" "file_inv f0 []"
    "f_cursor f0 = 16384" by (rule demo_file)
  let ?f = "f0\<lparr>f_dev := (f_dev f0)\<lparr>d_faults := [FailAfter 0]\<rparr>\<rparr>"
  let ?B = "ForBarrier [demo_batch]"
  let ?w = "demo_state ?f [[], []] [1] (Draining ?B 2 [demo_batch]) [demo_batch]"
  let ?w' = "finish_pass ?w ?B [demo_batch]"
  have run: "gw_run (\<lambda>_. True) (NewGroupWriter ?f 2 4) ?w" by (rule demo_barrier_run) simp
  have "gw_step ?w ?w'" by (rule gw_step.writer, rule writer_step.end_pass [where i = 2]) (simp_all add: demo_state_def)
  with run have run': "gw_run (\<lambda>_. True) (NewGroupWriter ?f 2 4) ?w'" by (rule gw_run.step [OF _ TrueI])
  obtain f' where a: "AppendGroup ?f [batch_pending demo_batch] = (f', [], Some ErrDevice)" "d_faults (f_dev f') = []" "\<not> d_readonly (f_dev f')"
    using AppendGroup_first_write_fails [of ?f "batch_pending demo_batch"] f0(2,4) file_inv_kind [OF f0(3)] by (auto simp: healthy_def)
  then obtain f'' where d: "doSync f' = (f'', None)" by (simp add: doSync_def Sync_def next_fault_def now_def)
  have pc: "gw_pc ?w = Draining ?B 2 [demo_batch]" "AppendGroup (gw_f ?w) (map batch_pending [demo_batch]) = (f', [], Some ErrDevice)"
    using a(1) by (simp_all add: demo_state_def)
  have "gw_acks ?w' = [([demo_batch], None)]" "(7, [], Some ErrDevice) \<in> set (gw_calls ?w')"
    using barrier_hides_append_error [OF pc(1) _ pc(2) d] by (auto simp: demo_state_def demo_batch_def)
  with run' f0(1) show ?thesis by blast
qed

end
