(* ===== verification/Tools.thy ===== *)
theory Tools
  imports RegionProps Recovery "HOL-Library.List_Lexorder" "HOL-Library.AList"
begin

unbundle bit_operations_syntax

text \<open>
  The read-only tools: inspect.go (Inspect, Persistence, Findings, ScanSegments) and dump.go (Dump).  A report
  line is a value here instead of a formatted string, and the dead fraction is the pair of its
  numerator and denominator instead of a float.  A Go map is an association list with distinct keys.  A root reader
  that panics, on a root length no allocation can hold, is kept in its section of the report as Inl
  Panic; the code's Inspect does not return then.
\<close>

section \<open>inspect.go\<close>

record SegmentTally =
  ta_ByKind :: "(u16 \<times> nat) list"
  ta_Total :: nat
  ta_DurableTail :: u64

definition tally_of :: "(u16 \<times> nat) list \<Rightarrow> u16 \<Rightarrow> nat" where
  "tally_of m k = (case map_of m k of None \<Rightarrow> 0 | Some n \<Rightarrow> n)"

definition tally_visit :: "(u16 \<times> nat) list \<times> nat \<Rightarrow> u64 \<Rightarrow> SegHeader \<Rightarrow> bytes \<Rightarrow> ((u16 \<times> nat) list \<times> nat) \<times> err option" where
  "tally_visit t off h payload =
    ((AList.update (sh_Kind h) (tally_of (fst t) (sh_Kind h) + 1) (fst t), snd t + 1), None)"

definition ScanSegments :: "device \<Rightarrow> Prefix \<Rightarrow> u64 \<Rightarrow> u64 \<Rightarrow> err + SegmentTally" where
  "ScanSegments dev prefix from' sz =
    (case ReplayTail dev prefix from' sz tally_visit ([], 0) of
       (e, t, Some x) \<Rightarrow> Inl x
     | (e, t, None) \<Rightarrow> Inr \<lparr>ta_ByKind = fst t, ta_Total = snd t, ta_DurableTail = e\<rparr>)"

record SlotReport =
  sl_Off :: u64
  sl_Valid :: bool
  sl_CommitSeq :: u64
  sl_CleanShutdown :: bool
  sl_Err :: "err option"

record Report =
  rp_Prefix :: Prefix
  rp_Slots :: "SlotReport \<times> SlotReport"
  rp_Live :: int
  rp_LiveMeta :: "MetaSlot option"
  rp_PhysicalSize :: u64
  rp_SRT :: "err + SRT option"
  rp_Extents :: "err + Extent list"
  rp_TTL :: "err + TTLClass list"
  rp_FreeMap :: "err + FreeExtent list"
  rp_MetaKV :: "err + MetaKVPair list"
  rp_Segments :: SegmentTally

definition read_slot :: "device \<Rightarrow> u32 \<Rightarrow> u64 \<Rightarrow> err + MetaSlot" where
  "read_slot dev kind off = bindE (read_full dev off MetaSlotSize) (\<lambda>buf. ParseMetaSlot buf kind)"

definition slot_report :: "u64 \<Rightarrow> err + MetaSlot \<Rightarrow> SlotReport" where
  "slot_report off r =
    (case r of
       Inl e \<Rightarrow> \<lparr>sl_Off = off, sl_Valid = False, sl_CommitSeq = 0, sl_CleanShutdown = False, sl_Err = Some e\<rparr>
     | Inr m \<Rightarrow> \<lparr>sl_Off = off, sl_Valid = True, sl_CommitSeq = m_CommitSeq m,
                  sl_CleanShutdown = (m_CleanShutdown m = 1), sl_Err = None\<rparr>)"

definition pick_slot :: "err + MetaSlot \<Rightarrow> err + MetaSlot \<Rightarrow> int \<times> MetaSlot option" where
  "pick_slot a b =
    (case (a, b) of
       (Inr ma, Inr mb) \<Rightarrow> if m_CommitSeq mb > m_CommitSeq ma then (1, Some mb) else (0, Some ma)
     | (Inr ma, Inl _) \<Rightarrow> (0, Some ma)
     | (Inl _, Inr mb) \<Rightarrow> (1, Some mb)
     | (Inl _, Inl _) \<Rightarrow> (-1, None))"

definition Inspect :: "device \<Rightarrow> err + Report" where
  "Inspect dev =
    bindE (read_full dev 0 PrefixSize) (\<lambda>hb.
    bindE (ParsePrefix hb) (\<lambda>prefix.
    let a = read_slot dev (p_ChecksumKind prefix) (p_MetaSlotAOff prefix);
        b = read_slot dev (p_ChecksumKind prefix) (p_MetaSlotBOff prefix);
        (which, live) = pick_slot a b
    in bindE (dev_Size dev) (\<lambda>sz.
      bindE (ScanSegments dev prefix PageSize sz) (\<lambda>seg.
      Inr \<lparr>rp_Prefix = prefix,
           rp_Slots = (slot_report (p_MetaSlotAOff prefix) a, slot_report (p_MetaSlotBOff prefix) b),
           rp_Live = which, rp_LiveMeta = live, rp_PhysicalSize = sz,
           rp_SRT = (if live = None then Inr None else ReadSRT dev prefix live),
           rp_Extents = (if live = None then Inr [] else ReadExtentTable dev live),
           rp_TTL = (if live = None then Inr [] else ReadTTLIndex dev live),
           rp_FreeMap = (if live = None then Inr [] else ReadFreeMap dev prefix live),
           rp_MetaKV = (if live = None then Inr [] else ReadMetaKV dev prefix live),
           rp_Segments = seg\<rparr>))))"

record PersistenceInfo =
  pi_FileSizeLogical :: u64
  pi_FileSizePhysical :: u64
  pi_LiveBytes :: u64
  pi_DeadBytes :: u64
  pi_DeadFraction :: "u64 \<times> u64"
  pi_RecordCount :: u64
  pi_ShardCount :: u32
  pi_CkptLagBytes :: u64
  pi_LastCkptUnix :: u64
  pi_TTLNextDropUnix :: u64

definition zero_PersistenceInfo :: PersistenceInfo where
  "zero_PersistenceInfo = \<lparr>pi_FileSizeLogical = 0, pi_FileSizePhysical = 0, pi_LiveBytes = 0, pi_DeadBytes = 0,
     pi_DeadFraction = (0, 1), pi_RecordCount = 0, pi_ShardCount = 0, pi_CkptLagBytes = 0, pi_LastCkptUnix = 0,
     pi_TTLNextDropUnix = 0\<rparr>"

fun earliest_tail :: "u64 \<Rightarrow> u64 \<Rightarrow> SRTRow list \<Rightarrow> u64" where
  "earliest_tail tail earliest [] = earliest"
| "earliest_tail tail earliest (r # rs) =
    (let ft = sr_FirstTailSeg r in
     if ft = 0 \<or> ft > tail then earliest_tail tail earliest rs
     else if earliest = 0 \<or> ft < earliest then earliest_tail tail ft rs
     else earliest_tail tail earliest rs)"

fun next_drop :: "u64 \<Rightarrow> TTLClass list \<Rightarrow> u64" where
  "next_drop best [] = best"
| "next_drop best (c # cs) =
    (let u = tc_ExpiryUpperUnix c in
     if u = 0 then next_drop best cs
     else if best = 0 \<or> u < best then next_drop u cs
     else next_drop best cs)"

definition Persistence :: "Report \<Rightarrow> PersistenceInfo" where
  "Persistence r =
    (case rp_LiveMeta r of
       None \<Rightarrow> zero_PersistenceInfo
     | Some m \<Rightarrow>
        let total = m_LiveBytes m + m_DeadBytes m;
            tail = ta_DurableTail (rp_Segments r);
            earliest = (case rp_SRT r of Inr (Some srt) \<Rightarrow> earliest_tail tail 0 (srt_Rows srt) | _ \<Rightarrow> 0)
        in \<lparr>pi_FileSizeLogical = m_FileSize m, pi_FileSizePhysical = rp_PhysicalSize r, pi_LiveBytes = m_LiveBytes m,
            pi_DeadBytes = m_DeadBytes m, pi_DeadFraction = (if total > 0 then (m_DeadBytes m, total) else (0, 1)),
            pi_RecordCount = m_RecordCount m, pi_ShardCount = p_ShardCount (rp_Prefix r),
            pi_CkptLagBytes = (if earliest \<noteq> 0 then tail - earliest else 0), pi_LastCkptUnix = m_LastCkptUnix m,
            pi_TTLNextDropUnix = (case rp_TTL r of Inr cs \<Rightarrow> next_drop 0 cs | Inl _ \<Rightarrow> 0)\<rparr>)"

datatype finding = SlotTorn nat err | NoTrustedSlot | SRTUnread err | ExtUnread err | TTLUnread err
  | FreeMapUnread err | MetaKVUnread err

definition slot_finding :: "nat \<Rightarrow> SlotReport \<Rightarrow> finding list" where
  "slot_finding i s = (if sl_Valid s then [] else case sl_Err s of Some e \<Rightarrow> [SlotTorn i e] | None \<Rightarrow> [])"

definition root_finding :: "(err \<Rightarrow> finding) \<Rightarrow> err + 'a \<Rightarrow> finding list" where
  "root_finding mk r = (case r of Inl e \<Rightarrow> [mk e] | Inr _ \<Rightarrow> [])"

definition Findings :: "Report \<Rightarrow> finding list" where
  "Findings r =
    slot_finding 0 (fst (rp_Slots r)) @ slot_finding 1 (snd (rp_Slots r))
    @ (if rp_Live r < 0 then [NoTrustedSlot] else [])
    @ root_finding SRTUnread (rp_SRT r) @ root_finding ExtUnread (rp_Extents r) @ root_finding TTLUnread (rp_TTL r)
    @ root_finding FreeMapUnread (rp_FreeMap r) @ root_finding MetaKVUnread (rp_MetaKV r)"

section \<open>dump.go\<close>

record DumpRecord =
  dm_Shard :: u16
  dm_Key :: bytes
  dm_Flags :: u32
  dm_Value :: bytes
  dm_ValueWord :: u64
  dm_ValueLen :: u32
  dm_ExpireAt :: u64

definition dump_record :: "u16 \<Rightarrow> RecordRow \<Rightarrow> DumpRecord" where
  "dump_record shard row = \<lparr>dm_Shard = shard, dm_Key = rr_Key row, dm_Flags = rr_Flags row,
     dm_Value = (if rr_Flags row AND RecFlagInline \<noteq> 0 then rr_Value row else []),
     dm_ValueWord = rr_ValueWord row, dm_ValueLen = rr_ValueLen row, dm_ExpireAt = rr_ExpireAt row\<rparr>"

definition dump_apply :: "u16 \<Rightarrow> (bytes \<times> DumpRecord) list \<Rightarrow> RecordRow \<Rightarrow> (bytes \<times> DumpRecord) list" where
  "dump_apply shard live row =
    (if rr_Flags row AND RecFlagTombstone \<noteq> 0 then AList.delete (rr_Key row) live
     else AList.update (rr_Key row) (dump_record shard row) live)"

definition dump_emit :: "('s \<Rightarrow> DumpRecord \<Rightarrow> 's \<times> err option) \<Rightarrow> (bytes \<times> DumpRecord) list \<Rightarrow> 's \<Rightarrow> 's \<times> err option" where
  "dump_emit visit live s =
    visit_list visit (List.map_filter (map_of live) (sort (map fst live))) s"

fun dump_shards :: "File \<Rightarrow> ('s \<Rightarrow> DumpRecord \<Rightarrow> 's \<times> err option) \<Rightarrow> nat list \<Rightarrow> 's \<Rightarrow> 's \<times> err option" where
  "dump_shards f visit [] s = (s, None)"
| "dump_shards f visit (k # ks) s =
    (case WalkShardRecords f (of_nat k) PageSize (\<lambda>live _ row. (dump_apply (of_nat k) live row, None)) [] of
       (_, Some e) \<Rightarrow> (s, Some e)
     | (live, None) \<Rightarrow>
        (case dump_emit visit live s of (s, Some e) \<Rightarrow> (s, Some e) | (s, None) \<Rightarrow> dump_shards f visit ks s))"

definition Dump :: "File \<Rightarrow> ('s \<Rightarrow> DumpRecord \<Rightarrow> 's \<times> err option) \<Rightarrow> 's \<Rightarrow> 's \<times> err option" where
  "Dump f visit s = dump_shards f visit [0..<unat (p_ShardCount (f_prefix f))] s"

end
