(* ===== verification/ToolProps.thy ===== *)
theory ToolProps
  imports Tools
begin

unbundle bit_operations_syntax

text \<open>The tools agree with recovery: Inspect with the open sequence, Dump with the last record of every key.\<close>

section \<open>Inspect\<close>

lemma tally_of_update: "tally_of (AList.update k v m) k' = (if k' = k then v else tally_of m k')"
  by (simp add: tally_of_def update_conv')

lemma visit_all_tally:
  "visit_all tally_visit t ss e = (e', t', eo) \<Longrightarrow>
    e' = e \<and> eo = None \<and> snd t' = snd t + length ss
    \<and> tally_of (fst t') k = tally_of (fst t) k + length (filter (\<lambda>(off, h, pl). sh_Kind h = k) ss)"
proof (induction ss arbitrary: t)
  case (Cons x ss)
  obtain off h pl where x: "x = (off, h, pl)" by (cases x)
  show ?case using Cons.IH [of "fst (tally_visit t off h pl)"] Cons.prems
    by (auto simp: x tally_visit_def tally_of_update)
qed simp

lemma pick_slot_MetaLive:
  assumes "read_full d offa 128 = Inr a" "read_full d offb 128 = Inr b" "MetaLive a b kind = Inr (live, n)"
  shows "pick_slot (read_slot d kind offa) (read_slot d kind offb) = (int n, Some live)"
  using assms by (auto simp: read_slot_def pick_slot_def MetaLive_def split: sum.splits if_splits)

text \<open>
  C26. The verify tool sees what recovery sees.  On a device that holds a log, Inspect succeeds, picks the
  same prefix and live meta slot as the open sequence, counts every segment once under its kind, and
  reports as durable tail the cursor at which a reopened file appends.
\<close>

theorem inspect_agrees_with_open:
  assumes "holds d p cs ls ss e" "sorted_wrt (<) (map seg_seq ss)"
  shows "\<exists>rep g live. Inspect d = Inr rep \<and> OpenOnDevice d opts = Inr g
    \<and> rp_Prefix rep = f_prefix g \<and> rp_Live rep = int (f_liveSlot g) \<and> rp_LiveMeta rep = Some live \<and> m_CommitSeq live = f_commitSeq g
    \<and> ta_DurableTail (rp_Segments rep) = f_cursor g \<and> ta_Total (rp_Segments rep) = length ss
    \<and> (\<forall>k. tally_of (ta_ByKind (rp_Segments rep)) k = length (filter (\<lambda>(off, h, pl). sh_Kind h = k) ss))"
proof -
  from assms(1) obtain a b live where
    pz: "read_full d 0 100 = Inr (Prefix_Marshal p)" "read_full d 4096 128 = Inr a" "read_full d 8192 128 = Inr b"
      "MetaLive a b 1 = Inr (live, ls)" "m_CommitSeq live = cs"
    and std: "std_prefix p" by (auto simp: holds_def page_zero_def)
  have p: "ParsePrefix (Prefix_Marshal p) = Inr p" "p_ChecksumKind p = 1" "p_MetaSlotAOff p = 4096" "p_MetaSlotBOff p = 8192"
    using std ParsePrefix_Marshal [of p] by (simp_all add: std_prefix_def)
  obtain e' t' eo where v: "visit_all tally_visit ([], 0) ss e = (e', t', eo)" by (cases "visit_all tally_visit ([], 0) ss e") auto
  note vt = visit_all_tally [OF v]
  have "ReplayTail d p 16384 (of_nat (Size d)) tally_visit ([], 0) = (e, t', None)"
    using holds_replay [OF assms(1), of tally_visit "([], 0)"] v vt by simp
  then have sc: "ScanSegments d p PageSize (of_nat (Size d)) = Inr \<lparr>ta_ByKind = fst t', ta_Total = snd t', ta_DurableTail = e\<rparr>"
    by (simp add: ScanSegments_def)
  note pk = pick_slot_MetaLive [OF pz(2-4)]
  have "\<exists>rep. Inspect d = Inr rep \<and> rp_Prefix rep = p \<and> rp_Live rep = int ls \<and> rp_LiveMeta rep = Some live
      \<and> rp_Segments rep = \<lparr>ta_ByKind = fst t', ta_Total = snd t', ta_DurableTail = e\<rparr>"
    using assms(1) dev_Size_readable [of d] by (simp add: Inspect_def pz(1) p pk sc Let_def holds_def)
  then show ?thesis
    using OpenOnDevice_holds [OF assms, of opts] vt pz(5)
    by (auto simp: newFile_def tally_of_def)
qed

theorem inspect_agrees_with_open_witness:
  "\<exists>f rep. CreateOnDevice demo_dev demo_opts = Inr f \<and> Inspect (f_dev f) = Inr rep \<and> rp_Live rep = int (f_liveSlot f)
     \<and> ta_DurableTail (rp_Segments rep) = 16384 \<and> ta_Total (rp_Segments rep) = 0"
proof -
  obtain f where f: "CreateOnDevice demo_dev demo_opts = Inr f" "file_inv f []" "f_cursor f = 16384" by (rule demo_file)
  have h: "holds (f_dev f) (f_prefix f) (f_commitSeq f) (f_liveSlot f) [] (f_cursor f)"
    using file_inv_holds [OF f(2)] f(3) by simp
  then have "OpenOnDevice (f_dev f) demo_open = Inr (newFile (f_dev f) (f_prefix f) (oo_Sync demo_open) (oo_SyncInterval demo_open)
      (oo_Now demo_open) (f_cursor f) (last_seq []) (f_commitSeq f) (f_liveSlot f))"
    by (rule OpenOnDevice_holds) simp
  with inspect_agrees_with_open [OF h, of demo_open] f(1,3) show ?thesis by (auto simp: newFile_def)
qed

section \<open>Dump\<close>

text \<open>The reference: a key is live when its last row is not a tombstone, and its record is that row.\<close>

definition live_row :: "RecordRow list \<Rightarrow> bytes \<Rightarrow> RecordRow option" where
  "live_row rs key =
    (let xs = filter (\<lambda>r. rr_Key r = key) rs in
     if xs = [] \<or> rr_Flags (last xs) AND RecFlagTombstone \<noteq> 0 then None else Some (last xs))"

definition dump_spec :: "u16 \<Rightarrow> RecordRow list \<Rightarrow> DumpRecord list" where
  "dump_spec shard rs = map (dump_record shard) (List.map_filter (live_row rs) (sort (remdups (map rr_Key rs))))"

lemma live_row_snoc:
  "live_row (rs @ [r]) key = (if rr_Key r = key then (if rr_Flags r AND 1 \<noteq> 0 then None else Some r) else live_row rs key)"
  by (simp add: live_row_def Let_def)

lemma dump_fold:
  "distinct (map fst (foldl (dump_apply shard) [] rs))
   \<and> map_of (foldl (dump_apply shard) [] rs) key = map_option (dump_record shard) (live_row rs key)"
proof (induction rs rule: rev_induct)
  case Nil
  then show ?case by (simp add: live_row_def)
next
  case (snoc r rs)
  then show ?case
    by (auto simp: dump_apply_def live_row_snoc distinct_update update_conv' delete_conv' distinct_delete)
qed

lemma sort_filter_eq:
  assumes "distinct xs" "distinct ys" "set xs = {k \<in> set ys. Q k}"
  shows "sort xs = filter Q (sort (ys :: 'k::linorder list))"
  using assms by (intro sorted_distinct_set_unique) (simp_all add: filter_sort)

lemma map_filter_filter: "List.map_filter g (filter (\<lambda>k. g k \<noteq> None) xs) = List.map_filter g xs"
  by (induction xs) (auto simp: List.map_filter_def)

lemma map_filter_map_option: "List.map_filter (\<lambda>k. map_option h (g k)) xs = map h (List.map_filter g xs)"
  by (induction xs) (auto simp: List.map_filter_def)

lemma dump_emit_spec:
  "dump_emit visit (foldl (dump_apply shard) [] rs) s = visit_list visit (dump_spec shard rs) s"
proof -
  let ?live = "foldl (dump_apply shard) [] rs"
  have d: "distinct (map fst ?live)" and m: "map_of ?live = (\<lambda>k. map_option (dump_record shard) (live_row rs k))"
    using dump_fold [of shard rs] by auto
  have "live_row rs k = None" if "k \<notin> rr_Key ` set rs" for k
    using that by (force simp: live_row_def Let_def filter_empty_conv)
  moreover have "set (map fst ?live) = {k. map_of ?live k \<noteq> None}" by (auto simp: map_of_eq_None_iff)
  ultimately have "set (map fst ?live) = {k \<in> set (remdups (map rr_Key rs)). map_of ?live k \<noteq> None}"
    unfolding m by fastforce
  from sort_filter_eq [OF d distinct_remdups this]
  have "List.map_filter (map_of ?live) (sort (map fst ?live)) = List.map_filter (map_of ?live) (sort (remdups (map rr_Key rs)))"
    by (simp only: map_filter_filter)
  also have "\<dots> = dump_spec shard rs" unfolding m map_filter_map_option dump_spec_def ..
  finally show ?thesis by (simp add: dump_emit_def)
qed

lemma visit_list_fold: "visit_list (\<lambda>live (a, row). (g live row, None)) xs live = (foldl g live (map snd xs), None)"
  by (induction xs arbitrary: live) auto

definition shard_rows :: "(seg \<Rightarrow> RecordRow list) \<Rightarrow> seg list \<Rightarrow> u16 \<Rightarrow> RecordRow list" where
  "shard_rows rows ss k = concat (map rows (filter (\<lambda>(off, h, pl). sh_Kind h = KindLog \<and> sh_Shard h = k) ss))"

lemma map_snd_items:
  "map snd (concat (map (record_items (\<lambda>h. sh_Kind h = KindLog \<and> sh_Shard h = k) rows) ss)) = shard_rows rows ss k"
proof (induction ss)
  case (Cons x ss)
  obtain off h pl where x: "x = (off, h, pl)" by (cases x)
  have "map snd (placed enc (\<lambda>j r. (g j r, r)) o' rs) = rs" for enc o' rs and g :: "nat \<Rightarrow> RecordRow \<Rightarrow> u64"
    by (induction rs arbitrary: o') simp_all
  then show ?case using Cons by (simp add: x shard_rows_def record_items_def)
qed (simp add: shard_rows_def)

text \<open>
  C17. Dump against its reference.  In a file whose log segments hold runs of records, Dump visits, shard
  by shard, exactly one record per key whose last row in that shard is not a tombstone, that
  row's record, with the keys of a shard in increasing byte order.
\<close>

theorem dump_exact:
  assumes "file_inv f ss" "unat (f_cursor f) < 2 ^ 62" "record_runs (\<lambda>h. sh_Kind h = KindLog) rows ss"
  shows "Dump f visit s =
    visit_list visit (concat (map (\<lambda>k. dump_spec (of_nat k) (shard_rows rows ss (of_nat k))) [0..<unat (p_ShardCount (f_prefix f))])) s"
proof -
  have w: "WalkShardRecords f k PageSize (\<lambda>live _ row. (dump_apply k live row, None)) []
    = (foldl (dump_apply k) [] (shard_rows rows ss k), None)" for k
  proof -
    have r: "record_runs (\<lambda>h. sh_Kind h = KindLog \<and> sh_Shard h = k) rows ss"
      using assms(3) by (fastforce simp: record_runs_def)
    have "file_inv f ([] @ ss)" "log_at (f_dev f) 1 16384 [] 16384" using assms(1) by simp_all
    note rw = record_walk [OF this(1) assms(2) this(2) r]
    show ?thesis unfolding WalkShardRecords_def rw visit_list_fold map_snd_items ..
  qed
  have "dump_shards f visit ks s = visit_list visit (concat (map (\<lambda>k. dump_spec (of_nat k) (shard_rows rows ss (of_nat k))) ks)) s" for ks s
    by (induction ks arbitrary: s) (simp_all add: w dump_emit_spec visit_list_append split: prod.splits option.splits)
  then show ?thesis by (simp add: Dump_def)
qed

theorem dump_exact_witness:
  "\<exists>f f'. CreateOnDevice demo_dev demo_opts = Inr f
     \<and> cut_log f (log_pending 1 KindLog 1 (record_bytes demo_row)) = (f', Inr 16448)
     \<and> Dump f' (\<lambda>s r. (s @ [r], None)) [] =
         visit_list (\<lambda>s r. (s @ [r], None)) (concat (map (\<lambda>k. dump_spec (of_nat k) (if of_nat k = (1 :: u16) then [demo_row] else []))
            [0..<unat (p_ShardCount (f_prefix f'))])) []"
proof -
  have "length (record_bytes demo_row) < 2 ^ 40" using length_record_bytes [OF wf_demo_row] by simp
  then obtain f f' h where f: "CreateOnDevice demo_dev demo_opts = Inr f"
    "cut_log f (log_pending 1 KindLog 1 (record_bytes demo_row)) = (f', Inr 16448)"
    "file_inv f' [(16384, h, record_bytes demo_row)]" "sh_Kind h = KindLog" "sh_Shard h = 1" "unat (f_cursor f') < 2 ^ 61"
    by (rule demo_cut [where k = KindLog])
  have r: "record_runs (\<lambda>h. sh_Kind h = KindLog) (\<lambda>_. [demo_row]) [(16384, h, record_bytes demo_row)]"
    by (simp add: record_runs_def wf_demo_row)
  have c: "unat (f_cursor f') < 2 ^ 62" using f(6) by simp
  note d = dump_exact [OF f(3) c r, of "\<lambda>s r. (s @ [r], None)" "[]"]
  have "shard_rows (\<lambda>_. [demo_row]) [(16384, h, record_bytes demo_row)] k = (if k = 1 then [demo_row] else [])" for k
    using f(4,5) by (simp add: shard_rows_def)
  then show ?thesis using d f(1,2) by (simp only:) blast
qed

end
