(* ===== verification/SwissTable.thy ===== *)
theory SwissTable
  imports Format
begin

unbundle bit_operations_syntax

text \<open>
  The member table of engine/f3/struct/table.go: an open-addressed table of one control byte
  and one record ordinal per slot, probed a group of eight control bytes at a time with word
  arithmetic and triangular steps between the groups.  The table stores neither keys nor
  hashes; it asks the member store behind it (the interface Set: Match and Rehash) for both.

  A result is None when the loop never returns, Some (Inl Panic) when it indexes out of range,
  and Some (Inr x) when it returns x.
\<close>

section \<open>Results of loops that may not return\<close>

type_synonym 'a outcome = "(err + 'a) option"

abbreviation ret :: "'a \<Rightarrow> 'a outcome" where "ret x \<equiv> Some (Inr x)"
abbreviation panic :: "'a outcome" where "panic \<equiv> Some (Inl Panic)"

definition bindO :: "'a outcome \<Rightarrow> ('a \<Rightarrow> 'b outcome) \<Rightarrow> 'b outcome" where
  "bindO m f = (case m of None \<Rightarrow> None | Some (Inl e) \<Rightarrow> Some (Inl e) | Some (Inr x) \<Rightarrow> f x)"

lemma bindO_simps [simp]:
  "bindO None f = None" "bindO (Some (Inl e)) f = Some (Inl e)" "bindO (Some (Inr x)) f = f x"
  by (simp_all add: bindO_def)

section \<open>The table\<close>

record Table =
  t_ctrl :: bytes
  t_ords :: "u32 list"
  t_cap :: u32
  t_count :: u32
  t_dead :: u32

abbreviation (input) ctrlEmpty :: byte where "ctrlEmpty \<equiv> 0x80"
abbreviation (input) ctrlDeleted :: byte where "ctrlDeleted \<equiv> 0xFE"
abbreviation (input) minCap :: u32 where "minCap \<equiv> 8"
abbreviation (input) lowBits :: u64 where "lowBits \<equiv> 0x0101010101010101"
abbreviation (input) highBits :: u64 where "highBits \<equiv> 0x8080808080808080"

text \<open>The ceiling of 7/8 is computed in 32 bits (maxLoad, resize) and in 64 bits (capFor).\<close>

partial_function (option) capFor_loop :: "u64 \<Rightarrow> u32 \<Rightarrow> u32 outcome" where
  "capFor_loop n c = (if (ucast c :: u64) * 7 div 8 < n then capFor_loop n (push_bit 1 c) else ret c)"

definition capFor :: "nat \<Rightarrow> u32 outcome" where
  "capFor n = capFor_loop (of_nat n) minCap"

definition Table_init :: "u32 \<Rightarrow> Table" where
  "Table_init cap = \<lparr>t_ctrl = replicate (unat cap) ctrlEmpty, t_ords = replicate (unat cap) 0,
               t_cap = cap, t_count = 0, t_dead = 0\<rparr>"

definition MakeTable :: "nat \<Rightarrow> Table outcome" where
  "MakeTable hint = bindO (capFor hint) (\<lambda>c. ret (Table_init c))"

definition Table_Len :: "Table \<Rightarrow> nat" where
  "Table_Len t = unat (t_count t)"

definition Table_maxLoad :: "Table \<Rightarrow> u32" where
  "Table_maxLoad t = t_cap t * 7 div 8"

definition tagOf :: "u64 \<Rightarrow> byte" where
  "tagOf h = ucast h AND 0x7f"

definition groupOf :: "u64 \<Rightarrow> u32 \<Rightarrow> u32" where
  "groupOf h numGroups = ucast (drop_bit 7 h) AND (numGroups - 1)"

text \<open>matchByte marks bytes of a group with word arithmetic; x AND NOT y is Go's x &^ y.\<close>

definition matchByte :: "u64 \<Rightarrow> byte \<Rightarrow> u64" where
  "matchByte grp b =
    (let x = grp XOR (lowBits * ucast b) in (x - lowBits) AND NOT x AND highBits)"

definition TrailingZeros64 :: "u64 \<Rightarrow> nat" where
  "TrailingZeros64 m = (case filter (bit m) [0..<64] of [] \<Rightarrow> 64 | i # _ \<Rightarrow> i)"

text \<open>The eight control bytes of a group: t.ctrl[base : base+8] with 32-bit bounds.\<close>

definition ctrl_word :: "Table \<Rightarrow> u32 \<Rightarrow> u64 outcome" where
  "ctrl_word t base =
    (if base \<le> base + 8 \<and> unat (base + 8) \<le> length (t_ctrl t) then ret (Uint64 (t_ctrl t) (unat base)) else panic)"

section \<open>The probe\<close>

lemma clear_low_less: "m \<noteq> 0 \<Longrightarrow> unat (m AND (m - 1)) < unat (m :: u64)"
proof -
  assume "m \<noteq> 0"
  then have "unat (m - 1) < unat m" by (simp add: unat_minus_one unat_gt_0)
  moreover have "unat (m AND (m - 1)) \<le> unat (m - 1)"
    by (metis word_and_le1 word_le_nat_alt)
  ultimately show ?thesis by simp
qed

text \<open>for m != 0: the candidates of one group, from the lowest, each confirmed by the store.\<close>

function match_loop :: "(u32 \<Rightarrow> bytes \<Rightarrow> err + bool) \<Rightarrow> Table \<Rightarrow> bytes \<Rightarrow> u32 \<Rightarrow> u64 \<Rightarrow> (u32 \<times> u32) option outcome" where
  "match_loop Match t key base m =
    (if m = 0 then ret None
     else let j = of_nat (TrailingZeros64 m div 8); slot = base + j in
       if unat slot < length (t_ords t) then
         (let ord = t_ords t ! unat slot in
          case Match ord key of
            Inl e \<Rightarrow> Some (Inl e)
          | Inr True \<Rightarrow> ret (Some (slot, ord))
          | Inr False \<Rightarrow> match_loop Match t key base (m AND (m - 1)))
       else panic)"
  by pat_completeness auto
termination
  by (relation "measure (\<lambda>(M, t, key, base, m). unat m)") (use clear_low_less in auto)

declare match_loop.simps [simp del]

partial_function (option) find_loop ::
  "(u32 \<Rightarrow> bytes \<Rightarrow> err + bool) \<Rightarrow> Table \<Rightarrow> byte \<Rightarrow> bytes \<Rightarrow> u32 \<Rightarrow> u32 \<Rightarrow> (u32 \<times> u32) option outcome" where
  "find_loop Match t tag key g stride =
    (let base = push_bit 3 g in
     case ctrl_word t base of
       None \<Rightarrow> None
     | Some (Inl e) \<Rightarrow> Some (Inl e)
     | Some (Inr word) \<Rightarrow>
         (case match_loop Match t key base (matchByte word tag) of
            None \<Rightarrow> None
          | Some (Inl e) \<Rightarrow> Some (Inl e)
          | Some (Inr (Some hit)) \<Rightarrow> ret (Some hit)
          | Some (Inr None) \<Rightarrow>
              if matchByte word ctrlEmpty \<noteq> 0 then ret None
              else find_loop Match t tag key ((g + (stride + 1)) AND (drop_bit 3 (t_cap t) - 1)) (stride + 1)))"

definition findSlot :: "(u32 \<Rightarrow> bytes \<Rightarrow> err + bool) \<Rightarrow> Table \<Rightarrow> u64 \<Rightarrow> bytes \<Rightarrow> (u32 \<times> u32) option outcome" where
  "findSlot Match t h key = find_loop Match t (tagOf h) key (groupOf h (drop_bit 3 (t_cap t))) 0"

definition Table_Find :: "(u32 \<Rightarrow> bytes \<Rightarrow> err + bool) \<Rightarrow> Table \<Rightarrow> u64 \<Rightarrow> bytes \<Rightarrow> u32 option outcome" where
  "Table_Find Match t h key = bindO (findSlot Match t h key) (\<lambda>r. ret (map_option snd r))"

section \<open>Insertion and removal\<close>

partial_function (option) place_loop :: "byte \<Rightarrow> u32 \<Rightarrow> Table \<Rightarrow> u32 \<Rightarrow> u32 \<Rightarrow> Table outcome" where
  "place_loop tag ord t g stride =
    (let base = push_bit 3 g in
     case ctrl_word t base of
       None \<Rightarrow> None
     | Some (Inl e) \<Rightarrow> Some (Inl e)
     | Some (Inr word) \<Rightarrow>
         (let free = word AND highBits in
          if free \<noteq> 0 then
            (let slot = unat (base + of_nat (TrailingZeros64 free div 8)) in
             if slot < length (t_ctrl t) \<and> slot < length (t_ords t) then
               ret (t\<lparr>t_dead := if t_ctrl t ! slot = ctrlDeleted then t_dead t - 1 else t_dead t,
                      t_ctrl := (t_ctrl t)[slot := tag], t_ords := (t_ords t)[slot := ord]\<rparr>)
             else panic)
          else place_loop tag ord t ((g + (stride + 1)) AND (drop_bit 3 (t_cap t) - 1)) (stride + 1)))"

definition Table_place :: "Table \<Rightarrow> u64 \<Rightarrow> u32 \<Rightarrow> Table outcome" where
  "Table_place t h ord = place_loop (tagOf h) ord t (groupOf h (drop_bit 3 (t_cap t))) 0"

partial_function (option) newCap_loop :: "u32 \<Rightarrow> u32 \<Rightarrow> u32 outcome" where
  "newCap_loop count newCap =
    (if count + 1 > newCap * 7 div 8 then newCap_loop count (push_bit 1 newCap) else ret newCap)"

text \<open>The loop over the old control bytes; oldOrds is as long as oldCtrl.\<close>

fun replace_all :: "(u32 \<Rightarrow> err + u64) \<Rightarrow> bytes \<Rightarrow> u32 list \<Rightarrow> Table \<Rightarrow> Table outcome" where
  "replace_all Rehash [] os t = ret t"
| "replace_all Rehash (c # cs) [] t = (if c AND 0x80 = 0 then panic else replace_all Rehash cs [] t)"
| "replace_all Rehash (c # cs) (ord # os) t =
    (if c AND 0x80 = 0 then
       (case Rehash ord of
          Inl e \<Rightarrow> Some (Inl e)
        | Inr h \<Rightarrow> bindO (Table_place t h ord) (\<lambda>t. replace_all Rehash cs os (t\<lparr>t_count := t_count t + 1\<rparr>)))
     else replace_all Rehash cs os t)"

definition Table_resize :: "(u32 \<Rightarrow> err + u64) \<Rightarrow> Table \<Rightarrow> Table outcome" where
  "Table_resize Rehash t =
    bindO (newCap_loop (t_count t) (if t_cap t < minCap then minCap else t_cap t))
      (\<lambda>newCap. replace_all Rehash (t_ctrl t) (t_ords t) (Table_init newCap))"

definition Table_Insert :: "(u32 \<Rightarrow> err + u64) \<Rightarrow> Table \<Rightarrow> u64 \<Rightarrow> u32 \<Rightarrow> Table outcome" where
  "Table_Insert Rehash t h ord =
    bindO (if t_count t + t_dead t + 1 > Table_maxLoad t then Table_resize Rehash t else ret t)
      (\<lambda>t. bindO (Table_place t h ord) (\<lambda>t. ret (t\<lparr>t_count := t_count t + 1\<rparr>)))"

definition Table_Delete :: "(u32 \<Rightarrow> bytes \<Rightarrow> err + bool) \<Rightarrow> Table \<Rightarrow> u64 \<Rightarrow> bytes \<Rightarrow> (Table \<times> u32 option) outcome" where
  "Table_Delete Match t h key =
    bindO (findSlot Match t h key)
      (\<lambda>r. case r of
         None \<Rightarrow> ret (t, None)
       | Some (slot, ord) \<Rightarrow>
           if unat slot < length (t_ctrl t) then
             ret (t\<lparr>t_ctrl := (t_ctrl t)[unat slot := ctrlDeleted], t_dead := t_dead t + 1, t_count := t_count t - 1\<rparr>, Some ord)
           else panic)"

end
