(* ===== verification/TableProbe.thy ===== *)
theory TableProbe
  imports SwissTable
begin

unbundle bit_operations_syntax

text \<open>
  The word arithmetic of the member table: what the byte match finds in a group of control
  bytes, which slot the lowest marked byte is, and that the triangular probe visits every group.
\<close>

section \<open>Bytes of a word\<close>

lemma add_8_div: "(k + 8) div 8 = Suc (k div 8)" for k :: nat
  by simp

lemma bit_le_word:
  "bit (le_word bs :: 'a::len word) n \<longleftrightarrow> n < LENGTH('a) \<and> n div 8 < length bs \<and> bit (bs ! (n div 8)) (n mod 8)"
proof (induction bs arbitrary: n)
  case Nil
  then show ?case by simp
next
  case (Cons b bs)
  show ?case
  proof (cases "n < 8")
    case True
    then show ?thesis by (auto simp: bit_simps)
  next
    case False
    then obtain k where n: "n = k + 8" by (metis add.commute le_Suc_ex linorder_not_less)
    have "\<not> bit b n" using False by (auto dest: bit_imp_le_length)
    then show ?thesis using Cons [of k] by (simp add: n bit_simps add_8_div) auto
  qed
qed

primrec bval :: "bytes \<Rightarrow> int" where
  "bval [] = 0"
| "bval (b # bs) = uint b + 256 * bval bs"

lemma uint_byte: "0 \<le> uint (b :: byte)" "uint b < 256"
  using uint_lt2p [of b] by simp_all

lemma bval_bounds: "0 \<le> bval bs \<and> bval bs < 256 ^ length bs"
proof (induction bs)
  case (Cons b bs)
  then have "256 * bval bs + 256 \<le> 256 * 256 ^ length bs" by linarith
  then show ?case using Cons uint_byte [of b] by simp
qed simp

lemma bit_split_byte:
  fixes r q :: int
  assumes "0 \<le> r" "r < 256"
  shows "bit (r + 256 * q) n \<longleftrightarrow> (if n < 8 then bit r n else bit q (n - 8))"
proof (cases "n < 8")
  case True
  then obtain k where "8 = Suc n + k" using less_iff_Suc_add by auto
  then have "(256 :: int) = 2 ^ n * (2 * 2 ^ k)" using power_add [of "2 :: int" "Suc n" k] by (simp add: \<open>8 = Suc n + k\<close> [symmetric])
  then have "r + 256 * q = r + 2 ^ n * (2 * (2 ^ k * q))" by simp
  then have "(r + 256 * q) div 2 ^ n = r div 2 ^ n + 2 * (2 ^ k * q)"
    by (simp only: div_mult_self2 power_not_zero zero_neq_numeral not_False_eq_True)
  then show ?thesis using True by (simp add: bit_iff_odd)
next
  case False
  then obtain k where n: "n = 8 + k" using le_Suc_ex not_less by blast
  have "(r + 256 * q) div 2 ^ n = (r + 256 * q) div 256 div 2 ^ k"
    by (simp add: n power_add zdiv_zmult2_eq)
  then show ?thesis using assms by (simp add: bit_iff_odd n)
qed

lemma bit_bval: "n < 8 * length bs \<Longrightarrow> bit (bval bs) n \<longleftrightarrow> bit (bs ! (n div 8)) (n mod 8)"
proof (induction bs arbitrary: n)
  case (Cons b bs)
  show ?case
  proof (cases "n < 8")
    case True
    then show ?thesis using uint_byte [of b] by (simp add: bit_split_byte bit_uint_iff)
  next
    case False
    then obtain k where n: "n = k + 8" by (metis add.commute le_Suc_ex linorder_not_less)
    then show ?thesis using Cons uint_byte [of b] by (simp add: bit_split_byte add_8_div)
  qed
qed simp

lemma uint_le_word: "8 * length bs \<le> LENGTH('a) \<Longrightarrow> uint (le_word bs :: 'a::len word) = bval bs"
proof (rule bit_eqI)
  fix n
  assume l: "8 * length bs \<le> LENGTH('a)"
  show "bit (uint (le_word bs :: 'a word)) n \<longleftrightarrow> bit (bval bs) n"
  proof (cases "n < 8 * length bs")
    case True
    then show ?thesis using l by (auto simp: bit_uint_iff bit_le_word bit_bval)
  next
    case False
    have "bval bs = take_bit (8 * length bs) (bval bs)"
      using bval_bounds [of bs] by (simp add: take_bit_int_eq_self power_mult)
    then have "\<not> bit (bval bs) n" using False by (metis bit_take_bit_iff)
    then show ?thesis using False by (auto simp: bit_uint_iff bit_le_word)
  qed
qed

section \<open>The byte match\<close>

text \<open>
  Subtracting 1 from every byte borrows out of a zero byte, and out of a 1 that a borrow reaches;
  these are the marked bytes.  hits c xs is the list of marks when a borrow of c comes in.
\<close>

primrec hits :: "int \<Rightarrow> bytes \<Rightarrow> bool list" where
  "hits c [] = []"
| "hits c (x # xs) = (uint x < 1 + c) # hits (if uint x < 1 + c then 1 else 0) xs"

lemma length_hits [simp]: "length (hits c xs) = length xs"
  by (induction xs arbitrary: c) auto

lemma bit_7_byte: "0 \<le> r \<Longrightarrow> r < 256 \<Longrightarrow> bit (r :: int) 7 \<longleftrightarrow> 128 \<le> r"
  by (simp add: bit_iff_odd) presburger

lemma borrow_bits:
  assumes "c = 0 \<or> c = 1" "j < length xs"
  shows "bit (bval xs - bval (replicate (length xs) 1) - c) (8 * j + 7) \<and> \<not> bit (bval xs) (8 * j + 7) \<longleftrightarrow> hits c xs ! j"
  using assms
proof (induction xs arbitrary: c j)
  case (Cons x xs)
  define c' :: int where "c' = (if uint x < 1 + c then 1 else 0)"
  define r where "r = uint x - 1 - c + 256 * c'"
  have r: "0 \<le> r" "r < 256" using Cons.prems(1) uint_byte [of x] by (auto simp: r_def c'_def)
  have e: "bval (x # xs) - bval (replicate (length (x # xs)) 1) - c
      = r + 256 * (bval xs - bval (replicate (length xs) 1) - c')"
    by (simp add: r_def algebra_simps)
  have x: "bval (x # xs) = uint x + 256 * bval xs" by simp
  show ?case
  proof (cases j)
    case 0
    have "128 \<le> r \<and> \<not> 128 \<le> uint x \<longleftrightarrow> uint x < 1 + c"
      using Cons.prems(1) uint_byte [of x] by (auto simp: r_def c'_def)
    then show ?thesis
      unfolding e unfolding x using r uint_byte [of x] 0
      by (simp add: bit_split_byte bit_7_byte del: right_diff_distrib_numeral)
  next
    case (Suc i)
    have "c' = 0 \<or> c' = 1" "i < length xs" using Cons.prems Suc by (auto simp: c'_def)
    from Cons.IH [OF this] show ?thesis
      unfolding e unfolding x using r uint_byte [of x] 
      by (simp add: bit_split_byte Suc c'_def [symmetric] add.commute del: right_diff_distrib_numeral)
  qed
qed simp

lemma le_word_Cons_plus: "le_word (b # bs) = (ucast b + 256 * le_word bs :: 'a::len word)"
proof -
  have "(ucast b :: 'a word) AND push_bit 8 (le_word bs) = 0"
    by (rule bit_word_eqI) (auto simp: bit_simps dest: bit_imp_le_length)
  then have "(ucast b :: 'a word) OR push_bit 8 (le_word bs) = ucast b + push_bit 8 (le_word bs)"
    by (simp add: disjunctive_add_eq_or)
  then show ?thesis by (simp add: push_bit_eq_mult mult.commute)
qed

lemma lowBits_mult: "lowBits * ucast (b :: byte) = (le_word (replicate 8 b) :: u64)"
proof -
  have "replicate 8 b = [b, b, b, b, b, b, b, b]" by (simp add: numeral_eq_Suc)
  moreover have "le_word [] = (0 :: u64)" by simp
  ultimately show ?thesis by (simp only: le_word_Cons_plus) (simp add: algebra_simps)
qed

lemma xor_le_word: "length bs = length cs \<Longrightarrow> le_word bs XOR le_word cs = (le_word (map2 (XOR) bs cs) :: 'a::len word)"
  by (rule bit_word_eqI) (auto simp: bit_xor_iff bit_le_word)

lemma highBits_bit: "bit highBits n \<longleftrightarrow> n < 64 \<and> n mod 8 = 7"
proof -
  have hb: "highBits = (le_word (replicate 8 0x80) :: u64)" using lowBits_mult [of "0x80"] by simp
  have r: "bit (replicate 8 (0x80 :: byte) ! k) i \<longleftrightarrow> i = 7" if "k < 8" for i k
  proof -
    have "bit (push_bit 7 1 :: byte) i \<longleftrightarrow> i = 7" unfolding bit_push_bit_iff by (auto simp: bit_1_iff)
    moreover have "push_bit 7 1 = (0x80 :: byte)" by simp
    ultimately show ?thesis using that by (simp only: nth_replicate)
  qed
  have "n div 8 < 8 \<longleftrightarrow> n < 64" by presburger
  then show ?thesis unfolding hb bit_le_word using r [of "n div 8" "n mod 8"] by auto
qed

text \<open>
  The marks of matchByte are the borrows over the bytes compared with b: every equal byte is marked,
  and so is a byte that differs from b in its lowest bit only when the byte below it is marked.
\<close>

lemma bit_matchByte:
  assumes "length cs = 8"
  shows "bit (matchByte (le_word cs) b) n \<longleftrightarrow> n < 64 \<and> n mod 8 = 7 \<and> hits 0 (map (\<lambda>c. c XOR b) cs) ! (n div 8)"
proof -
  let ?xs = "map (\<lambda>c. c XOR b) cs"
  have x: "le_word cs XOR lowBits * ucast b = (le_word ?xs :: u64)"
    using assms by (simp only: lowBits_mult xor_le_word length_replicate)
      (auto intro!: arg_cong [where f = le_word] nth_equalityI)
  have l: "lowBits = (le_word (replicate 8 1) :: u64)" using lowBits_mult [of 1] by simp
  have u: "uint (le_word ?xs :: u64) = bval ?xs" "uint (le_word (replicate 8 1) :: u64) = bval (replicate 8 1)"
    using assms by (simp_all add: uint_le_word del: le_word.simps)
  have s: "bit (le_word ?xs - le_word (replicate 8 1) :: u64) n \<longleftrightarrow> bit (bval ?xs - bval (replicate 8 1)) n" if "n < 64"
  proof -
    have "bit (le_word ?xs - le_word (replicate 8 1) :: u64) n
        \<longleftrightarrow> bit (uint (le_word ?xs - le_word (replicate 8 1) :: u64)) n" using that by (simp add: bit_uint_iff)
    also have "uint (le_word ?xs - le_word (replicate 8 1) :: u64) = take_bit 64 (bval ?xs - bval (replicate 8 1))"
      by (simp only: uint_word_ariths u take_bit_eq_mod) simp
    finally show ?thesis using that by (simp add: bit_take_bit_iff)
  qed
  have v: "bit (le_word ?xs :: u64) n \<longleftrightarrow> bit (bval ?xs) n" if "n < 64"
    unfolding u(1) [symmetric] bit_uint_iff using that by simp
  have mb: "matchByte (le_word cs) b = (le_word ?xs - le_word (replicate 8 1)) AND NOT (le_word ?xs) AND highBits"
    unfolding matchByte_def Let_def x by (simp only: l)
  have m: "bit (matchByte (le_word cs) b) n \<longleftrightarrow>
      n < 64 \<and> n mod 8 = 7 \<and> bit (bval ?xs - bval (replicate 8 1)) n \<and> \<not> bit (bval ?xs) n"
    unfolding mb bit_and_iff bit_not_iff highBits_bit using s v by auto
  have "(bit (bval ?xs - bval (replicate 8 1)) n \<and> \<not> bit (bval ?xs) n) \<longleftrightarrow> hits 0 ?xs ! (n div 8)"
    if "n < 64" "n mod 8 = 7"
  proof -
    have "8 * (n div 8) + 7 = n" using that by presburger
    then show ?thesis using borrow_bits [of 0 "n div 8" ?xs] assms that by (simp add: less_mult_imp_div_less)
  qed
  then show ?thesis unfolding m by blast
qed

lemma uint_byte_eq: "uint x < 1 \<longleftrightarrow> x = (0 :: byte)" "uint x < 2 \<longleftrightarrow> x = 0 \<or> x = (1 :: byte)"
proof -
  have z: "x = 0 \<longleftrightarrow> uint x = 0" "x = 1 \<longleftrightarrow> uint x = 1" by (simp_all add: word_uint_eq_iff)
  show "uint x < 1 \<longleftrightarrow> x = 0" "uint x < 2 \<longleftrightarrow> x = 0 \<or> x = 1" unfolding z using uint_byte [of x] by linarith+
qed

lemma hits_sound: "c = 0 \<or> c = 1 \<Longrightarrow> j < length xs \<Longrightarrow> hits c xs ! j \<Longrightarrow> xs ! j = 0 \<or> xs ! j = 1"
proof (induction xs arbitrary: c j)
  case (Cons x xs)
  then show ?case by (cases j) (auto simp: uint_byte_eq split: if_splits)
qed simp

lemma hits_zero: "c = 0 \<or> c = 1 \<Longrightarrow> j < length xs \<Longrightarrow> xs ! j = 0 \<Longrightarrow> hits c xs ! j"
  by (induction xs arbitrary: c j) (auto simp: nth_Cons split: nat.splits)

lemma hits_first: "j < length xs \<Longrightarrow> hits 0 xs ! j \<Longrightarrow> \<exists>i \<le> j. xs ! i = 0"
proof (induction xs arbitrary: j)
  case (Cons x xs)
  show ?case
  proof (cases "x = 0")
    case False
    then obtain i where "j = Suc i" "i < length xs" "hits 0 xs ! i"
      using Cons.prems by (cases j) (auto simp: uint_byte_eq)
    with Cons.IH show ?thesis by (metis Suc_le_mono nth_Cons_Suc)
  qed auto
qed simp

section \<open>Lowest set bits\<close>

lemma TrailingZeros64_least:
  assumes "m \<noteq> 0"
  shows "TrailingZeros64 m < 64" "bit m (TrailingZeros64 m)" "i < TrailingZeros64 m \<Longrightarrow> \<not> bit m i"
proof -
  obtain n where n: "bit m n" "n < 64" using assms bit_imp_le_length [of m] by (auto simp: bit_eq_iff)
  then have "filter (bit m) [0..<64] \<noteq> []" by (auto simp: filter_empty_conv)
  then obtain k xs where k: "filter (bit m) [0..<64] = k # xs" by (cases "filter (bit m) [0..<64]") auto
  then have t: "TrailingZeros64 m = k" by (simp add: TrailingZeros64_def)
  have "k \<in> set (filter (bit m) [0..<64])" by (simp only: k) simp
  then show "TrailingZeros64 m < 64" "bit m (TrailingZeros64 m)" by (auto simp: t)
  then show "\<not> bit m i" if "i < TrailingZeros64 m"
  proof -
    have "sorted (k # xs)" unfolding k [symmetric] by (simp add: sorted_wrt_filter)
    moreover have "i \<in> set (k # xs)" if "bit m i" unfolding k [symmetric]
      using that \<open>i < TrailingZeros64 m\<close> \<open>TrailingZeros64 m < 64\<close> by auto
    ultimately show ?thesis using \<open>i < TrailingZeros64 m\<close> by (fastforce simp: t)
  qed
qed

lemma bit_clear_low:
  assumes "m \<noteq> (0 :: u64)"
  shows "bit (m AND (m - 1)) n \<longleftrightarrow> bit m n \<and> n \<noteq> TrailingZeros64 m"
proof -
  define k where "k = TrailingZeros64 m"
  have k: "k < 64" "bit m k" "\<And>i. i < k \<Longrightarrow> \<not> bit m i"
    using TrailingZeros64_least [OF assms] by (auto simp: k_def)
  define q where "q = drop_bit k (uint m) - 1"
  have "take_bit k (uint m) = 0"
    by (rule bit_eqI) (use k(3) in \<open>auto simp: bit_take_bit_iff bit_uint_iff\<close>)
  then have m: "uint m = 2 ^ k * (q + 1)"
    using bits_ident [of k "uint m"] by (simp add: q_def push_bit_eq_mult mult.commute)
  have oq: "even q" using k by (simp add: q_def bit_iff_odd_drop_bit [symmetric] bit_uint_iff)
  have "uint (m - 1) = uint m - 1"
    using assms by (metis uint_minus_simple_alt word_neq_0_conv uint_1 word_less_1 linorder_not_less uint_minus_simple_iff word_le_def)
  then have m1: "uint (m - 1) = (2 ^ k - 1) + 2 ^ k * q" by (simp add: m algebra_simps)
  show ?thesis
  proof (cases "n \<le> k")
    case True
    have "\<not> bit (uint (m - 1)) k"
      unfolding m1 bit_iff_odd using oq by (simp add: div_pos_pos_trivial)
    then show ?thesis using True k by (auto simp: bit_and_iff bit_uint_iff k_def [symmetric] le_less)
  next
    case False
    then obtain j where n: "n = Suc (k + j)" using less_iff_Suc_add not_le by blast
    have e: "x div 2 ^ n = x div 2 ^ k div 2 div 2 ^ j" for x :: int
    proof -
      have "(2 :: int) ^ n = 2 ^ k * (2 * 2 ^ j)" by (simp add: n power_add)
      then show ?thesis by (simp only: zdiv_zmult2_eq zero_le_mult_iff zero_le_power zero_le_numeral simp_thms)
    qed
    have "uint (m - 1) div 2 ^ k = q" "uint m div 2 ^ k = q + 1" by (simp_all add: m m1 div_pos_pos_trivial)
    moreover have "(q + 1) div 2 = q div 2" using oq by simp
    ultimately have "bit (uint (m - 1)) n \<longleftrightarrow> bit (uint m) n" unfolding bit_iff_odd e by simp
    then show ?thesis using False by (auto simp: bit_and_iff bit_uint_iff k_def [symmetric] dest: bit_imp_le_length)
  qed
qed

section \<open>The triangular probe\<close>

primrec probe :: "nat \<Rightarrow> nat \<Rightarrow> nat \<Rightarrow> nat" where
  "probe G g 0 = g mod G"
| "probe G g (Suc s) = (probe G g s + Suc s) mod G"

lemma probe_closed: "probe G g s = (g + s * Suc s div 2) mod G"
proof (induction s)
  case (Suc s)
  have "Suc s * Suc (Suc s) = s * Suc s + Suc s * 2" by simp
  then have "Suc s * Suc (Suc s) div 2 = s * Suc s div 2 + Suc s" by (simp only: div_mult_self1 zero_neq_numeral not_False_eq_True)
  then have "g + Suc s * Suc (Suc s) div 2 = g + s * Suc s div 2 + Suc s" by (simp only: add.assoc)
  then show ?case using Suc by (simp only: probe.simps mod_add_left_eq)
qed simp

lemma triangle_inj:
  assumes "s < 2 ^ k" "t < s" shows "(g + s * Suc s div 2) mod 2 ^ k \<noteq> (g + t * Suc t div 2) mod 2 ^ k"
proof
  assume "(g + s * Suc s div 2) mod 2 ^ k = (g + t * Suc t div 2) mod 2 ^ k"
  then have "int ((g + s * Suc s div 2) mod 2 ^ k) = int ((g + t * Suc t div 2) mod 2 ^ k)" by (simp only:)
  then have "int (g + s * Suc s div 2) mod 2 ^ k = int (g + t * Suc t div 2) mod 2 ^ k"
    by (simp only: of_nat_mod of_nat_power of_nat_numeral)
  then have "2 ^ k dvd int (g + s * Suc s div 2) - int (g + t * Suc t div 2)" by (simp only: mod_eq_dvd_iff)
  then have d: "2 ^ k dvd int (s * Suc s div 2) - int (t * Suc t div 2)" by simp
  have e: "2 * int (x * Suc x div 2) = int x * (int x + 1)" for x
  proof -
    have "2 dvd x * Suc x" by simp
    then have "2 * (x * Suc x div 2) = x * Suc x" by (simp only: dvd_mult_div_cancel)
    then have "int (2 * (x * Suc x div 2)) = int (x * Suc x)" by (simp only:)
    then have "2 * int (x * Suc x div 2) = int x * int (Suc x)" by (simp only: of_nat_mult of_nat_numeral)
    then show ?thesis by (simp only: of_nat_Suc add.commute)
  qed
  from d have "2 * 2 ^ k dvd 2 * (int (s * Suc s div 2) - int (t * Suc t div 2))" by (rule mult_dvd_mono [OF dvd_refl])
  then have "2 * 2 ^ k dvd (int s - int t) * (int s + int t + 1)" by (simp only: right_diff_distrib e) (simp add: algebra_simps)
  then have p: "2 ^ Suc k dvd (int s - int t) * (int s + int t + 1)" by simp
  have o: "odd (int s - int t) \<or> odd (int s + int t + 1)" by presburger
  have "2 ^ Suc k dvd int s - int t \<or> 2 ^ Suc k dvd int s + int t + 1"
    using o
  proof
    assume "odd (int s - int t)"
    then have "coprime (2 ^ Suc k) (int s - int t)" by (simp only: coprime_power_left_iff coprime_left_2_iff_odd simp_thms)
    then show ?thesis using p by (simp only: coprime_dvd_mult_right_iff simp_thms)
  next
    assume "odd (int s + int t + 1)"
    then have "coprime (2 ^ Suc k) (int s + int t + 1)" by (simp only: coprime_power_left_iff coprime_left_2_iff_odd simp_thms)
    then show ?thesis using p by (simp only: coprime_dvd_mult_left_iff simp_thms)
  qed
  moreover have "int s < 2 ^ k" "int t < int s" using assms by (simp_all flip: of_nat_power_less_of_nat_cancel_iff)
  ultimately show False using zdvd_not_zless [of "int s - int t" "2 ^ Suc k"] zdvd_not_zless [of "int s + int t + 1" "2 ^ Suc k"]
    by (simp only: power_Suc) linarith
qed

lemma probe_visits_all:
  assumes "x < 2 ^ k" shows "\<exists>s < 2 ^ k. probe (2 ^ k) g s = x"
proof -
  let ?p = "probe (2 ^ k) g"
  have "inj_on ?p {..<2 ^ k}"
  proof (rule inj_onI)
    fix s t assume "s \<in> {..<2 ^ k}" "t \<in> {..<2 ^ k}" "?p s = ?p t"
    then show "s = t" using triangle_inj [of s k t g] triangle_inj [of t k s g]
      unfolding probe_closed by (metis lessThan_iff linorder_neqE_nat)
  qed
  moreover have "?p ` {..<2 ^ k} \<subseteq> {..<2 ^ k}" by (auto simp: probe_closed)
  ultimately have "?p ` {..<2 ^ k} = {..<2 ^ k}" by (rule endo_inj_surj [OF finite_lessThan, rotated])
  then show ?thesis using assms by (metis (no_types, lifting) imageE lessThan_iff)
qed

end
