(* ===== verification/TableInv.thy ===== *)
theory TableInv
  imports TableProbe
begin

unbundle bit_operations_syntax

text \<open>
  The invariant of the member table and what its operations do to it.  The member store is
  an interface (structs.Set): the locale member_store states what Match and Rehash promise, and
  the lemmas about the probe, the insertion, the removal and the resize are proved once, in it.
\<close>

section \<open>Geometry\<close>

text \<open>A table of 2 ^ k groups of eight slots.\<close>

definition geometry :: "nat \<Rightarrow> Table \<Rightarrow> bool" where
  "geometry k t \<longleftrightarrow> k \<le> 26 \<and> t_cap t = 2 ^ (k + 3) \<and> length (t_ctrl t) = 2 ^ (k + 3) \<and> length (t_ords t) = 2 ^ (k + 3)
     \<and> (\<forall>c \<in> set (t_ctrl t). c < 0x80 \<or> c = ctrlEmpty \<or> c = ctrlDeleted)"

definition full :: "Table \<Rightarrow> nat \<Rightarrow> bool" where
  "full t i \<longleftrightarrow> i < length (t_ctrl t) \<and> t_ctrl t ! i < 0x80"

definition empty_in :: "Table \<Rightarrow> nat \<Rightarrow> bool" where
  "empty_in t g \<longleftrightarrow> (\<exists>j < 8. t_ctrl t ! (8 * g + j) = ctrlEmpty)"

definition home :: "nat \<Rightarrow> u64 \<Rightarrow> nat" where
  "home k h = unat (groupOf h (2 ^ k))"

text \<open>The probe for h comes to group g without passing an empty slot.\<close>

definition reaches :: "nat \<Rightarrow> Table \<Rightarrow> u64 \<Rightarrow> nat \<Rightarrow> bool" where
  "reaches k t h g \<longleftrightarrow> (\<exists>s. probe (2 ^ k) (home k h) s = g \<and> (\<forall>r < s. \<not> empty_in t (probe (2 ^ k) (home k h) r)))"

definition stored :: "Table \<Rightarrow> u32 set" where
  "stored t = {t_ords t ! i |i. full t i}"

definition nfull :: "Table \<Rightarrow> nat" where
  "nfull t = length (filter (\<lambda>c. c < 0x80) (t_ctrl t))"

definition ndel :: "Table \<Rightarrow> nat" where
  "ndel t = length (filter (\<lambda>c. c = ctrlDeleted) (t_ctrl t))"

definition table_core :: "(u32 \<Rightarrow> bytes option) \<Rightarrow> (bytes \<Rightarrow> u64) \<Rightarrow> nat \<Rightarrow> Table \<Rightarrow> bool" where
  "table_core mem hash k t \<longleftrightarrow> geometry k t \<and> unat (t_dead t) = ndel t
     \<and> (\<forall>i. full t i \<longrightarrow> (\<exists>key. mem (t_ords t ! i) = Some key \<and> t_ctrl t ! i = tagOf (hash key)
            \<and> reaches k t (hash key) (i div 8)))
     \<and> (\<forall>i j. full t i \<longrightarrow> full t j \<longrightarrow> mem (t_ords t ! i) = mem (t_ords t ! j) \<longrightarrow> i = j)"

definition table_inv :: "(u32 \<Rightarrow> bytes option) \<Rightarrow> (bytes \<Rightarrow> u64) \<Rightarrow> Table \<Rightarrow> bool" where
  "table_inv mem hash t \<longleftrightarrow>
     (\<exists>k. table_core mem hash k t \<and> unat (t_count t) = nfull t \<and> nfull t + ndel t \<le> 7 * 2 ^ k)"

lemma core_geometry: "table_core mem hash k t \<Longrightarrow> geometry k t"
  by (simp add: table_core_def)

lemma core_inj:
  "table_core mem hash k t \<Longrightarrow> full t i \<Longrightarrow> full t j \<Longrightarrow> mem (t_ords t ! i) = mem (t_ords t ! j) \<Longrightarrow> i = j"
  unfolding table_core_def by blast

lemma core_slot:
  assumes "table_core mem hash k t" "full t i"
  obtains key where "mem (t_ords t ! i) = Some key" "t_ctrl t ! i = tagOf (hash key)" "reaches k t (hash key) (i div 8)"
  using assms unfolding table_core_def by blast

lemma stored_iff: "ord \<in> stored t \<longleftrightarrow> (\<exists>i. full t i \<and> t_ords t ! i = ord)"
  by (auto simp: stored_def)

text \<open>The invariant looks at the store only where the table has ordinals.\<close>

lemma table_inv_cong:
  assumes "\<And>ord. ord \<in> stored t \<Longrightarrow> mem ord = mem' ord" "table_inv mem hash t"
  shows "table_inv mem' hash t"
proof -
  have "mem (t_ords t ! i) = mem' (t_ords t ! i)" if "full t i" for i
    using that by (intro assms(1)) (auto simp: stored_def)
  then have "table_core mem hash k t \<Longrightarrow> table_core mem' hash k t" for k
    unfolding table_core_def by metis
  then show ?thesis using assms(2) unfolding table_inv_def by blast
qed

lemma count_irrelevant [simp]:
  "full (t\<lparr>t_count := c\<rparr>) = full t" "stored (t\<lparr>t_count := c\<rparr>) = stored t"
  "nfull (t\<lparr>t_count := c\<rparr>) = nfull t" "ndel (t\<lparr>t_count := c\<rparr>) = ndel t"
  "table_core mem hash k (t\<lparr>t_count := c\<rparr>) = table_core mem hash k t"
  by (auto simp: full_def stored_def nfull_def ndel_def table_core_def geometry_def reaches_def empty_in_def fun_eq_iff)

section \<open>Words of the geometry\<close>

lemma pow_bound: "k \<le> 26 \<Longrightarrow> (2 :: nat) ^ k \<le> 67108864"
  using power_increasing [of k 26 "2 :: nat"] by simp

lemma unat_small: "n < 4294967296 \<Longrightarrow> unat (of_nat n :: u32) = n"
  by (simp add: unat_of_nat)

lemma unat_inc: "unat (c :: u32) + 1 < 4294967296 \<Longrightarrow> unat (c + 1) = unat c + 1"
  using unat_small [of "unat c + 1"] by (simp add: add.commute)

lemma unat_pow: "k \<le> 29 \<Longrightarrow> unat (2 ^ k :: u32) = 2 ^ k"
  using unat_small [of "2 ^ k"] power_increasing [of k 29 "2 :: nat"] by simp

lemma unat_load: "k \<le> 26 \<Longrightarrow> unat (2 ^ (k + 3) * 7 div 8 :: u32) = 7 * 2 ^ k"
proof -
  assume k: "k \<le> 26"
  have "unat (2 ^ (k + 3) * 7 :: u32) = 2 ^ (k + 3) * 7"
    using pow_bound [OF k] unat_small [of "2 ^ (k + 3) * 7"] by (simp add: power_add)
  then show ?thesis by (simp add: unat_div power_add)
qed

lemma groups: "geometry k t \<Longrightarrow> drop_bit 3 (t_cap t) = 2 ^ k"
proof -
  assume "geometry k t"
  then have k: "k \<le> 26" and c: "t_cap t = 2 ^ (k + 3)" by (auto simp: geometry_def)
  have "unat (drop_bit 3 (t_cap t)) = unat (2 ^ k :: u32)"
    using k by (simp only: unat_drop_bit_eq c unat_pow) (simp add: unat_pow drop_bit_eq_div power_add)
  then show ?thesis by (simp only: word_unat_eq_iff)
qed

lemma and_groups: "k \<le> 26 \<Longrightarrow> unat (w AND (2 ^ k - 1) :: u32) = unat w mod 2 ^ k"
proof -
  have "w AND (2 ^ k - 1) = take_bit k w" by (simp add: take_bit_eq_mask mask_eq_exp_minus_1)
  then show ?thesis by (simp only: unsigned_take_bit_eq take_bit_nat_def)
qed

lemma home_less: "k \<le> 26 \<Longrightarrow> home k h < 2 ^ k"
  by (simp add: home_def groupOf_def and_groups)

lemma probe_less: "probe (2 ^ k) g s < 2 ^ k"
  by (cases s) auto

text \<open>The loop variables at step s of a probe: the group as a word, and the stride.\<close>

abbreviation at_step :: "nat \<Rightarrow> u64 \<Rightarrow> nat \<Rightarrow> u32" where
  "at_step k h s \<equiv> of_nat (probe (2 ^ k) (home k h) s)"

lemma at_step_0: "k \<le> 26 \<Longrightarrow> at_step k h 0 = groupOf h (2 ^ k)"
  using home_less [of k h] by (simp add: home_def)

lemma at_step_Suc:
  assumes "k \<le> 26" "s < 2 ^ k"
  shows "(at_step k h s + (of_nat s + 1)) AND (2 ^ k - 1) = at_step k h (Suc s)"
proof -
  have b: "probe (2 ^ k) (home k h) s + Suc s < 2 ^ 32"
    using pow_bound [OF assms(1)] probe_less [of k "home k h" s] assms(2) by simp
  have "unat (at_step k h s + (of_nat s + 1)) = probe (2 ^ k) (home k h) s + Suc s"
  proof -
    have "at_step k h s + (of_nat s + 1) = of_nat (probe (2 ^ k) (home k h) s + Suc s)" by simp
    then show ?thesis using b by (simp only: unat_of_nat) (simp add: mod_less)
  qed
  then have "unat ((at_step k h s + (of_nat s + 1)) AND (2 ^ k - 1)) = probe (2 ^ k) (home k h) (Suc s)"
    by (simp only: and_groups [OF assms(1)] probe.simps)
  moreover have "probe (2 ^ k) (home k h) (Suc s) < 2 ^ 32"
    using pow_bound [OF assms(1)] probe_less [of k "home k h" "Suc s"] by (simp del: probe.simps)
  then have "unat (at_step k h (Suc s)) = probe (2 ^ k) (home k h) (Suc s)" by (simp only: unat_of_nat) (simp add: mod_less)
  ultimately show ?thesis by (simp only: word_unat_eq_iff)
qed

section \<open>A group of control bytes\<close>

lemma nth_ctrl_group: "8 * g + 8 \<le> length b \<Longrightarrow> j < 8 \<Longrightarrow> sub b (8 * g) 8 ! j = b ! (8 * g + j)"
  by (simp add: nth_sub)

lemma group_bound: "geometry k t \<Longrightarrow> g < 2 ^ k \<Longrightarrow> 8 * g + 8 \<le> length (t_ctrl t)"
  by (auto simp: geometry_def power_add)

lemma group_base:
  assumes "geometry k t" "g < 2 ^ k"
  shows "unat (push_bit 3 (of_nat g) :: u32) = 8 * g" "j \<le> 8 \<Longrightarrow> unat (push_bit 3 (of_nat g) + of_nat j :: u32) = 8 * g + j"
    and "push_bit 3 (of_nat g :: u32) \<le> push_bit 3 (of_nat g) + 8"
proof -
  have "k \<le> 26" using assms by (simp add: geometry_def)
  then have b: "8 * g + 8 \<le> 536870912" using pow_bound [of k] assms(2) by linarith
  have e: "push_bit 3 (of_nat g :: u32) = of_nat (8 * g)" by (simp add: push_bit_eq_mult)
  show 1: "unat (push_bit 3 (of_nat g) :: u32) = 8 * g"
    unfolding e using b by (simp only: unat_of_nat) (simp add: mod_less)
  have 2: "unat (push_bit 3 (of_nat g) + of_nat j :: u32) = 8 * g + j" if "j \<le> 8" for j
  proof -
    have "push_bit 3 (of_nat g) + of_nat j = (of_nat (8 * g + j) :: u32)" unfolding e by simp
    then show ?thesis using b that by (simp only: unat_of_nat) (simp add: mod_less)
  qed
  show "push_bit 3 (of_nat g :: u32) \<le> push_bit 3 (of_nat g) + 8"
    using 1 2 [of 8] by (simp add: word_le_nat_alt)
  show "j \<le> 8 \<Longrightarrow> unat (push_bit 3 (of_nat g) + of_nat j :: u32) = 8 * g + j" by (rule 2)
qed

lemma ctrl_word_group:
  assumes "geometry k t" "g < 2 ^ k"
  shows "ctrl_word t (push_bit 3 (of_nat g)) = ret (le_word (sub (t_ctrl t) (8 * g) 8))"
  using group_base [OF assms] group_base(2) [OF assms, of 8] group_bound [OF assms]
  by (simp add: ctrl_word_def Uint64_def)

definition ctrl_group :: "Table \<Rightarrow> nat \<Rightarrow> bytes" where
  "ctrl_group t g = sub (t_ctrl t) (8 * g) 8"

lemma ctrl_group:
  assumes "geometry k t" "g < 2 ^ k"
  shows "length (ctrl_group t g) = 8" "j < 8 \<Longrightarrow> ctrl_group t g ! j = t_ctrl t ! (8 * g + j)"
  using group_bound [OF assms] by (simp_all add: ctrl_group_def nth_sub)

lemma byte_xor_eq: "c XOR b = x \<longleftrightarrow> c = b XOR x" for b c x :: byte
proof
  assume "c XOR b = x"
  then show "c = b XOR x" by (auto simp: xor.left_commute [of b c b])
next
  assume "c = b XOR x"
  then show "c XOR b = x" by (simp add: xor.commute [of _ b] xor.assoc [symmetric])
qed

lemmas byte_xor_one = byte_xor_eq [where x = 1]
lemmas byte_xor_zero = byte_xor_eq [where x = 0, simplified]

lemma word_zero_bits: "w = 0 \<longleftrightarrow> (\<forall>n. \<not> bit w n)" for w :: u64
proof
  assume "\<forall>n. \<not> bit w n"
  then show "w = 0" by (intro bit_word_eqI) simp
qed simp

lemma mark_tag:
  assumes "geometry k t" "g < 2 ^ k" "bit (matchByte (le_word (ctrl_group t g)) tag) n"
  shows "n < 64" "n mod 8 = 7" "t_ctrl t ! (8 * g + n div 8) = tag \<or> t_ctrl t ! (8 * g + n div 8) = tag XOR 1"
proof -
  note b = assms(3) [unfolded bit_matchByte [OF ctrl_group(1) [OF assms(1,2)]]]
  then show n: "n < 64" "n mod 8 = 7" by auto
  then have j: "n div 8 < 8" by auto
  have "ctrl_group t g ! (n div 8) XOR tag = 0 \<or> ctrl_group t g ! (n div 8) XOR tag = 1"
    using hits_sound [of 0 "n div 8" "map (\<lambda>c. c XOR tag) (ctrl_group t g)"] b j ctrl_group(1) [OF assms(1,2)] by simp
  then show "t_ctrl t ! (8 * g + n div 8) = tag \<or> t_ctrl t ! (8 * g + n div 8) = tag XOR 1"
    using ctrl_group(2) [OF assms(1,2) j] by (simp add: byte_xor_zero byte_xor_one)
qed

lemma tag_marked:
  assumes "geometry k t" "g < 2 ^ k" "j < 8" "t_ctrl t ! (8 * g + j) = tag"
  shows "bit (matchByte (le_word (ctrl_group t g)) tag) (8 * j + 7)"
proof -
  have d: "(8 * j + 7) div 8 = j" "(8 * j + 7) mod 8 = 7" by presburger+
  show ?thesis
    unfolding bit_matchByte [OF ctrl_group(1) [OF assms(1,2)]] d
    using assms(3,4) ctrl_group [OF assms(1,2)] by (simp add: hits_zero)
qed

lemma empty_marked:
  assumes "geometry k t" "g < 2 ^ k"
  shows "matchByte (le_word (ctrl_group t g)) ctrlEmpty \<noteq> 0 \<longleftrightarrow> empty_in t g"
proof
  assume "empty_in t g"
  then show "matchByte (le_word (ctrl_group t g)) ctrlEmpty \<noteq> 0"
    using tag_marked [OF assms] by (fastforce simp: empty_in_def)
next
  assume "matchByte (le_word (ctrl_group t g)) ctrlEmpty \<noteq> 0"
  then obtain n where "bit (matchByte (le_word (ctrl_group t g)) ctrlEmpty) n"
    unfolding word_zero_bits by blast
  note b = this [unfolded bit_matchByte [OF ctrl_group(1) [OF assms]]]
  then have j: "n div 8 < 8" by auto
  then obtain i where "i \<le> n div 8" "ctrl_group t g ! i XOR ctrlEmpty = 0"
    using hits_first [of "n div 8" "map (\<lambda>c. c XOR ctrlEmpty) (ctrl_group t g)"] b ctrl_group(1) [OF assms] by auto
  then show "empty_in t g"
    using j ctrl_group(2) [OF assms, of i] by (auto simp: empty_in_def byte_xor_zero intro!: exI [of _ i])
qed

lemma byte_high: "bit c 7 \<longleftrightarrow> \<not> c < 0x80" for c :: byte
proof -
  have "bit c 7 \<longleftrightarrow> bit (uint c) 7" by (simp add: bit_uint_iff)
  also have "\<dots> \<longleftrightarrow> 128 \<le> uint c" using uint_byte [of c] by (rule bit_7_byte)
  finally show ?thesis by (simp add: word_less_def not_less)
qed

lemma byte_full: "c AND 0x80 = 0 \<longleftrightarrow> c < 0x80" for c :: byte
proof -
  have "c AND 2 ^ 7 = 0 \<longleftrightarrow> \<not> bit c 7" by (rule and_exp_eq_0_iff_not_bit)
  moreover have "(2 ^ 7 :: byte) = 0x80" by simp
  ultimately show ?thesis by (simp only: byte_high not_not)
qed

lemma free_marked:
  assumes "geometry k t" "g < 2 ^ k"
  shows "bit (le_word (ctrl_group t g) AND highBits) n \<longleftrightarrow> n < 64 \<and> n mod 8 = 7 \<and> \<not> t_ctrl t ! (8 * g + n div 8) < 0x80"
  unfolding bit_and_iff highBits_bit bit_le_word
  using ctrl_group(1) [OF assms] ctrl_group(2) [OF assms, of "n div 8"] by (auto simp: byte_high)

lemma free_word:
  assumes "geometry k t" "g < 2 ^ k"
  shows "le_word (ctrl_group t g) AND highBits = 0 \<longleftrightarrow> (\<forall>j < 8. full t (8 * g + j))"
proof -
  have "(\<forall>n. \<not> bit (le_word (ctrl_group t g) AND highBits) n) \<longleftrightarrow> (\<forall>j < 8. t_ctrl t ! (8 * g + j) < 0x80)" (is "?l \<longleftrightarrow> ?r")
  proof
    assume l: ?l
    show ?r
    proof (intro allI impI)
      fix j :: nat assume "j < 8"
      moreover have "(8 * j + 7) div 8 = j" "(8 * j + 7) mod 8 = 7" by presburger+
      ultimately show "t_ctrl t ! (8 * g + j) < 0x80" using l [rule_format, of "8 * j + 7"] by (simp add: free_marked [OF assms])
    qed
  next
    assume ?r
    then show ?l by (auto simp: free_marked [OF assms])
  qed
  moreover have "t_ctrl t ! (8 * g + j) < 0x80 \<longleftrightarrow> full t (8 * g + j)" if "j < 8" for j
    using that group_bound [OF assms] by (simp add: full_def)
  ultimately show ?thesis unfolding word_zero_bits by blast
qed

lemma tag_low: "tagOf h < 0x80" "tagOf h XOR 1 < 0x80"
proof -
  have b: "\<not> bit (0x7f :: byte) 7" by (simp add: byte_high)
  have "\<not> bit (tagOf h) 7" unfolding tagOf_def bit_and_iff using b by blast
  then show "tagOf h < 0x80" by (simp only: byte_high not_not)
  have "\<not> bit (tagOf h XOR 1) 7" unfolding bit_xor_iff using \<open>\<not> bit (tagOf h) 7\<close> by (simp add: bit_1_iff)
  then show "tagOf h XOR 1 < 0x80" by (simp only: byte_high not_not)
qed

lemma geometry_lengths: "geometry k t \<Longrightarrow> length (t_ords t) = 8 * 2 ^ k \<and> length (t_ctrl t) = 8 * 2 ^ k"
  by (simp add: geometry_def power_add)

lemma full_group: "geometry k t \<Longrightarrow> full t i \<Longrightarrow> i div 8 < 2 ^ k \<and> i < 8 * 2 ^ k"
  using geometry_lengths [of k t] by (auto simp: full_def)

text \<open>The slot that bit n of a match word of group g stands for.\<close>

lemma marked_slot:
  assumes "geometry k t" "g < 2 ^ k" "bit (matchByte (le_word (ctrl_group t g)) (tagOf h)) n"
  shows "unat (push_bit 3 (of_nat g) + of_nat (n div 8) :: u32) = 8 * g + n div 8" "full t (8 * g + n div 8)"
    and "n = 8 * (n div 8) + 7"
proof -
  note n = mark_tag [OF assms]
  then have j: "n div 8 < 8" by auto
  then show "unat (push_bit 3 (of_nat g) + of_nat (n div 8) :: u32) = 8 * g + n div 8"
    using group_base(2) [OF assms(1,2), of "n div 8"] by simp
  show "full t (8 * g + n div 8)"
    using n(3) tag_low [of h] group_bound [OF assms(1,2)] j by (auto simp: full_def)
  show "n = 8 * (n div 8) + 7" using n(2) by presburger
qed

section \<open>Writing a slot\<close>

lemma length_filter_update:
  "i < length xs \<Longrightarrow> length (filter P (xs[i := x])) + (if P (xs ! i) then 1 else 0) = length (filter P xs) + (if P x then 1 else 0)"
proof (induction xs arbitrary: i)
  case (Cons y xs)
  show ?case
  proof (cases i)
    case (Suc j)
    then show ?thesis using Cons.IH [of j] Cons.prems by auto
  qed auto
qed simp

lemma nfull_less:
  assumes "i < length (t_ctrl t)" "\<not> full t i" shows "nfull t < length (t_ctrl t)"
  using assms length_filter_less [of "t_ctrl t ! i" "t_ctrl t" "\<lambda>c. c < 0x80"] by (auto simp: nfull_def full_def)

lemma nfull_room: "nfull t < length (t_ctrl t) \<Longrightarrow> \<exists>i < length (t_ctrl t). \<not> full t i"
proof (rule ccontr)
  assume l: "nfull t < length (t_ctrl t)" and "\<not> (\<exists>i < length (t_ctrl t). \<not> full t i)"
  then have "\<forall>c \<in> set (t_ctrl t). c < 0x80" by (auto simp: full_def in_set_conv_nth)
  then have "nfull t = length (t_ctrl t)" by (simp add: nfull_def)
  with l show False by simp
qed

lemma empty_room:
  assumes "geometry k t" "nfull t + ndel t < 8 * 2 ^ k"
  shows "\<exists>i < length (t_ctrl t). t_ctrl t ! i = ctrlEmpty"
proof (rule ccontr)
  assume "\<not> (\<exists>i < length (t_ctrl t). t_ctrl t ! i = ctrlEmpty)"
  then have "\<forall>c \<in> set (t_ctrl t). c < 0x80 \<longleftrightarrow> c \<noteq> ctrlDeleted"
    using assms(1) by (fastforce simp: geometry_def in_set_conv_nth)
  then have "filter (\<lambda>c. c < 0x80) (t_ctrl t) = filter (\<lambda>c. c \<noteq> ctrlDeleted) (t_ctrl t)" by (auto intro: filter_cong)
  then have "nfull t + ndel t = length (t_ctrl t)"
    using sum_length_filter_compl [of "\<lambda>c. c = ctrlDeleted" "t_ctrl t"] by (simp add: nfull_def ndel_def)
  then show False using assms geometry_lengths by auto
qed

lemma reaches_mono: "reaches k t h g \<Longrightarrow> (\<And>g. empty_in t' g \<Longrightarrow> empty_in t g) \<Longrightarrow> reaches k t' h g"
  by (auto simp: reaches_def)

text \<open>The slot i of t rewritten to a full one.\<close>

definition slot_write :: "Table \<Rightarrow> Table \<Rightarrow> nat \<Rightarrow> byte \<Rightarrow> u32 \<Rightarrow> bool" where
  "slot_write t t' i c ord \<longleftrightarrow> i < length (t_ctrl t) \<and> i < length (t_ords t) \<and> \<not> full t i \<and> c < 0x80
     \<and> t_ctrl t' = (t_ctrl t)[i := c] \<and> t_ords t' = (t_ords t)[i := ord] \<and> t_cap t' = t_cap t"

lemma slot_writeD:
  assumes "slot_write t t' i c ord"
  shows "i < length (t_ctrl t)" "i < length (t_ords t)" "\<not> full t i" "c < 0x80"
    "t_ctrl t' = (t_ctrl t)[i := c]" "t_ords t' = (t_ords t)[i := ord]" "t_cap t' = t_cap t"
  using assms by (simp_all add: slot_write_def)

lemma write_full: "slot_write t t' i c ord \<Longrightarrow> full t' j \<longleftrightarrow> full t j \<or> j = i"
  by (auto simp: slot_write_def full_def nth_list_update)

lemma write_ords:
  assumes "slot_write t t' i c ord"
  shows "full t j \<Longrightarrow> t_ords t' ! j = t_ords t ! j" "t_ords t' ! i = ord"
  using assms by (auto simp: slot_write_def nth_list_update)

lemma write_stored:
  assumes "slot_write t t' i c ord" shows "stored t' = insert ord (stored t)"
proof -
  have "stored t' = (\<lambda>j. t_ords t' ! j) ` ({j. full t j} \<union> {i})"
    unfolding stored_def write_full [OF assms] by auto
  moreover have "(\<lambda>j. t_ords t' ! j) ` {j. full t j} = stored t"
    unfolding stored_def image_Collect using write_ords(1) [OF assms] by metis
  ultimately show ?thesis using write_ords(2) [OF assms] by (simp add: image_Un)
qed

lemma write_empty:
  assumes "slot_write t t' i c ord" "empty_in t' g" shows "empty_in t g"
proof -
  note w = slot_writeD [OF assms(1)]
  obtain j where j: "j < 8" "t_ctrl t' ! (8 * g + j) = ctrlEmpty" using assms(2) by (auto simp: empty_in_def)
  then have "8 * g + j \<noteq> i" using w by auto
  then show ?thesis using j by (auto simp: empty_in_def w(5))
qed

lemma write_counts:
  assumes "slot_write t t' i c ord"
  shows "nfull t' = nfull t + 1" "ndel t' + (if t_ctrl t ! i = ctrlDeleted then 1 else 0) = ndel t"
proof -
  note w = slot_writeD [OF assms]
  have "\<not> t_ctrl t ! i < 0x80" using w by (simp add: full_def)
  then show "nfull t' = nfull t + 1"
    using length_filter_update [OF w(1), of "\<lambda>c. c < 0x80" c] w(4) by (simp add: nfull_def w(5))
  have "c \<noteq> ctrlDeleted" using w(4) by auto
  then show "ndel t' + (if t_ctrl t ! i = ctrlDeleted then 1 else 0) = ndel t"
    using length_filter_update [OF w(1), of "\<lambda>c. c = ctrlDeleted" c] by (simp add: ndel_def w(5))
qed

lemma write_geometry: "slot_write t t' i c ord \<Longrightarrow> geometry k t \<Longrightarrow> geometry k t'"
  by (auto simp: slot_write_def geometry_def dest!: set_update_subset_insert [THEN subsetD])

lemma write_core:
  assumes w: "slot_write t t' i (tagOf (hash key)) ord"
    and "table_core mem hash k t" "mem ord = Some key" "reaches k t (hash key) (i div 8)"
    and "\<And>j. full t j \<Longrightarrow> mem (t_ords t ! j) \<noteq> Some key" "unat (t_dead t') = ndel t'"
  shows "table_core mem hash k t'"
  unfolding table_core_def
proof (intro conjI allI impI)
  show "geometry k t'" using assms(2) by (auto simp: table_core_def intro: write_geometry [OF w])
  show "unat (t_dead t') = ndel t'" by (rule assms(6))
next
  note e = reaches_mono [OF _ write_empty [OF w]]
  fix j assume j: "full t' j"
  show "\<exists>key. mem (t_ords t' ! j) = Some key \<and> t_ctrl t' ! j = tagOf (hash key) \<and> reaches k t' (hash key) (j div 8)"
  proof (cases "full t j")
    case True
    then obtain key' where "mem (t_ords t ! j) = Some key'" "t_ctrl t ! j = tagOf (hash key')" "reaches k t (hash key') (j div 8)"
      using assms(2) unfolding table_core_def by blast
    moreover have "j \<noteq> i" using True slot_writeD(3) [OF w] by auto
    ultimately show ?thesis
      using True write_ords(1) [OF w] e by (auto simp: slot_writeD(5) [OF w])
  next
    case False
    then have "j = i" using j write_full [OF w] by simp
    then show ?thesis
      using assms(3,4) slot_writeD(1,5) [OF w] write_ords(2) [OF w] e by simp
  qed
next
  fix j l assume "full t' j" "full t' l" "mem (t_ords t' ! j) = mem (t_ords t' ! l)"
  then show "j = l"
    using assms(2,3,5) write_ords [OF w] unfolding write_full [OF w] table_core_def by metis
qed

text \<open>The count of the table is the number of its ordinals.\<close>

lemma Len_stored: "table_inv mem hash t \<Longrightarrow> Table_Len t = card (stored t)"
proof -
  assume "table_inv mem hash t"
  then obtain k where k: "table_core mem hash k t" "unat (t_count t) = nfull t" by (auto simp: table_inv_def)
  have "inj_on ((!) (t_ords t)) {i. full t i}" using core_inj [OF k(1)] by (auto intro!: inj_onI)
  moreover have "stored t = (!) (t_ords t) ` {i. full t i}" by (auto simp: stored_def)
  ultimately have "card (stored t) = card {i. full t i}" by (simp add: card_image)
  moreover have "nfull t = card {i. full t i}"
    by (simp add: nfull_def length_filter_conv_card full_def)
  ultimately show ?thesis using k(2) by (simp add: Table_Len_def)
qed

section \<open>Clearing a slot\<close>

lemma clear_core:
  assumes c: "table_core mem hash k t" and i: "full t i"
    and t': "t_ctrl t' = (t_ctrl t)[i := ctrlDeleted]" "t_ords t' = t_ords t" "t_cap t' = t_cap t" "t_dead t' = t_dead t + 1"
  shows "table_core mem hash k t'" "stored t' = stored t - {t_ords t ! i}" "nfull t' + 1 = nfull t" "ndel t' = ndel t + 1"
proof -
  note geo = core_geometry [OF c]
  have il: "i < length (t_ctrl t)" "t_ctrl t ! i < 0x80" using i by (simp_all add: full_def)
  have f: "full t' j \<longleftrightarrow> full t j \<and> j \<noteq> i" for j using il by (auto simp: full_def t' nth_list_update)
  have e: "empty_in t' g \<Longrightarrow> empty_in t g" for g
  proof -
    assume "empty_in t' g"
    then obtain j where j: "j < 8" "t_ctrl t' ! (8 * g + j) = ctrlEmpty" by (auto simp: empty_in_def)
    then have "8 * g + j \<noteq> i" using il by (auto simp: t')
    then show ?thesis using j by (auto simp: empty_in_def t')
  qed
  show "nfull t' + 1 = nfull t"
    using length_filter_update [OF il(1), of "\<lambda>c. c < 0x80" ctrlDeleted] il(2) by (simp add: nfull_def t')
  have "t_ctrl t ! i \<noteq> ctrlDeleted" using il(2) by auto
  then show n: "ndel t' = ndel t + 1"
    using length_filter_update [OF il(1), of "\<lambda>c. c = ctrlDeleted" ctrlDeleted] by (simp add: ndel_def t')
  show "stored t' = stored t - {t_ords t ! i}"
    unfolding stored_def f t'(2) using core_inj [OF c i] by auto (metis (full_types))
  have "ndel t + 1 \<le> 8 * 2 ^ k"
    using n length_filter_le [of _ "t_ctrl t'"] geometry_lengths [OF geo] by (metis ndel_def length_list_update t'(1))
  moreover have "k \<le> 26" using geo by (simp add: geometry_def)
  ultimately have b: "ndel t + 1 < 4294967296" using pow_bound [of k] by linarith
  have d: "unat (t_dead t) = ndel t" using c by (simp add: table_core_def)
  have "unat (t_dead t') = ndel t'"
    unfolding n t'(4) using b d unat_inc [of "t_dead t"] by simp
  moreover have "geometry k t'"
    using geo by (auto simp: geometry_def t' dest!: set_update_subset_insert [THEN subsetD])
  ultimately show "table_core mem hash k t'"
    using c core_inj [OF c] reaches_mono [OF _ e] unfolding table_core_def f t'(1,2) by (auto simp: nth_list_update)
qed

end
