(* ===== verification/TableOps.thy ===== *)
theory TableOps
  imports TableInv
begin

unbundle bit_operations_syntax

text \<open>
  The operations of the member table over a member store that keeps its contract.  Find returns
  and answers for exactly the stored members, Insert adds one ordinal, Delete removes one, a
  resize keeps them all, and each of them keeps the invariant.
\<close>

locale member_store =
  fixes Match :: "u32 \<Rightarrow> bytes \<Rightarrow> err + bool"
    and Rehash :: "u32 \<Rightarrow> err + u64"
    and mem :: "u32 \<Rightarrow> bytes option"
    and hash :: "bytes \<Rightarrow> u64"
  assumes Match_mem: "mem ord = Some k \<Longrightarrow> Match ord key = Inr (k = key)"
    and Rehash_mem: "mem ord = Some k \<Longrightarrow> Rehash ord = Inr (hash k)"

section \<open>Candidates of one group\<close>

context member_store
begin

text \<open>Slot n div 8 of the group at base, marked by bit n of the match word.\<close>

abbreviation candidate :: "Table \<Rightarrow> u32 \<Rightarrow> nat \<Rightarrow> u32" where
  "candidate t base n \<equiv> t_ords t ! unat (base + of_nat (n div 8))"

lemma match_loop_none:
  assumes "\<And>n. bit m n \<Longrightarrow> unat (base + of_nat (n div 8)) < length (t_ords t)
      \<and> (\<exists>k. mem (candidate t base n) = Some k \<and> k \<noteq> key)"
  shows "match_loop Match t key base m = ret None"
  using assms
proof (induction "unat m" arbitrary: m rule: less_induct)
  case less
  show ?case
  proof (cases "m = 0")
    case False
    let ?n = "TrailingZeros64 m"
    obtain k where k: "unat (base + of_nat (?n div 8)) < length (t_ords t)"
        "mem (candidate t base ?n) = Some k" "k \<noteq> key"
      using less.prems TrailingZeros64_least(2) [OF False] by blast
    have "match_loop Match t key base (m AND (m - 1)) = ret None"
      using less.prems clear_low_less [OF False] by (intro less.hyps) (auto simp: bit_clear_low [OF False])
    then show ?thesis
      using False k Match_mem [OF k(2), of key] by (subst match_loop.simps) (simp add: Let_def)
  qed (simp add: match_loop.simps)
qed

lemma match_loop_some:
  assumes "\<And>n. bit m n \<Longrightarrow> unat (base + of_nat (n div 8)) < length (t_ords t)
      \<and> (\<exists>k. mem (candidate t base n) = Some k \<and> (k = key \<longrightarrow> n = n0))"
    and "bit m n0" "mem (candidate t base n0) = Some key"
  shows "match_loop Match t key base m = ret (Some (base + of_nat (n0 div 8), candidate t base n0))"
  using assms(1,2)
proof (induction "unat m" arbitrary: m rule: less_induct)
  case less
  then have m: "m \<noteq> 0" by auto
  let ?n = "TrailingZeros64 m"
  obtain k where k: "unat (base + of_nat (?n div 8)) < length (t_ords t)"
      "mem (candidate t base ?n) = Some k" "k = key \<longrightarrow> ?n = n0"
    using less.prems(1) TrailingZeros64_least(2) [OF m] by blast
  show ?case
  proof (cases "?n = n0")
    case True
    then show ?thesis
      using m k Match_mem [OF assms(3), of key] by (subst match_loop.simps) (simp add: Let_def)
  next
    case False
    have "match_loop Match t key base (m AND (m - 1)) = ret (Some (base + of_nat (n0 div 8), candidate t base n0))"
      using less.prems clear_low_less [OF m] False by (intro less.hyps) (auto simp: bit_clear_low [OF m])
    then show ?thesis
      using m k False Match_mem [OF k(2), of key] by (subst match_loop.simps) (auto simp: Let_def)
  qed
qed

section \<open>Find\<close>

lemma group_none:
  assumes "table_core mem hash k t" "g < 2 ^ k"
    and "\<And>i. full t i \<Longrightarrow> i div 8 = g \<Longrightarrow> mem (t_ords t ! i) \<noteq> Some key"
  shows "match_loop Match t key (push_bit 3 (of_nat g)) (matchByte (le_word (ctrl_group t g)) (tagOf h)) = ret None"
proof (rule match_loop_none)
  fix n assume n: "bit (matchByte (le_word (ctrl_group t g)) (tagOf h)) n"
  note geo = core_geometry [OF assms(1)]
  note m = marked_slot [OF geo assms(2) n]
  have "n div 8 < 8" using mark_tag(1) [OF geo assms(2) n] by auto
  then have d: "(8 * g + n div 8) div 8 = g" by simp
  obtain k' where "mem (t_ords t ! (8 * g + n div 8)) = Some k'"
    by (rule core_slot [OF assms(1) m(2)])
  then show "unat (push_bit 3 (of_nat g) + of_nat (n div 8) :: u32) < length (t_ords t) \<and>
      (\<exists>k. mem (candidate t (push_bit 3 (of_nat g)) n) = Some k \<and> k \<noteq> key)"
    unfolding m(1) using full_group [OF geo m(2)] geometry_lengths [OF geo] assms(3) [OF m(2) d] by auto
qed

lemma group_some:
  assumes "table_core mem hash k t" "full t i" "mem (t_ords t ! i) = Some key"
  shows "match_loop Match t key (push_bit 3 (of_nat (i div 8))) (matchByte (le_word (ctrl_group t (i div 8))) (tagOf (hash key)))
    = ret (Some (of_nat i, t_ords t ! i))"
proof -
  let ?g = "i div 8" and ?j = "i mod 8"
  let ?m = "matchByte (le_word (ctrl_group t ?g)) (tagOf (hash key))"
  note geo = core_geometry [OF assms(1)]
  have g: "?g < 2 ^ k" using full_group [OF geo assms(2)] by simp
  have u: "push_bit 3 (of_nat ?g) + of_nat ?j = (of_nat i :: u32)"
  proof -
    have "push_bit 3 (of_nat ?g) + of_nat ?j = (of_nat (8 * ?g + ?j) :: u32)"
      unfolding push_bit_eq_mult of_nat_add of_nat_mult by (simp add: mult.commute)
    then show ?thesis by (simp only: mult_div_mod_eq)
  qed
  have d: "(8 * ?j + 7) div 8 = ?j" by presburger
  have i: "unat (push_bit 3 (of_nat ?g) + of_nat ?j :: u32) = i"
    using group_base(2) [OF geo g, of ?j] by simp
  have "match_loop Match t key (push_bit 3 (of_nat ?g)) ?m
      = ret (Some (push_bit 3 (of_nat ?g) + of_nat ((8 * ?j + 7) div 8), candidate t (push_bit 3 (of_nat ?g)) (8 * ?j + 7)))"
  proof (rule match_loop_some)
    have "t_ctrl t ! (8 * ?g + ?j) = tagOf (hash key)"
      using core_slot [OF assms(1,2)] assms(3) by (metis mult_div_mod_eq option.inject)
    then show "bit ?m (8 * ?j + 7)" by (intro tag_marked [OF geo g]) auto
    show "mem (candidate t (push_bit 3 (of_nat ?g)) (8 * ?j + 7)) = Some key"
      unfolding d i by (rule assms(3))
    fix n assume n: "bit ?m n"
    note m = marked_slot [OF geo g n]
    obtain k' where k': "mem (t_ords t ! (8 * ?g + n div 8)) = Some k'"
      by (rule core_slot [OF assms(1) m(2)])
    have "k' = key \<Longrightarrow> 8 * ?g + n div 8 = i"
      using core_inj [OF assms(1) m(2) assms(2)] k' assms(3) by simp
    then have "k' = key \<Longrightarrow> n div 8 = ?j" using mult_div_mod_eq [of 8 i] by linarith
    then have "k' = key \<Longrightarrow> n = 8 * ?j + 7" using mark_tag(2) [OF geo g n] mult_div_mod_eq [of 8 n] by simp
    then show "unat (push_bit 3 (of_nat ?g) + of_nat (n div 8) :: u32) < length (t_ords t) \<and>
        (\<exists>k. mem (candidate t (push_bit 3 (of_nat ?g)) n) = Some k \<and> (k = key \<longrightarrow> n = 8 * ?j + 7))"
      unfolding m(1) using full_group [OF geo m(2)] geometry_lengths [OF geo] k' by auto
  qed
  then show ?thesis unfolding d i unfolding u .
qed

lemma find_step:
  fixes h :: u64
  assumes "geometry k t" "s < 2 ^ k"
  defines "g \<equiv> probe (2 ^ k) (home k h) s"
  shows "find_loop Match t tag key (at_step k h s) (of_nat s) =
    bindO (match_loop Match t key (push_bit 3 (of_nat g)) (matchByte (le_word (ctrl_group t g)) tag))
      (\<lambda>r. case r of Some x \<Rightarrow> ret (Some x)
        | None \<Rightarrow> if empty_in t g then ret None
            else find_loop Match t tag key (at_step k h (Suc s)) (of_nat (Suc s)))"
proof -
  have g: "g < 2 ^ k" by (simp add: g_def probe_less)
  have k: "k \<le> 26" using assms(1) by (simp add: geometry_def)
  have c: "ctrl_word t (push_bit 3 (at_step k h s)) = ret (le_word (ctrl_group t g))"
    using ctrl_word_group [OF assms(1) g] by (simp add: g_def ctrl_group_def)
  have w: "of_nat s + 1 = (of_nat (Suc s) :: u32)" by simp
  have n: "(at_step k h s + of_nat (Suc s)) AND (drop_bit 3 (t_cap t) - 1) = at_step k h (Suc s)"
    unfolding groups [OF assms(1)] w [symmetric] by (rule at_step_Suc [OF k assms(2)])
  have e: "matchByte (le_word (ctrl_group t g)) ctrlEmpty \<noteq> 0 \<longleftrightarrow> empty_in t g"
    by (rule empty_marked [OF assms(1) g])
  show ?thesis
    unfolding find_loop.simps [of Match t tag key "at_step k h s" "of_nat s"] Let_def
    by (simp only: c w n e bindO_def option.case sum.case) (simp only: g_def)
qed

text \<open>The probe passes the groups that hold neither the key nor an empty slot.\<close>

lemma find_skip:
  assumes "table_core mem hash k t" "s < 2 ^ k"
    and "\<And>r i. r < s \<Longrightarrow> full t i \<Longrightarrow> i div 8 = probe (2 ^ k) (home k h) r \<Longrightarrow> mem (t_ords t ! i) \<noteq> Some key"
    and "\<And>r. r < s \<Longrightarrow> \<not> empty_in t (probe (2 ^ k) (home k h) r)"
  shows "findSlot Match t h key = find_loop Match t (tagOf h) key (at_step k h s) (of_nat s)"
  using assms(2,3,4)
proof (induction s)
  case 0
  have geo: "geometry k t" and "k \<le> 26" using assms(1) by (simp_all add: table_core_def geometry_def)
  then show ?case by (simp only: findSlot_def groups [OF geo] at_step_0 semiring_1_class.of_nat_0)
next
  case (Suc s)
  note geo = core_geometry [OF assms(1)]
  have "findSlot Match t h key = find_loop Match t (tagOf h) key (at_step k h s) (of_nat s)"
    using Suc.prems by (intro Suc.IH) (simp, meson less_SucI, meson less_SucI)
  also have "\<dots> = find_loop Match t (tagOf h) key (at_step k h (Suc s)) (of_nat (Suc s))"
  proof -
    have s: "s < 2 ^ k" using Suc.prems(1) by simp
    have "match_loop Match t key (push_bit 3 (at_step k h s))
        (matchByte (le_word (ctrl_group t (probe (2 ^ k) (home k h) s))) (tagOf h)) = ret None"
      using Suc.prems(2) [of s] by (intro group_none [OF assms(1) probe_less]) auto
    then show ?thesis
      using Suc.prems(3) [of s] by (subst find_step [OF geo s]) (simp del: probe.simps)
  qed
  finally show ?case .
qed

lemma findSlot_absent:
  assumes "table_core mem hash k t" "\<And>i. full t i \<Longrightarrow> mem (t_ords t ! i) \<noteq> Some key"
    and "\<exists>i < length (t_ctrl t). t_ctrl t ! i = ctrlEmpty"
  shows "findSlot Match t h key = ret None"
proof -
  note geo = core_geometry [OF assms(1)]
  obtain i where i: "i < 8 * 2 ^ k" "t_ctrl t ! i = ctrlEmpty" using assms(3) geometry_lengths [OF geo] by auto
  let ?P = "\<lambda>s. s < 2 ^ k \<and> empty_in t (probe (2 ^ k) (home k h) s)"
  have "i div 8 < 2 ^ k" using i(1) by auto
  then obtain s0 where "s0 < 2 ^ k" "probe (2 ^ k) (home k h) s0 = i div 8" using probe_visits_all by blast
  moreover have "empty_in t (i div 8)" unfolding empty_in_def using i(2) by (intro exI [of _ "i mod 8"]) auto
  ultimately have s0: "?P s0" by simp
  define s where "s = (LEAST s. ?P s)"
  have s: "?P s" unfolding s_def by (rule LeastI [of ?P, OF s0])
  have l: "\<not> empty_in t (probe (2 ^ k) (home k h) r)" if "r < s" for r
    using not_less_Least [of r ?P] that s by (auto simp: s_def)
  have "findSlot Match t h key = find_loop Match t (tagOf h) key (at_step k h s) (of_nat s)"
    using s l assms(2) by (intro find_skip [OF assms(1)]) auto
  also have "\<dots> = ret None"
    using s group_none [OF assms(1) probe_less, of "home k h" s key h] assms(2) by (subst find_step [OF geo]) auto
  finally show ?thesis .
qed

lemma findSlot_present:
  assumes "table_core mem hash k t" "full t i" "mem (t_ords t ! i) = Some key"
  shows "findSlot Match t (hash key) key = ret (Some (of_nat i, t_ords t ! i))"
proof -
  note geo = core_geometry [OF assms(1)]
  let ?p = "probe (2 ^ k) (home k (hash key))"
  obtain s0 where s0: "?p s0 = i div 8" "\<And>r. r < s0 \<Longrightarrow> \<not> empty_in t (?p r)"
    using core_slot [OF assms(1,2)] assms(3) unfolding reaches_def by (metis option.inject)
  define s where "s = (LEAST s. ?p s = i div 8)"
  have s: "?p s = i div 8" unfolding s_def by (rule LeastI [of "\<lambda>s. ?p s = i div 8", OF s0(1)])
  have l: "?p r \<noteq> i div 8" if "r < s" for r using not_less_Least [of r "\<lambda>s. ?p s = i div 8"] that by (auto simp: s_def)
  have "s \<le> s0" unfolding s_def by (rule Least_le [where P = "\<lambda>s. ?p s = i div 8", OF s0(1)])
  then have e: "\<not> empty_in t (?p r)" if "r < s" for r using s0(2) that by simp
  have "i div 8 < 2 ^ k" using full_group [OF geo assms(2)] by simp
  then obtain s1 where "s1 < 2 ^ k" "?p s1 = i div 8" using probe_visits_all by blast
  then have b: "s < 2 ^ k"
    unfolding s_def using Least_le [where P = "\<lambda>s. ?p s = i div 8", of s1] by simp
  have "findSlot Match t (hash key) key = find_loop Match t (tagOf (hash key)) key (at_step k (hash key) s) (of_nat s)"
  proof (rule find_skip [OF assms(1) b])
    fix r j assume "r < s" "full t j" "j div 8 = ?p r"
    then show "mem (t_ords t ! j) \<noteq> Some key"
      using l [of r] core_inj [OF assms(1,2), of j] assms(3) by auto
  qed (use e in auto)
  also have "\<dots> = ret (Some (of_nat i, t_ords t ! i))"
    using group_some [OF assms] by (subst find_step [OF geo b]) (simp add: s del: probe.simps)
  finally show ?thesis .
qed

section \<open>Placing an ordinal\<close>

lemma place_step:
  fixes h :: u64
  assumes "geometry k t" "s < 2 ^ k" "\<And>j. j < 8 \<Longrightarrow> full t (8 * probe (2 ^ k) (home k h) s + j)"
  shows "place_loop tag ord t (at_step k h s) (of_nat s) = place_loop tag ord t (at_step k h (Suc s)) (of_nat (Suc s))"
proof -
  let ?g = "probe (2 ^ k) (home k h) s"
  have k: "k \<le> 26" using assms(1) by (simp add: geometry_def)
  have c: "ctrl_word t (push_bit 3 (at_step k h s)) = ret (le_word (ctrl_group t ?g))"
    using ctrl_word_group [OF assms(1) probe_less] by (simp add: ctrl_group_def)
  have f: "le_word (ctrl_group t ?g) AND highBits = 0" using free_word [OF assms(1) probe_less] assms(3) by blast
  have w: "of_nat s + 1 = (of_nat (Suc s) :: u32)" by simp
  have n: "(at_step k h s + of_nat (Suc s)) AND (drop_bit 3 (t_cap t) - 1) = at_step k h (Suc s)"
    unfolding groups [OF assms(1)] w [symmetric] by (rule at_step_Suc [OF k assms(2)])
  show ?thesis
    unfolding place_loop.simps [of tag ord t "at_step k h s" "of_nat s"] Let_def
    by (simp only: c w n f option.case sum.case not_not if_False simp_thms)
qed

lemma place_skip:
  assumes "geometry k t" "s < 2 ^ k" "\<And>r j. r < s \<Longrightarrow> j < 8 \<Longrightarrow> full t (8 * probe (2 ^ k) (home k h) r + j)"
  shows "Table_place t h ord = place_loop (tagOf h) ord t (at_step k h s) (of_nat s)"
  using assms(2,3)
proof (induction s)
  case 0
  have "k \<le> 26" using assms(1) by (simp add: geometry_def)
  then show ?case by (simp only: Table_place_def groups [OF assms(1)] at_step_0 semiring_1_class.of_nat_0)
next
  case (Suc s)
  have "Table_place t h ord = place_loop (tagOf h) ord t (at_step k h s) (of_nat s)"
    using Suc.prems by (intro Suc.IH) (simp, meson less_SucI)
  also have "\<dots> = place_loop (tagOf h) ord t (at_step k h (Suc s)) (of_nat (Suc s))"
    using Suc.prems by (intro place_step [OF assms(1)]) auto
  finally show ?case .
qed

lemma place_here:
  assumes "geometry k t" "g < 2 ^ k" "i = 8 * g + j" "j < 8" "\<not> full t i"
  obtains i t' where "i div 8 = g" "place_loop (tagOf h) ord t (of_nat g) stride = ret t'"
    "slot_write t t' i (tagOf h) ord" "t_count t' = t_count t"
    "t_dead t' = (if t_ctrl t ! i = ctrlDeleted then t_dead t - 1 else t_dead t)"
proof -
  let ?w = "le_word (ctrl_group t g) AND highBits"
  have c: "ctrl_word t (push_bit 3 (of_nat g)) = ret (le_word (ctrl_group t g))"
    using ctrl_word_group [OF assms(1,2)] by (simp add: ctrl_group_def)
  have w: "?w \<noteq> 0" using free_word [OF assms(1,2)] assms(3,4,5) by blast
  let ?n = "TrailingZeros64 ?w" let ?i = "8 * g + ?n div 8"
  have n: "?n < 64" "\<not> t_ctrl t ! ?i < 0x80"
    using TrailingZeros64_least(1,2) [OF w] free_marked [OF assms(1,2)] by blast+
  then have j: "?n div 8 < 8" by simp
  have u: "unat (push_bit 3 (of_nat g) + of_nat (?n div 8) :: u32) = ?i"
    using group_base(2) [OF assms(1,2)] j by simp
  have l: "?i < length (t_ctrl t)" "?i < length (t_ords t)"
    using group_bound [OF assms(1,2)] j geometry_lengths [OF assms(1)] by simp_all
  define t' where "t' = t\<lparr>t_dead := if t_ctrl t ! ?i = ctrlDeleted then t_dead t - 1 else t_dead t,
      t_ctrl := (t_ctrl t)[?i := tagOf h], t_ords := (t_ords t)[?i := ord]\<rparr>"
  have "place_loop (tagOf h) ord t (of_nat g) stride = ret t'"
    unfolding place_loop.simps [of "tagOf h" ord t "of_nat g" stride] Let_def t'_def
    using w l by (simp only: c u option.case sum.case if_True simp_thms)
  moreover have "slot_write t t' ?i (tagOf h) ord"
    using l n(2) tag_low(1) [of h] by (simp add: slot_write_def full_def t'_def)
  moreover have "?i div 8 = g" using j by simp
  ultimately show ?thesis by (intro that [of ?i t']) (simp_all add: t'_def)
qed

lemma place_spec:
  assumes "table_core mem hash k t" "nfull t < 8 * 2 ^ k" "mem ord = Some key"
    and "\<And>i. full t i \<Longrightarrow> mem (t_ords t ! i) \<noteq> Some key"
  obtains t' where "Table_place t (hash key) ord = ret t'" "table_core mem hash k t'"
    "stored t' = insert ord (stored t)" "nfull t' = nfull t + 1" "ndel t' \<le> ndel t" "t_count t' = t_count t"
proof -
  note geo = core_geometry [OF assms(1)]
  let ?p = "probe (2 ^ k) (home k (hash key))"
  obtain i where i: "i < 8 * 2 ^ k" "\<not> full t i" using nfull_room [of t] assms(2) geometry_lengths [OF geo] by auto
  let ?P = "\<lambda>s. s < 2 ^ k \<and> (\<exists>j < 8. \<not> full t (8 * ?p s + j))"
  have "i div 8 < 2 ^ k" using i(1) by auto
  then obtain s0 where "s0 < 2 ^ k" "?p s0 = i div 8" using probe_visits_all by blast
  then have s0: "?P s0" using i(2) by (auto intro!: exI [of _ "i mod 8"])
  define s where "s = (LEAST s. ?P s)"
  have s: "?P s" unfolding s_def by (rule LeastI [of ?P, OF s0])
  have l: "full t (8 * ?p r + j)" if "r < s" "j < 8" for r j
  proof (rule ccontr)
    assume "\<not> full t (8 * ?p r + j)"
    then have "?P r" using that s by (meson less_trans)
    then show False using not_less_Least [of r ?P] that(1) unfolding s_def by blast
  qed
  from s obtain j where j: "j < 8" "\<not> full t (8 * ?p s + j)" by blast
  obtain i t' where t': "i div 8 = ?p s" "place_loop (tagOf (hash key)) ord t (at_step k (hash key) s) (of_nat s) = ret t'"
      "slot_write t t' i (tagOf (hash key)) ord" "t_count t' = t_count t"
      "t_dead t' = (if t_ctrl t ! i = ctrlDeleted then t_dead t - 1 else t_dead t)"
    by (rule place_here [OF geo probe_less refl j])
  have "\<not> empty_in t (?p r)" if "r < s" for r
  proof
    assume "empty_in t (?p r)"
    then obtain j where "j < 8" "t_ctrl t ! (8 * ?p r + j) = ctrlEmpty" by (auto simp: empty_in_def)
    then show False using l [OF that, of j] by (simp add: full_def)
  qed
  then have reach: "reaches k t (hash key) (i div 8)" unfolding reaches_def t'(1) by blast
  have "unat (t_dead t) = ndel t" using assms(1) by (simp add: table_core_def)
  moreover have "t_ctrl t ! i = ctrlDeleted \<Longrightarrow> t_dead t \<noteq> 0"
    using calculation write_counts(2) [OF t'(3)] by auto
  ultimately have d: "unat (t_dead t') = ndel t'"
    using write_counts(2) [OF t'(3)] by (auto simp: t'(5) unat_minus_one split: if_splits)
  have "table_core mem hash k t'"
    using assms(4) by (intro write_core [OF t'(3) assms(1,3) reach _ d]) auto
  moreover have "Table_place t (hash key) ord = ret t'"
    using place_skip [OF geo, of s "hash key" ord] s l t'(2) by simp
  ultimately show ?thesis
    using write_stored [OF t'(3)] write_counts [OF t'(3)] t'(4) by (intro that [of t']) auto
qed

section \<open>Find, Delete, resize and Insert\<close>

lemma inv_empty:
  assumes "table_inv mem hash t"
  obtains k where "table_core mem hash k t" "unat (t_count t) = nfull t" "nfull t + ndel t \<le> 7 * 2 ^ k"
    "\<exists>i < length (t_ctrl t). t_ctrl t ! i = ctrlEmpty"
proof -
  obtain k where k: "table_core mem hash k t" "unat (t_count t) = nfull t" "nfull t + ndel t \<le> 7 * 2 ^ k"
    using assms by (auto simp: table_inv_def)
  have "nfull t + ndel t < 8 * 2 ^ k" using k(3) zero_less_power [of "2 :: nat" k] by linarith
  then show ?thesis using that k empty_room [OF core_geometry [OF k(1)]] by blast
qed

lemma Find_present:
  assumes "table_inv mem hash t" "ord \<in> stored t" "mem ord = Some key"
  shows "Table_Find Match t (hash key) key = ret (Some ord)"
proof -
  obtain k where "table_core mem hash k t" using assms(1) by (auto simp: table_inv_def)
  moreover obtain i where "full t i" "t_ords t ! i = ord" using assms(2) by (auto simp: stored_iff)
  ultimately show ?thesis using findSlot_present [of k t i key] assms(3) by (simp add: Table_Find_def)
qed

lemma Find_absent:
  assumes "table_inv mem hash t" "\<And>ord. ord \<in> stored t \<Longrightarrow> mem ord \<noteq> Some key"
  shows "Table_Find Match t h key = ret None"
proof -
  obtain k where k: "table_core mem hash k t" "\<exists>i < length (t_ctrl t). t_ctrl t ! i = ctrlEmpty"
    using inv_empty [OF assms(1)] by blast
  have "findSlot Match t h key = ret None"
    using assms(2) by (intro findSlot_absent [OF k(1) _ k(2)]) (auto simp: stored_iff)
  then show ?thesis by (simp add: Table_Find_def)
qed

lemma Delete_absent:
  assumes "table_inv mem hash t" "\<And>ord. ord \<in> stored t \<Longrightarrow> mem ord \<noteq> Some key"
  shows "Table_Delete Match t h key = ret (t, None)"
proof -
  obtain k where k: "table_core mem hash k t" "\<exists>i < length (t_ctrl t). t_ctrl t ! i = ctrlEmpty"
    using inv_empty [OF assms(1)] by blast
  have "findSlot Match t h key = ret None"
    using assms(2) by (intro findSlot_absent [OF k(1) _ k(2)]) (auto simp: stored_iff)
  then show ?thesis by (simp add: Table_Delete_def)
qed

lemma Delete_present:
  assumes "table_inv mem hash t" "ord \<in> stored t" "mem ord = Some key"
  obtains t' where "Table_Delete Match t (hash key) key = ret (t', Some ord)" "table_inv mem hash t'"
    "stored t' = stored t - {ord}" "Table_Len t' + 1 = Table_Len t"
proof -
  obtain k where k: "table_core mem hash k t" "unat (t_count t) = nfull t" "nfull t + ndel t \<le> 7 * 2 ^ k"
    using assms(1) by (auto simp: table_inv_def)
  note geo = core_geometry [OF k(1)]
  obtain i where i: "full t i" "t_ords t ! i = ord" using assms(2) by (auto simp: stored_iff)
  have f: "findSlot Match t (hash key) key = ret (Some (of_nat i, ord))"
    using findSlot_present [OF k(1) i(1)] i(2) assms(3) by simp
  have "k \<le> 26" using geo by (simp add: geometry_def)
  then have u: "unat (of_nat i :: u32) = i"
    using full_group [OF geo i(1)] pow_bound [of k] by (intro unat_small) linarith
  define t' where "t' = t\<lparr>t_ctrl := (t_ctrl t)[i := ctrlDeleted], t_dead := t_dead t + 1, t_count := t_count t - 1\<rparr>"
  have d: "table_core mem hash k t'" "stored t' = stored t - {ord}" "nfull t' + 1 = nfull t" "ndel t' = ndel t + 1"
    using clear_core [OF k(1) i(1), of t'] i(2) by (simp_all add: t'_def)
  have "t_count t \<noteq> 0" using k(2) d(3) by auto
  then have n: "unat (t_count t') = nfull t'" using k(2) d(3) by (simp add: t'_def unat_minus_one)
  have "Table_Delete Match t (hash key) key = ret (t', Some ord)"
    using i(1) by (simp add: Table_Delete_def f u t'_def full_def)
  moreover have "table_inv mem hash t'" unfolding table_inv_def using d n k(3) by (intro exI [of _ k]) auto
  ultimately show ?thesis using that d n k(2) by (simp add: Table_Len_def)
qed

end

text \<open>The capacity a resize picks: the first doubling whose 7/8 seats one more member.\<close>

lemma newCap_step:
  assumes "unat c + 1 < 4294967296" "k \<le> 26"
  shows "newCap_loop c (2 ^ (k + 3)) = (if unat c + 1 > 7 * 2 ^ k then newCap_loop c (2 ^ (Suc k + 3)) else ret (2 ^ (k + 3)))"
proof -
  have "unat (c + 1) = unat c + 1" by (rule unat_inc [OF assms(1)])
  then have "c + 1 > 2 ^ (k + 3) * 7 div 8 \<longleftrightarrow> unat c + 1 > 7 * 2 ^ k"
    unfolding word_less_nat_alt unat_load [OF assms(2)] by simp
  moreover have "push_bit 1 (2 ^ (k + 3)) = (2 ^ (Suc k + 3) :: u32)"
    by (simp add: push_bit_eq_mult power_add)
  ultimately show ?thesis by (subst newCap_loop.simps) (simp only:)
qed

lemma newCap_loop_returns:
  assumes "unat c + 1 \<le> 7 * 2 ^ 26" "k \<le> 26"
  shows "\<exists>k'. newCap_loop c (2 ^ (k + 3)) = ret (2 ^ (k' + 3)) \<and> k \<le> k' \<and> k' \<le> 26 \<and> unat c + 1 \<le> 7 * 2 ^ k'"
  using assms(2)
proof (induction "26 - k" arbitrary: k)
  case 0
  then have "k = 26" by simp
  then show ?case using newCap_step [of c 26] assms(1) by (intro exI [of _ 26]) simp
next
  case (Suc d)
  have b: "unat c + 1 < 4294967296" using assms(1) by simp
  show ?case
  proof (cases "unat c + 1 > 7 * 2 ^ k")
    case True
    then have e: "newCap_loop c (2 ^ (k + 3)) = newCap_loop c (2 ^ (Suc k + 3))"
      using newCap_step [OF b Suc.prems] by simp
    have "d = 26 - Suc k" "Suc k \<le> 26" using Suc.hyps(2) by auto
    from Suc.hyps(1) [OF this] show ?thesis unfolding e by (meson Suc_leD)
  next
    case False
    then show ?thesis using newCap_step [OF b Suc.prems] Suc.prems by (intro exI [of _ k]) simp
  qed
qed

lemma init_core:
  assumes "k \<le> 26"
  shows "table_core mem hash k (Table_init (2 ^ (k + 3)))" "stored (Table_init (2 ^ (k + 3))) = {}"
    "nfull (Table_init (2 ^ (k + 3))) = 0" "ndel (Table_init (2 ^ (k + 3))) = 0" "t_count (Table_init (2 ^ (k + 3))) = 0"
proof -
  have u: "unat (2 ^ (k + 3) :: u32) = 2 ^ (k + 3)" using assms by (intro unat_pow) simp
  have f: "\<not> full (Table_init (2 ^ (k + 3))) i" for i by (simp add: full_def Table_init_def u)
  show n: "nfull (Table_init (2 ^ (k + 3))) = 0" "ndel (Table_init (2 ^ (k + 3))) = 0"
    by (simp_all add: nfull_def ndel_def Table_init_def)
  show "stored (Table_init (2 ^ (k + 3))) = {}" by (simp add: stored_def f)
  have "geometry k (Table_init (2 ^ (k + 3)))" using assms u by (simp add: geometry_def Table_init_def)
  then show "table_core mem hash k (Table_init (2 ^ (k + 3)))"
    using n by (simp add: table_core_def f) (simp add: Table_init_def)
  show "t_count (Table_init (2 ^ (k + 3))) = 0" by (simp add: Table_init_def)
qed

context member_store
begin

text \<open>The ordinals that a resize takes over, in slot order.\<close>

definition live_ords :: "bytes \<Rightarrow> u32 list \<Rightarrow> u32 list" where
  "live_ords cs os = map snd (filter (\<lambda>(c, ord). c < 0x80) (zip cs os))"

lemma live_ords_simps [simp]:
  "live_ords [] os = []" "live_ords (c # cs) (ord # os) = (if c < 0x80 then ord # live_ords cs os else live_ords cs os)"
  by (simp_all add: live_ords_def)

lemma replace_all_spec:
  assumes "length cs = length os" "table_core mem hash k t" "unat (t_count t) = nfull t" "ndel t = 0"
    and "nfull t + length (live_ords cs os) \<le> 7 * 2 ^ k"
    and "\<forall>ord \<in> set (live_ords cs os). mem ord \<noteq> None"
    and "distinct (map mem (live_ords cs os))" "mem ` set (live_ords cs os) \<inter> mem ` stored t = {}"
  shows "\<exists>t'. replace_all Rehash cs os t = ret t' \<and> table_core mem hash k t' \<and> unat (t_count t') = nfull t' \<and> ndel t' = 0
    \<and> nfull t' = nfull t + length (live_ords cs os) \<and> stored t' = stored t \<union> set (live_ords cs os)"
  using assms
proof (induction cs os arbitrary: t rule: list_induct2)
  case (Cons c cs ord os)
  show ?case
  proof (cases "c < 0x80")
    case True
    let ?l = "live_ords cs os"
    have l: "live_ords (c # cs) (ord # os) = ord # ?l" using True by simp
    obtain key where key: "mem ord = Some key" using Cons.prems(5) unfolding l by auto
    have k: "k \<le> 26" using core_geometry [OF Cons.prems(1)] by (simp add: geometry_def)
    have room: "nfull t + 1 \<le> 7 * 2 ^ k" using Cons.prems(4) unfolding l by simp
    have "nfull t < 8 * 2 ^ k" using room by linarith
    moreover have "mem (t_ords t ! i) \<noteq> Some key" if "full t i" for i
    proof -
      have "mem (t_ords t ! i) \<in> mem ` stored t" using that by (auto simp: stored_def)
      then show ?thesis using Cons.prems(7) key unfolding l by auto
    qed
    ultimately obtain t1 where t1: "Table_place t (hash key) ord = ret t1" "table_core mem hash k t1"
        "stored t1 = insert ord (stored t)" "nfull t1 = nfull t + 1" "ndel t1 \<le> ndel t" "t_count t1 = t_count t"
      using place_spec [OF Cons.prems(1) _ key] by blast
    let ?t = "t1\<lparr>t_count := t_count t1 + 1\<rparr>"
    have "unat (t_count ?t) = nfull ?t"
      using t1(4,6) Cons.prems(2) room pow_bound [OF k] unat_inc [of "t_count t"] by simp
    moreover have "mem ` set ?l \<inter> mem ` stored ?t = {}" "distinct (map mem ?l)"
      using Cons.prems(6,7) t1(3) unfolding l by auto
    ultimately obtain t' where "replace_all Rehash cs os ?t = ret t'" "table_core mem hash k t'" "unat (t_count t') = nfull t'"
        "ndel t' = 0" "nfull t' = nfull t1 + length ?l" "stored t' = stored t1 \<union> set ?l"
      using Cons.IH [of ?t] t1 Cons.prems(3,4,5) unfolding l by auto
    then show ?thesis
      using True t1 Rehash_mem [OF key] by (intro exI [of _ t']) (simp add: byte_full)
  next
    case False
    then show ?thesis using Cons by (simp add: byte_full)
  qed
qed simp

lemma live_ords_slots:
  assumes "geometry k t"
  shows "live_ords (t_ctrl t) (t_ords t) = map (\<lambda>i. t_ords t ! i) (filter (full t) [0..<length (t_ctrl t)])"
proof -
  have l: "length (t_ords t) = length (t_ctrl t)" using geometry_lengths [OF assms] by simp
  have z: "zip (t_ctrl t) (t_ords t) = map (\<lambda>i. (t_ctrl t ! i, t_ords t ! i)) [0..<length (t_ctrl t)]"
    using l by (intro nth_equalityI) auto
  have "filter (\<lambda>i. t_ctrl t ! i < 0x80) [0..<length (t_ctrl t)] = filter (full t) [0..<length (t_ctrl t)]"
    by (rule filter_cong) (auto simp: full_def)
  then show ?thesis by (simp add: live_ords_def z filter_map comp_def)
qed

lemma live_ords_core:
  assumes "table_core mem hash k t"
  shows "set (live_ords (t_ctrl t) (t_ords t)) = stored t" "distinct (map mem (live_ords (t_ctrl t) (t_ords t)))"
    "length (live_ords (t_ctrl t) (t_ords t)) = nfull t"
proof -
  note s = live_ords_slots [OF core_geometry [OF assms]]
  show "set (live_ords (t_ctrl t) (t_ords t)) = stored t" unfolding s by (auto simp: stored_def full_def)
  show "distinct (map mem (live_ords (t_ctrl t) (t_ords t)))"
    unfolding s using core_inj [OF assms] by (auto simp: distinct_map intro!: inj_onI)
  have "length (filter (full t) [0..<length (t_ctrl t)]) = length (filter (\<lambda>c. c < 0x80) (map ((!) (t_ctrl t)) [0..<length (t_ctrl t)]))"
    unfolding filter_map length_map by (rule arg_cong [where f = length], rule filter_cong) (auto simp: full_def)
  then show "length (live_ords (t_ctrl t) (t_ords t)) = nfull t" unfolding s nfull_def map_nth by simp
qed

lemma resize_spec:
  assumes "table_inv mem hash t" "Table_Len t + 1 \<le> 7 * 2 ^ 26"
  shows "\<exists>k t'. Table_resize Rehash t = ret t' \<and> table_core mem hash k t' \<and> unat (t_count t') = nfull t'
    \<and> ndel t' = 0 \<and> nfull t' = nfull t \<and> nfull t' + 1 \<le> 7 * 2 ^ k \<and> stored t' = stored t"
proof -
  obtain k where k: "table_core mem hash k t" "unat (t_count t) = nfull t"
    using assms(1) by (auto simp: table_inv_def)
  note geo = core_geometry [OF k(1)]
  have k26: "k \<le> 26" and cap: "t_cap t = 2 ^ (k + 3)" using geo by (simp_all add: geometry_def)
  have "\<not> t_cap t < 8" unfolding cap word_less_nat_alt using k26 unat_pow [of "k + 3"] by (simp add: power_add)
  moreover obtain k' where k': "newCap_loop (t_count t) (2 ^ (k + 3)) = ret (2 ^ (k' + 3))" "k' \<le> 26" "nfull t + 1 \<le> 7 * 2 ^ k'"
    using newCap_loop_returns [of "t_count t" k] assms(2) k26 k(2) by (auto simp: Table_Len_def)
  ultimately have r: "Table_resize Rehash t = replace_all Rehash (t_ctrl t) (t_ords t) (Table_init (2 ^ (k' + 3)))"
    unfolding Table_resize_def cap by simp
  note i = init_core(1) [OF k'(2), of mem hash] init_core(2-5) [OF k'(2)]
  note l = live_ords_core [OF k(1)]
  have "\<forall>ord \<in> stored t. mem ord \<noteq> None" using core_slot [OF k(1)] by (fastforce simp: stored_def)
  then obtain t' where "replace_all Rehash (t_ctrl t) (t_ords t) (Table_init (2 ^ (k' + 3))) = ret t'"
      "table_core mem hash k' t'" "unat (t_count t') = nfull t'" "ndel t' = 0" "nfull t' = nfull t" "stored t' = stored t"
    using replace_all_spec [OF _ i(1), of "t_ctrl t" "t_ords t"] geometry_lengths [OF geo] i l k'(3) by auto
  then show ?thesis using r k'(3) by auto
qed

lemma Insert_spec:
  assumes "table_inv mem hash t" "Table_Len t + 1 \<le> 7 * 2 ^ 26" "mem ord = Some key"
    and "\<And>ord'. ord' \<in> stored t \<Longrightarrow> mem ord' \<noteq> Some key"
  obtains t' where "Table_Insert Rehash t (hash key) ord = ret t'" "table_inv mem hash t'"
    "stored t' = insert ord (stored t)" "Table_Len t' = Table_Len t + 1"
proof -
  obtain k t1 where t1: "(if t_count t + t_dead t + 1 > Table_maxLoad t then Table_resize Rehash t else ret t) = ret t1"
      "table_core mem hash k t1" "unat (t_count t1) = nfull t1" "nfull t1 = nfull t" "nfull t1 + ndel t1 + 1 \<le> 7 * 2 ^ k" "stored t1 = stored t"
  proof (cases "t_count t + t_dead t + 1 > Table_maxLoad t")
    case True
    then show ?thesis using that resize_spec [OF assms(1,2)] by auto
  next
    case False
    obtain k where k: "table_core mem hash k t" "unat (t_count t) = nfull t" "nfull t + ndel t \<le> 7 * 2 ^ k"
      using assms(1) by (auto simp: table_inv_def)
    have k26: "k \<le> 26" and cap: "t_cap t = 2 ^ (k + 3)" using core_geometry [OF k(1)] by (simp_all add: geometry_def)
    have d: "unat (t_dead t) = ndel t" using k(1) by (simp add: table_core_def)
    have e: "t_count t + t_dead t + 1 = of_nat (nfull t + ndel t + 1)" 
      unfolding k(2) [symmetric] d [symmetric] by simp
    have "unat (t_count t + t_dead t + 1) = nfull t + ndel t + 1"
      unfolding e using k(3) pow_bound [OF k26] by (intro unat_small) linarith
    then have "nfull t + ndel t + 1 \<le> 7 * 2 ^ k"
      using False unfolding Table_maxLoad_def cap word_less_nat_alt unat_load [OF k26] by simp
    then show ?thesis using that [of t k] False k by simp
  qed
  have "nfull t1 < 8 * 2 ^ k" using t1(5) by linarith
  moreover have "mem (t_ords t1 ! i) \<noteq> Some key" if "full t1 i" for i
    using assms(4) [of "t_ords t1 ! i"] that t1(6) [symmetric] by (auto simp: stored_def)
  ultimately obtain t2 where t2: "Table_place t1 (hash key) ord = ret t2" "table_core mem hash k t2"
      "stored t2 = insert ord (stored t1)" "nfull t2 = nfull t1 + 1" "ndel t2 \<le> ndel t1" "t_count t2 = t_count t1"
    using place_spec [OF t1(2) _ assms(3)] by blast
  have "k \<le> 26" using core_geometry [OF t1(2)] by (simp add: geometry_def)
  then have n: "unat (t_count t2 + 1) = nfull t2"
    using t2(4,6) t1(3,5) pow_bound [of k] unat_inc [of "t_count t2"] by simp
  have "table_inv mem hash (t2\<lparr>t_count := t_count t2 + 1\<rparr>)"
    unfolding table_inv_def using t2 t1(5) n by (intro exI [of _ k]) simp
  moreover have "Table_Insert Rehash t (hash key) ord = ret (t2\<lparr>t_count := t_count t2 + 1\<rparr>)"
    unfolding Table_Insert_def t1(1) by (simp add: t2(1))
  moreover have "Table_Len t = nfull t" using assms(1) by (auto simp: table_inv_def Table_Len_def)
  ultimately show ?thesis using that t2 t1 n by (simp add: Table_Len_def)
qed

end

section \<open>A new table\<close>

lemma unat_ucast_32: "unat (ucast (w :: u32) :: u64) = unat w"
  using unsigned_less [of w, where 'a = nat] by (simp add: unsigned_ucast_eq take_bit_eq_mod)

lemma capFor_returns:
  assumes "n \<le> 7 * 2 ^ 26"
  shows "\<exists>k. capFor n = ret (2 ^ (k + 3)) \<and> k \<le> 26 \<and> n \<le> 7 * 2 ^ k"
proof -
  have n: "unat (of_nat n :: u64) = n" using assms by (simp add: unat_of_nat)
  have step: "capFor_loop (of_nat n) (2 ^ (k + 3)) = (if 7 * 2 ^ k < n then capFor_loop (of_nat n) (2 ^ (Suc k + 3)) else ret (2 ^ (k + 3)))"
    if "k \<le> 26" for k
  proof -
    have u: "unat (ucast (2 ^ (k + 3) :: u32) * 7 div 8 :: u64) = 7 * 2 ^ k"
    proof -
      have w: "unat (ucast (2 ^ (k + 3) :: u32) :: u64) = 2 ^ (k + 3)"
        using unat_pow [of "k + 3"] that unat_ucast_32 by simp
      have "unat (ucast (2 ^ (k + 3) :: u32) * 7 :: u64) = 2 ^ (k + 3) * 7"
        unfolding unat_word_ariths w using pow_bound [OF that] by (simp add: power_add)
      then show ?thesis by (simp add: unat_div power_add)
    qed
    have "ucast (2 ^ (k + 3) :: u32) * 7 div 8 < (of_nat n :: u64) \<longleftrightarrow> 7 * 2 ^ k < n"
      unfolding word_less_nat_alt u n ..
    moreover have "push_bit 1 (2 ^ (k + 3)) = (2 ^ (Suc k + 3) :: u32)" by (simp add: push_bit_eq_mult power_add)
    ultimately show ?thesis by (subst capFor_loop.simps) (simp only:)
  qed
  have "\<exists>k'. capFor_loop (of_nat n) (2 ^ (k + 3)) = ret (2 ^ (k' + 3)) \<and> k' \<le> 26 \<and> n \<le> 7 * 2 ^ k'" if "k \<le> 26" for k
    using that
  proof (induction "26 - k" arbitrary: k)
    case 0
    then have "k = 26" by simp
    then show ?case using step [of 26] assms by (intro exI [of _ 26]) simp
  next
    case (Suc d)
    show ?case
    proof (cases "7 * 2 ^ k < n")
      case True
      then have e: "capFor_loop (of_nat n) (2 ^ (k + 3)) = capFor_loop (of_nat n) (2 ^ (Suc k + 3))"
        using step [OF Suc.prems] by simp
      have "d = 26 - Suc k" "Suc k \<le> 26" using Suc.hyps(2) by auto
      from Suc.hyps(1) [OF this] show ?thesis unfolding e .
    next
      case False
      then show ?thesis using step [OF Suc.prems] Suc.prems by (intro exI [of _ k]) simp
    qed
  qed
  from this [of 0] show ?thesis by (simp add: capFor_def)
qed

lemma MakeTable_inv:
  assumes "n \<le> 7 * 2 ^ 26"
  obtains t where "MakeTable n = ret t" "table_inv mem hash t" "stored t = {}" "Table_Len t = 0"
proof -
  obtain k where k: "capFor n = ret (2 ^ (k + 3))" "k \<le> 26" using capFor_returns [OF assms] by blast
  note i = init_core(1) [OF k(2), of mem hash] init_core(2-5) [OF k(2)]
  have "table_inv mem hash (Table_init (2 ^ (k + 3)))" unfolding table_inv_def using i by (intro exI [of _ k]) simp
  then show ?thesis using that k(1) i by (simp add: MakeTable_def Table_Len_def)
qed

end
