(* ===== verification/SetTable.thy ===== *)
theory SetTable
  imports TableOps
begin

unbundle bit_operations_syntax

text \<open>
  The native member band of a set (engine/f3/set/member.go): the member table over a slab of
  member bytes, one record per member, and a dense draw vector of record ordinals; and the hash
  of engine/f3/store/hash.go that keys the table.  The cold tier is off (h.cold is nil, so
  following a cold record is a nil dereference) and the algebra arrays are off (algebraMaintain
  is false), which are the defaults.
\<close>

section \<open>The hash\<close>

definition mulFold :: "u64 \<Rightarrow> u64 \<Rightarrow> u64" where
  "mulFold a b = (let p = (ucast a * ucast b :: 128 word); hi = ucast (drop_bit 64 p); lo = ucast p in hi XOR lo)"

fun hash_words :: "u64 \<Rightarrow> bytes \<Rightarrow> u64 \<times> bytes" where
  "hash_words h b = (if length b \<ge> 8 then hash_words (mulFold (h XOR Uint64 b 0) 0xe7037ed1a0b428db) (drop 8 b) else (h, b))"

declare hash_words.simps [simp del]

fun hash_tail :: "bytes \<Rightarrow> nat \<Rightarrow> u64 \<Rightarrow> u64" where
  "hash_tail [] i t = t"
| "hash_tail (c # b) i t = hash_tail b (Suc i) (t OR push_bit (8 * i) (ucast c))"

definition Hash :: "bytes \<Rightarrow> u64" where
  "Hash b =
    (let (h, b) = hash_words (0xa0761d6478bd642f XOR of_nat (length b)) b;
         h = (if length b > 0 then mulFold (h XOR hash_tail b 0 0) 0xe7037ed1a0b428db else h)
     in mulFold h 0x8ebc6af09c88c6e3)"

section \<open>Records\<close>

record mrec =
  mr_loc :: u32
  mr_vslot :: u32
  mr_mlen :: u16
  mr_band :: byte

abbreviation (input) tierCold :: byte where "tierCold \<equiv> 1"

record htable =
  ht_tbl :: Table
  ht_recs :: "mrec list"
  ht_slab :: bytes
  ht_vec :: "u32 list"
  ht_free :: "u32 list"
  ht_dead :: int
  ht_streams :: int

definition rec_at :: "htable \<Rightarrow> u32 \<Rightarrow> err + mrec" where
  "rec_at h ord = (if unat ord < length (ht_recs h) then Inr (ht_recs h ! unat ord) else Inl Panic)"

text \<open>slab[r.loc : r.loc+uint32(r.mlen)], with the sum in 32 bits.\<close>

definition slab_member :: "htable \<Rightarrow> mrec \<Rightarrow> err + bytes" where
  "slab_member h r = slice (ht_slab h) (unat (mr_loc r)) (unat (mr_loc r + ucast (mr_mlen r)))"

definition bytesOf :: "htable \<Rightarrow> mrec \<Rightarrow> err + bytes" where
  "bytesOf h r = (if mr_band r AND tierCold \<noteq> 0 then Inl Panic else slab_member h r)"

definition Match :: "htable \<Rightarrow> u32 \<Rightarrow> bytes \<Rightarrow> err + bool" where
  "Match h ord key = bindE (rec_at h ord) (\<lambda>r. bindE (bytesOf h r) (\<lambda>m. Inr (m = key)))"

definition Rehash :: "htable \<Rightarrow> u32 \<Rightarrow> err + u64" where
  "Rehash h ord = bindE (rec_at h ord) (\<lambda>r. bindE (bytesOf h r) (\<lambda>m. Inr (Hash m)))"

definition memberByOrd :: "htable \<Rightarrow> u32 \<Rightarrow> err + bytes" where
  "memberByOrd h ord = bindE (rec_at h ord) (bytesOf h)"

definition mlenByOrd :: "htable \<Rightarrow> u32 \<Rightarrow> err + nat" where
  "mlenByOrd h ord = bindE (rec_at h ord) (\<lambda>r. Inr (unat (mr_mlen r)))"

definition vlen :: "htable \<Rightarrow> nat" where
  "vlen h = length (ht_vec h)"

definition ordAt :: "htable \<Rightarrow> nat \<Rightarrow> err + u32" where
  "ordAt h i = (if i < length (ht_vec h) then Inr (ht_vec h ! i) else Inl Panic)"

definition ht_at :: "htable \<Rightarrow> nat \<Rightarrow> err + bytes" where
  "ht_at h i = bindE (ordAt h i) (memberByOrd h)"

section \<open>Operations\<close>

definition newHashtable :: "nat \<Rightarrow> htable outcome" where
  "newHashtable hint =
    bindO (MakeTable hint) (\<lambda>t. ret \<lparr>ht_tbl = t, ht_recs = [], ht_slab = [], ht_vec = [], ht_free = [], ht_dead = 0, ht_streams = 0\<rparr>)"

definition ht_card :: "htable \<Rightarrow> nat" where
  "ht_card h = Table_Len (ht_tbl h)"

definition ht_has :: "htable \<Rightarrow> bytes \<Rightarrow> bool outcome" where
  "ht_has h m = bindO (Table_Find (Match h) (ht_tbl h) (Hash m) m) (\<lambda>r. ret (r \<noteq> None))"

definition newRecord :: "htable \<Rightarrow> bytes \<Rightarrow> (htable \<times> u32) outcome" where
  "newRecord h m =
    (let r = \<lparr>mr_loc = of_nat (length (ht_slab h)), mr_vslot = of_nat (length (ht_vec h)),
              mr_mlen = of_nat (length m), mr_band = 0\<rparr>;
         h = h\<lparr>ht_slab := ht_slab h @ m\<rparr> in
     if ht_free h \<noteq> [] \<and> ht_streams h = 0 then
       (let ord = last (ht_free h) in
        if unat ord < length (ht_recs h) then
          ret (h\<lparr>ht_free := butlast (ht_free h), ht_recs := (ht_recs h)[unat ord := r], ht_vec := ht_vec h @ [ord]\<rparr>, ord)
        else panic)
     else
       (let ord = of_nat (length (ht_recs h)) in
        ret (h\<lparr>ht_recs := ht_recs h @ [r], ht_vec := ht_vec h @ [ord]\<rparr>, ord)))"

text \<open>A found member whose record is cold would be promoted through the nil h.cold.\<close>

definition insert_new :: "htable \<Rightarrow> bytes \<Rightarrow> (htable \<times> bool) outcome" where
  "insert_new h m =
    bindO (newRecord h m) (\<lambda>(h, ord).
      bindO (Table_Insert (Rehash h) (ht_tbl h) (Hash m) ord) (\<lambda>t. ret (h\<lparr>ht_tbl := t\<rparr>, True)))"

definition ht_add :: "htable \<Rightarrow> bytes \<Rightarrow> (htable \<times> bool) outcome" where
  "ht_add h m =
    bindO (Table_Find (Match h) (ht_tbl h) (Hash m) m) (\<lambda>r. case r of
      Some ord \<Rightarrow> (case rec_at h ord of Inl e \<Rightarrow> Some (Inl e)
                 | Inr r \<Rightarrow> if mr_band r AND tierCold \<noteq> 0 then panic else ret (h, False))
    | None \<Rightarrow> insert_new h m)"

definition addRaw :: "htable \<Rightarrow> bytes \<Rightarrow> (htable \<times> bool) outcome" where
  "addRaw h m =
    bindO (Table_Find (Match h) (ht_tbl h) (Hash m) m) (\<lambda>r. case r of
      Some ord \<Rightarrow> ret (h, False) | None \<Rightarrow> insert_new h m)"

text \<open>maybeCompact copies the live members into a fresh slab, in draw-vector order.\<close>

fun pack :: "bytes \<Rightarrow> u32 list \<Rightarrow> mrec list \<Rightarrow> bytes \<Rightarrow> (mrec list \<times> bytes) outcome" where
  "pack slab [] recs packed = ret (recs, packed)"
| "pack slab (ord # vec) recs packed =
    (if unat ord < length recs then
       (let r = recs ! unat ord in
        if mr_band r AND tierCold \<noteq> 0 then pack slab vec recs packed
        else case slice slab (unat (mr_loc r)) (unat (mr_loc r + ucast (mr_mlen r))) of
          Inl e \<Rightarrow> Some (Inl e)
        | Inr m \<Rightarrow> pack slab vec (recs[unat ord := r\<lparr>mr_loc := of_nat (length packed)\<rparr>]) (packed @ m))
     else panic)"

definition maybeCompact :: "htable \<Rightarrow> htable outcome" where
  "maybeCompact h =
    (if ht_streams h > 0 then ret h
     else if ht_dead h \<le> int (length (ht_slab h)) div 2 \<or> ht_dead h < 4096 then ret h
     else if int (length (ht_slab h)) - ht_dead h < 0 then panic
     else bindO (pack (ht_slab h) (ht_vec h) (ht_recs h) [])
       (\<lambda>(recs, packed). ret (h\<lparr>ht_recs := recs, ht_slab := packed, ht_dead := 0\<rparr>)))"

text \<open>The swap-remove of the draw vector.\<close>

definition vec_remove :: "htable \<Rightarrow> u32 \<Rightarrow> htable outcome" where
  "vec_remove h v =
    (if ht_vec h = [] then panic
     else let moved = last (ht_vec h) in
       if unat v < length (ht_vec h) \<and> unat moved < length (ht_recs h) then
         ret (h\<lparr>ht_vec := butlast ((ht_vec h)[unat v := moved]),
                ht_recs := (ht_recs h)[unat moved := (ht_recs h ! unat moved)\<lparr>mr_vslot := v\<rparr>]\<rparr>)
       else panic)"

definition ht_rem :: "htable \<Rightarrow> bytes \<Rightarrow> (htable \<times> bool) outcome" where
  "ht_rem h m =
    bindO (Table_Delete (Match h) (ht_tbl h) (Hash m) m) (\<lambda>(t, r).
      let h = h\<lparr>ht_tbl := t\<rparr> in
      case r of None \<Rightarrow> ret (h, False)
      | Some ord \<Rightarrow>
          (case rec_at h ord of Inl e \<Rightarrow> Some (Inl e) | Inr r \<Rightarrow>
             bindO (vec_remove h (mr_vslot r)) (\<lambda>h.
               if mr_band r AND tierCold \<noteq> 0 then panic
               else bindO (maybeCompact (h\<lparr>ht_dead := ht_dead h + int (unat (mr_mlen r)), ht_free := ht_free h @ [ord]\<rparr>))
                 (\<lambda>h. ret (h, True)))))"

text \<open>each and eachUntil walk the draw vector; here the members they visit, in order.\<close>

fun members_of :: "htable \<Rightarrow> u32 list \<Rightarrow> err + bytes list" where
  "members_of h [] = Inr []"
| "members_of h (ord # vec) = bindE (memberByOrd h ord) (\<lambda>m. bindE (members_of h vec) (\<lambda>ms. Inr (m # ms)))"

definition ht_each :: "htable \<Rightarrow> err + bytes list" where
  "ht_each h = members_of h (ht_vec h)"

fun until :: "htable \<Rightarrow> (bytes \<Rightarrow> bool) \<Rightarrow> u32 list \<Rightarrow> err + bytes list" where
  "until h go [] = Inr []"
| "until h go (ord # vec) =
    bindE (memberByOrd h ord) (\<lambda>m. if go m then bindE (until h go vec) (\<lambda>ms. Inr (m # ms)) else Inr [m])"

definition ht_eachUntil :: "htable \<Rightarrow> (bytes \<Rightarrow> bool) \<Rightarrow> err + bytes list" where
  "ht_eachUntil h go = until h go (ht_vec h)"

definition pinStream :: "htable \<Rightarrow> htable" where
  "pinStream h = h\<lparr>ht_streams := ht_streams h + 1\<rparr>"

definition unpinStream :: "htable \<Rightarrow> htable" where
  "unpinStream h = h\<lparr>ht_streams := ht_streams h - 1\<rparr>"

end
