(* ===== verification/SetInv.thy ===== *)
theory SetInv
  imports SetTable
begin

unbundle bit_operations_syntax

text \<open>
  The invariant of the native member band, the list of members it holds, and what its operations
  do to that list: an insertion appends, a removal swaps the last member into the freed place, a
  compaction of the slab changes nothing.
\<close>

section \<open>Abstraction\<close>

definition rec_bytes :: "htable \<Rightarrow> u32 \<Rightarrow> bytes" where
  "rec_bytes h ord = (let r = ht_recs h ! unat ord in sub (ht_slab h) (unat (mr_loc r)) (unat (mr_mlen r)))"

definition contents :: "htable \<Rightarrow> bytes list" where
  "contents h = map (rec_bytes h) (ht_vec h)"

definition member_of :: "htable \<Rightarrow> u32 \<Rightarrow> bytes option" where
  "member_of h ord =
    (if ord \<in> set (ht_vec h) then (case memberByOrd h ord of Inl e \<Rightarrow> None | Inr m \<Rightarrow> Some m) else None)"

interpretation ht: member_store "Match h" "Rehash h" "member_of h" Hash for h
  by unfold_locales
    (auto simp: member_of_def memberByOrd_def Match_def Rehash_def bindE_def split: if_splits sum.splits)

section \<open>Invariant\<close>

definition live_bytes :: "htable \<Rightarrow> int" where
  "live_bytes h = (\<Sum>ord \<leftarrow> ht_vec h. int (unat (mr_mlen (ht_recs h ! unat ord))))"

definition ht_wf :: "htable \<Rightarrow> bool" where
  "ht_wf h \<longleftrightarrow> distinct (ht_vec h @ ht_free h)
     \<and> (\<forall>ord \<in> set (ht_vec h) \<union> set (ht_free h). unat ord < length (ht_recs h))
     \<and> (\<forall>i < length (ht_vec h). unat (mr_vslot (ht_recs h ! unat (ht_vec h ! i))) = i)
     \<and> (\<forall>r \<in> set (ht_recs h). mr_band r = 0)
     \<and> (\<forall>ord \<in> set (ht_vec h). unat (mr_loc (ht_recs h ! unat ord)) + unat (mr_mlen (ht_recs h ! unat ord)) \<le> length (ht_slab h))
     \<and> length (ht_slab h) < 2 ^ 32 \<and> length (ht_recs h) \<le> 2 ^ 32
     \<and> ht_dead h = int (length (ht_slab h)) - live_bytes h \<and> 0 \<le> ht_dead h \<and> 0 \<le> ht_streams h"

definition ht_inv :: "htable \<Rightarrow> bool" where
  "ht_inv h \<longleftrightarrow> ht_wf h \<and> table_inv (member_of h) Hash (ht_tbl h) \<and> stored (ht_tbl h) = set (ht_vec h)"

lemma unat_ucast_16: "unat (ucast (w :: u16) :: u32) = unat w"
  using unsigned_less [of w, where 'a = nat] by (simp add: unsigned_ucast_eq take_bit_eq_mod)

lemma slab_end:
  assumes "unat (l :: u32) + unat (n :: u16) < 2 ^ 32" shows "unat (l + ucast n) = unat l + unat n"
  unfolding unat_word_ariths unat_ucast_16 using assms by simp

lemma wf_rec:
  assumes "ht_wf h" "ord \<in> set (ht_vec h)"
  shows "rec_at h ord = Inr (ht_recs h ! unat ord)" "mr_band (ht_recs h ! unat ord) = 0"
    "slice (ht_slab h) (unat (mr_loc (ht_recs h ! unat ord)))
       (unat (mr_loc (ht_recs h ! unat ord) + ucast (mr_mlen (ht_recs h ! unat ord)))) = Inr (rec_bytes h ord)"
    "memberByOrd h ord = Inr (rec_bytes h ord)" "member_of h ord = Some (rec_bytes h ord)"
proof -
  have l: "unat ord < length (ht_recs h)" using assms by (simp add: ht_wf_def)
  then show r: "rec_at h ord = Inr (ht_recs h ! unat ord)" by (simp add: rec_at_def)
  show b: "mr_band (ht_recs h ! unat ord) = 0" using assms(1) l by (simp add: ht_wf_def)
  let ?r = "ht_recs h ! unat ord"
  have e: "unat (mr_loc ?r) + unat (mr_mlen ?r) \<le> length (ht_slab h)" "length (ht_slab h) < 2 ^ 32"
    using assms by (simp_all add: ht_wf_def)
  then have "unat (mr_loc ?r + ucast (mr_mlen ?r)) = unat (mr_loc ?r) + unat (mr_mlen ?r)"
    by (intro slab_end) simp
  then show s: "slice (ht_slab h) (unat (mr_loc ?r)) (unat (mr_loc ?r + ucast (mr_mlen ?r))) = Inr (rec_bytes h ord)"
    using e(1) by (simp add: rec_bytes_def Let_def)
  then show m: "memberByOrd h ord = Inr (rec_bytes h ord)"
    by (simp add: memberByOrd_def r bytesOf_def b slab_member_def)
  then show "member_of h ord = Some (rec_bytes h ord)" using assms(2) by (simp add: member_of_def)
qed

lemma wf_band: "ht_wf h \<Longrightarrow> i < length (ht_recs h) \<Longrightarrow> mr_band (ht_recs h ! i) = 0"
  unfolding ht_wf_def by (metis nth_mem)

lemma length_rec_bytes:
  "ht_wf h \<Longrightarrow> ord \<in> set (ht_vec h) \<Longrightarrow> length (rec_bytes h ord) = unat (mr_mlen (ht_recs h ! unat ord))"
  by (simp add: rec_bytes_def Let_def ht_wf_def)

lemma members_of_wf: "ht_wf h \<Longrightarrow> set ords \<subseteq> set (ht_vec h) \<Longrightarrow> members_of h ords = Inr (map (rec_bytes h) ords)"
  by (induction ords) (auto simp: wf_rec)

lemma wf_lengths:
  assumes "ht_wf h" shows "length (ht_vec h) + length (ht_free h) \<le> length (ht_recs h)"
proof -
  let ?o = "ht_vec h @ ht_free h"
  have "inj_on unat (set ?o)" by (auto intro!: inj_onI simp: word_unat_eq_iff)
  then have "distinct (map unat ?o)" using assms by (simp only: ht_wf_def distinct_map simp_thms)
  moreover have "set (map unat ?o) \<subseteq> {..<length (ht_recs h)}" using assms by (auto simp: ht_wf_def)
  ultimately have "length (map unat ?o) \<le> card {..<length (ht_recs h)}"
    by (metis card_mono distinct_card finite_lessThan)
  then show ?thesis by simp
qed

lemma inv_contents:
  assumes "ht_inv h"
  shows "distinct (contents h)" "ht_card h = length (contents h)"
proof -
  have w: "ht_wf h" and t: "table_inv (member_of h) Hash (ht_tbl h)" and s: "stored (ht_tbl h) = set (ht_vec h)"
    using assms by (simp_all add: ht_inv_def)
  obtain k where k: "table_core (member_of h) Hash k (ht_tbl h)" using t by (auto simp: table_inv_def)
  have "rec_bytes h a = rec_bytes h b \<Longrightarrow> a = b" if ab: "a \<in> set (ht_vec h)" "b \<in> set (ht_vec h)" for a b
  proof -
    assume "rec_bytes h a = rec_bytes h b"
    then have "member_of h a = member_of h b" using ab wf_rec(5) [OF w] by simp
    moreover obtain i j where "full (ht_tbl h) i" "t_ords (ht_tbl h) ! i = a" "full (ht_tbl h) j" "t_ords (ht_tbl h) ! j = b"
      using ab unfolding s [symmetric] stored_iff by blast
    ultimately show "a = b" using core_inj [OF k] by metis
  qed
  then show "distinct (contents h)" using w by (auto simp: contents_def distinct_map ht_wf_def intro!: inj_onI)
  show "ht_card h = length (contents h)"
    using Len_stored [OF t] s w by (simp add: ht_card_def contents_def distinct_card ht_wf_def)
qed

section \<open>Membership and insertion\<close>

lemma stored_members:
  assumes "ht_inv h"
  shows "m \<in> set (contents h) \<longleftrightarrow> (\<exists>ord \<in> stored (ht_tbl h). member_of h ord = Some m)"
  using assms wf_rec(5) [of h] by (auto simp: ht_inv_def contents_def)

lemma Find_member:
  assumes "ht_inv h" "m \<in> set (contents h)"
  obtains ord where "ord \<in> set (ht_vec h)" "Table_Find (Match h) (ht_tbl h) (Hash m) m = ret (Some ord)"
proof -
  obtain ord where "ord \<in> stored (ht_tbl h)" "member_of h ord = Some m" using assms stored_members by blast
  then show ?thesis using that ht.Find_present [of h "ht_tbl h" ord m] assms(1) by (auto simp: ht_inv_def)
qed

lemma Find_no_member:
  assumes "ht_inv h" "m \<notin> set (contents h)"
  shows "Table_Find (Match h) (ht_tbl h) (Hash m) m = ret None"
  using assms stored_members [OF assms(1), of m] by (intro ht.Find_absent) (auto simp: ht_inv_def)

lemma has_spec: "ht_inv h \<Longrightarrow> ht_has h m = ret (m \<in> set (contents h))"
  by (cases "m \<in> set (contents h)") (auto simp: ht_has_def Find_no_member elim: Find_member)

text \<open>The bounds within which one more member fits: its length in 16 bits, offsets and ordinals in 32, the table's capacity.\<close>

definition ht_room :: "htable \<Rightarrow> bytes \<Rightarrow> bool" where
  "ht_room h m \<longleftrightarrow> length m < 65536 \<and> length (ht_slab h) + length m < 2 ^ 32 \<and> length (ht_recs h) < 2 ^ 32
     \<and> length (ht_vec h) + 1 \<le> 7 * 2 ^ 26"

lemma sum_mlen_update:
  assumes "\<And>ord. ord \<in> set vec \<Longrightarrow> mr_mlen (recs' ! unat ord) = mr_mlen (recs ! unat ord)"
  shows "(\<Sum>ord \<leftarrow> vec. int (unat (mr_mlen (recs' ! unat ord)))) = (\<Sum>ord \<leftarrow> vec. int (unat (mr_mlen (recs ! unat ord))))"
  using assms by (intro arg_cong [where f = sum_list] map_cong) auto

text \<open>The state after newRecord, whichever way it found its ordinal.\<close>

lemma append_record:
  assumes w: "ht_wf h" and room: "ht_room h m"
    and r: "r = \<lparr>mr_loc = of_nat (length (ht_slab h)), mr_vslot = of_nat (length (ht_vec h)), mr_mlen = of_nat (length m), mr_band = 0\<rparr>"
    and h': "ht_slab h' = ht_slab h @ m" "ht_vec h' = ht_vec h @ [ord]" "ht_dead h' = ht_dead h" "ht_streams h' = ht_streams h"
    and fr: "distinct (ht_free h')" "set (ht_free h') \<subseteq> set (ht_free h)" "ord \<notin> set (ht_vec h)" "ord \<notin> set (ht_free h')"
    and rs: "unat ord < length (ht_recs h')" "ht_recs h' ! unat ord = r" "set (ht_recs h') \<subseteq> insert r (set (ht_recs h))"
      "length (ht_recs h) \<le> length (ht_recs h')" "length (ht_recs h') \<le> 2 ^ 32"
      "\<And>o'. o' \<noteq> ord \<Longrightarrow> unat o' < length (ht_recs h) \<Longrightarrow> ht_recs h' ! unat o' = ht_recs h ! unat o'"
    and v: "length (ht_vec h) < 2 ^ 32"
  shows "ht_wf h' \<and> contents h' = contents h @ [m] \<and> (\<forall>o' \<in> set (ht_vec h). rec_bytes h' o' = rec_bytes h o')"
proof -
  have b: "length m < 65536" "length (ht_slab h) + length m < 2 ^ 32" using room by (simp_all add: ht_room_def)
  have u: "unat (mr_loc r) = length (ht_slab h)" "unat (mr_mlen r) = length m" "unat (mr_vslot r) = length (ht_vec h)"
    using b v by (simp_all add: r unat_of_nat)
  have old: "ht_recs h' ! unat o' = ht_recs h ! unat o'" if "o' \<in> set (ht_vec h)" for o'
    using that w fr(3) by (intro rs(6)) (auto simp: ht_wf_def)
  have e: "rec_bytes h' o' = rec_bytes h o'" if "o' \<in> set (ht_vec h)" for o'
    using that w by (simp add: rec_bytes_def Let_def old h'(1) sub_append_left ht_wf_def)
  have "rec_bytes h' ord = m"
    using rs(2) u by (simp add: rec_bytes_def Let_def h'(1) sub_append_right sub_all)
  then have c: "contents h' = contents h @ [m]" using e by (simp add: contents_def h'(2))
  have "live_bytes h' = live_bytes h + int (unat (mr_mlen r))"
    using sum_mlen_update [of "ht_vec h" "ht_recs h'" "ht_recs h"] old rs(2) by (simp add: live_bytes_def h'(2))
  then have "live_bytes h' = live_bytes h + int (length m)" by (simp only: u(2))
  moreover have "unat (mr_vslot (ht_recs h' ! unat (ht_vec h' ! i))) = i" if "i < length (ht_vec h')" for i
    using that w old [of "ht_vec h ! i"] rs(2) u by (auto simp: h'(2) nth_append ht_wf_def less_Suc_eq)
  moreover have "unat (mr_loc (ht_recs h' ! unat o')) + unat (mr_mlen (ht_recs h' ! unat o')) \<le> length (ht_slab h')"
    if "o' \<in> set (ht_vec h')" for o'
    using that w old [of o'] rs(2) u by (auto simp: h' ht_wf_def)
  moreover have "\<forall>o' \<in> set (ht_vec h') \<union> set (ht_free h'). unat o' < length (ht_recs h')"
  proof -
    have "\<forall>o' \<in> set (ht_vec h) \<union> set (ht_free h). unat o' < length (ht_recs h)" using w by (simp add: ht_wf_def)
    then show ?thesis using fr(2) rs(1,4) by (auto simp: h'(2) subset_iff intro: less_le_trans)
  qed
  moreover have "\<forall>x \<in> set (ht_recs h'). mr_band x = 0" using w rs(3) by (auto simp: ht_wf_def r)
  moreover have "distinct (ht_vec h' @ ht_free h')" using w fr by (auto simp: h'(2) ht_wf_def)
  ultimately have "ht_wf h'" using w b rs(5) unfolding ht_wf_def h'(1,3,4) by simp
  then show ?thesis using c e by blast
qed

lemma newRecord_spec:
  assumes "ht_wf h" "ht_room h m"
  obtains h' ord where "newRecord h m = ret (h', ord)" "ht_wf h'" "ht_vec h' = ht_vec h @ [ord]" "ord \<notin> set (ht_vec h)"
    "contents h' = contents h @ [m]" "\<forall>o' \<in> set (ht_vec h). rec_bytes h' o' = rec_bytes h o'"
    "ht_tbl h' = ht_tbl h" "ht_streams h' = ht_streams h"
proof -
  define r where "r = \<lparr>mr_loc = of_nat (length (ht_slab h)), mr_vslot = of_nat (length (ht_vec h)),
    mr_mlen = of_nat (length m), mr_band = 0\<rparr>"
  have lr: "length (ht_recs h) < 2 ^ 32" "length (ht_vec h) < 2 ^ 32"
    using assms(2) wf_lengths [OF assms(1)] by (simp_all add: ht_room_def)
  show ?thesis
  proof (cases "ht_free h \<noteq> [] \<and> ht_streams h = 0")
    case True
    define ord where "ord = last (ht_free h)"
    have f: "ht_free h = butlast (ht_free h) @ [ord]" using True by (simp add: ord_def)
    then have o1: "ord \<in> set (ht_free h)" by (metis in_set_conv_decomp)
    then have o2: "unat ord < length (ht_recs h)" "ord \<notin> set (ht_vec h)" using assms(1) by (auto simp: ht_wf_def)
    have d: "distinct (butlast (ht_free h) @ [ord])" using assms(1) f by (simp add: ht_wf_def)
    define h' where "h' = h\<lparr>ht_slab := ht_slab h @ m, ht_free := butlast (ht_free h),
      ht_recs := (ht_recs h)[unat ord := r], ht_vec := ht_vec h @ [ord]\<rparr>"
    have n: "newRecord h m = ret (h', ord)"
      using True o2(1) by (simp add: newRecord_def Let_def h'_def ord_def r_def)
    have "ht_wf h' \<and> contents h' = contents h @ [m] \<and> (\<forall>o' \<in> set (ht_vec h). rec_bytes h' o' = rec_bytes h o')"
    proof (rule append_record [OF assms r_def])
      show "ht_slab h' = ht_slab h @ m" "ht_vec h' = ht_vec h @ [ord]" "ht_dead h' = ht_dead h" "ht_streams h' = ht_streams h"
        by (simp_all add: h'_def)
      show "distinct (ht_free h')" "ord \<notin> set (ht_free h')" using d by (simp_all add: h'_def)
      show "set (ht_free h') \<subseteq> set (ht_free h)" by (auto simp: h'_def dest: in_set_butlastD)
      show "unat ord < length (ht_recs h')" "ht_recs h' ! unat ord = r" "length (ht_recs h) \<le> length (ht_recs h')"
        "length (ht_recs h') \<le> 2 ^ 32" using o2(1) lr(1) by (simp_all add: h'_def)
      show "set (ht_recs h') \<subseteq> insert r (set (ht_recs h))" by (simp add: h'_def set_update_subset_insert)
      show "ht_recs h' ! unat o' = ht_recs h ! unat o'" if "o' \<noteq> ord" for o'
        using that by (simp add: h'_def word_unat_eq_iff)
    qed (use o2(2) lr(2) in auto)
    then show ?thesis using n o2(2) by (intro that [of h' ord]) (auto simp: h'_def)
  next
    case False
    define ord :: u32 where "ord = of_nat (length (ht_recs h))"
    have u: "unat ord = length (ht_recs h)" using lr(1) by (simp add: ord_def unat_small)
    have o2: "ord \<notin> set (ht_vec h)" "ord \<notin> set (ht_free h)"
      using assms(1) u unfolding ht_wf_def by (metis UnCI less_irrefl)+
    define h' where "h' = h\<lparr>ht_slab := ht_slab h @ m, ht_recs := ht_recs h @ [r], ht_vec := ht_vec h @ [ord]\<rparr>"
    have n: "newRecord h m = ret (h', ord)"
      using False by (auto simp: newRecord_def Let_def h'_def ord_def r_def)
    have "ht_wf h' \<and> contents h' = contents h @ [m] \<and> (\<forall>o' \<in> set (ht_vec h). rec_bytes h' o' = rec_bytes h o')"
    proof (rule append_record [OF assms r_def])
      show "distinct (ht_free h')" using assms(1) by (simp add: h'_def ht_wf_def)
      show "ht_recs h' ! unat o' = ht_recs h ! unat o'" if "unat o' < length (ht_recs h)" for o'
        using that by (simp add: h'_def nth_append)
    qed (use o2 lr u in \<open>auto simp: h'_def\<close>)
    then show ?thesis using n o2(1) by (intro that [of h' ord]) (auto simp: h'_def)
  qed
qed

lemma member_of_eq:
  assumes "ht_wf h" "ht_wf h'" "ord \<in> set (ht_vec h)" "ord \<in> set (ht_vec h')" "rec_bytes h' ord = rec_bytes h ord"
  shows "member_of h' ord = member_of h ord"
  using wf_rec(5) [OF assms(1,3)] wf_rec(5) [OF assms(2,4)] assms(5) by simp

lemma insert_new_spec:
  assumes "ht_inv h" "ht_room h m" "m \<notin> set (contents h)"
  obtains h' where "insert_new h m = ret (h', True)" "ht_inv h'" "contents h' = contents h @ [m]"
    "\<forall>o' \<in> set (ht_vec h). rec_bytes h' o' = rec_bytes h o'" "ht_streams h' = ht_streams h"
    "set (ht_vec h) \<subseteq> set (ht_vec h')"
proof -
  have w: "ht_wf h" and t: "table_inv (member_of h) Hash (ht_tbl h)" and s: "stored (ht_tbl h) = set (ht_vec h)"
    using assms(1) by (simp_all add: ht_inv_def)
  obtain h1 ord where h1: "newRecord h m = ret (h1, ord)" "ht_wf h1" "ht_vec h1 = ht_vec h @ [ord]" "ord \<notin> set (ht_vec h)"
    "contents h1 = contents h @ [m]" "\<forall>o' \<in> set (ht_vec h). rec_bytes h1 o' = rec_bytes h o'"
    "ht_tbl h1 = ht_tbl h" "ht_streams h1 = ht_streams h"
    by (rule newRecord_spec [OF w assms(2)])
  have eq: "member_of h1 o' = member_of h o'" if "o' \<in> stored (ht_tbl h)" for o'
    using that s h1(3) by (intro member_of_eq [OF w h1(2)]) (auto simp: h1(6))
  have t1: "table_inv (member_of h1) Hash (ht_tbl h)" by (rule table_inv_cong [OF _ t]) (simp add: eq)
  have "rec_bytes h1 ord = m" using h1(5) by (simp add: contents_def h1(3))
  then have m: "member_of h1 ord = Some m" using wf_rec(5) [OF h1(2)] h1(3) by simp
  have "Table_Len (ht_tbl h) + 1 \<le> 7 * 2 ^ 26"
    using inv_contents(2) [OF assms(1)] assms(2) by (simp add: ht_card_def contents_def ht_room_def)
  moreover have "member_of h1 o' \<noteq> Some m" if "o' \<in> stored (ht_tbl h)" for o'
    using that eq assms(3) stored_members [OF assms(1)] by auto
  ultimately obtain t' where t': "Table_Insert (Rehash h1) (ht_tbl h) (Hash m) ord = ret t'" "table_inv (member_of h1) Hash t'"
      "stored t' = insert ord (stored (ht_tbl h))"
    using ht.Insert_spec [OF t1 _ m] by blast
  let ?h = "h1\<lparr>ht_tbl := t'\<rparr>"
  have "member_of ?h = member_of h1" "ht_wf ?h = ht_wf h1" "contents ?h = contents h1" "rec_bytes ?h = rec_bytes h1"
    by (auto simp: fun_eq_iff member_of_def memberByOrd_def rec_at_def bytesOf_def slab_member_def ht_wf_def live_bytes_def
        contents_def rec_bytes_def Let_def)
  then have "ht_inv ?h" "contents ?h = contents h @ [m]" "\<forall>o' \<in> set (ht_vec h). rec_bytes ?h o' = rec_bytes h o'"
    using t' h1 s by (simp_all add: ht_inv_def)
  moreover have "insert_new h m = ret (?h, True)" by (simp add: insert_new_def h1(1,7) t'(1))
  ultimately show ?thesis using that [of ?h] h1(3,8) by auto
qed

end
