(* ===== verification/SetOps.thy ===== *)
theory SetOps
  imports SetInv
begin

unbundle bit_operations_syntax

text \<open>
  Insertion, removal and compaction of the native member band, against the list of its members.
\<close>

section \<open>Insertion\<close>

lemma add_present: "ht_inv h \<Longrightarrow> m \<in> set (contents h) \<Longrightarrow> ht_add h m = ret (h, False)"
  by (rule Find_member) (auto simp: ht_add_def ht_inv_def wf_rec)

lemma add_absent:
  assumes "ht_inv h" "ht_room h m" "m \<notin> set (contents h)"
  obtains h' where "ht_add h m = ret (h', True)" "ht_inv h'" "contents h' = contents h @ [m]"
    "\<forall>o' \<in> set (ht_vec h). rec_bytes h' o' = rec_bytes h o'" "ht_streams h' = ht_streams h" "set (ht_vec h) \<subseteq> set (ht_vec h')"
  by (rule insert_new_spec [OF assms]) (simp add: ht_add_def Find_no_member [OF assms(1,3)])

lemma newRecord_size:
  "newRecord h m = ret (h', ord) \<Longrightarrow> length (ht_slab h') = length (ht_slab h) + length m \<and> length (ht_recs h') \<le> length (ht_recs h) + 1"
  by (auto simp: newRecord_def Let_def split: if_splits)

lemma add_size:
  assumes "ht_add h m = ret (h', b)"
  shows "length (ht_slab h') \<le> length (ht_slab h) + length m" "length (ht_recs h') \<le> length (ht_recs h) + 1"
  using assms by (auto simp: ht_add_def insert_new_def bindO_def dest!: newRecord_size
      split: option.splits sum.splits if_splits prod.splits)

lemma addRaw_eq_add: "ht_inv h \<Longrightarrow> addRaw h m = ht_add h m"
proof -
  assume inv: "ht_inv h"
  show ?thesis
  proof (cases "m \<in> set (contents h)")
    case True
    then obtain ord where "Table_Find (Match h) (ht_tbl h) (Hash m) m = ret (Some ord)"
      by (rule Find_member [OF inv])
    then show ?thesis using add_present [OF inv True] by (simp add: addRaw_def)
  qed (simp add: addRaw_def ht_add_def Find_no_member [OF inv])
qed

section \<open>Compaction\<close>

lemma int_length_concat: "int (length (concat (map f xs))) = (\<Sum>x \<leftarrow> xs. int (length (f x)))"
  by (induction xs) auto

lemma pack_spec:
  assumes "distinct vec"
    and "\<And>ord. ord \<in> set vec \<Longrightarrow> unat ord < length recs \<and> mr_band (recs ! unat ord) = 0
      \<and> slice slab (unat (mr_loc (recs ! unat ord))) (unat (mr_loc (recs ! unat ord) + ucast (mr_mlen (recs ! unat ord)))) = Inr (mb ord)
      \<and> length (mb ord) = unat (mr_mlen (recs ! unat ord))"
    and "length packed + length (concat (map mb vec)) < 2 ^ 32"
  shows "\<exists>recs'. pack slab vec recs packed = ret (recs', packed @ concat (map mb vec)) \<and> length recs' = length recs
    \<and> (\<forall>i < length recs. mr_mlen (recs' ! i) = mr_mlen (recs ! i) \<and> mr_vslot (recs' ! i) = mr_vslot (recs ! i)
         \<and> mr_band (recs' ! i) = mr_band (recs ! i) \<and> (i \<notin> unat ` set vec \<longrightarrow> recs' ! i = recs ! i))
    \<and> (\<forall>ord \<in> set vec. unat (mr_loc (recs' ! unat ord)) + length (mb ord) \<le> length (packed @ concat (map mb vec))
         \<and> sub (packed @ concat (map mb vec)) (unat (mr_loc (recs' ! unat ord))) (length (mb ord)) = mb ord)"
  using assms
proof (induction vec arbitrary: recs packed)
  case (Cons ord vec)
  let ?r = "recs ! unat ord" and ?m = "mb ord"
  let ?recs = "recs[unat ord := ?r\<lparr>mr_loc := of_nat (length packed)\<rparr>]"
  have o: "unat ord < length recs" "mr_band ?r = 0"
      "slice slab (unat (mr_loc ?r)) (unat (mr_loc ?r + ucast (mr_mlen ?r))) = Inr ?m" "length ?m = unat (mr_mlen ?r)"
    using Cons.prems(2) [of ord] by auto
  have step: "pack slab (ord # vec) recs packed = pack slab vec ?recs (packed @ ?m)"
    using o by (simp add: Let_def)
  have keep: "?recs ! unat o' = recs ! unat o'" if "o' \<in> set vec" for o'
  proof -
    have "o' \<noteq> ord" using that Cons.prems(1) by auto
    then show ?thesis by (simp add: word_unat_eq_iff)
  qed
  have "length (packed @ ?m) + length (concat (map mb vec)) < 2 ^ 32" using Cons.prems(3) by simp
  then obtain recs' where r: "pack slab vec ?recs (packed @ ?m) = ret (recs', (packed @ ?m) @ concat (map mb vec))" "length recs' = length ?recs"
    "\<forall>i < length ?recs. mr_mlen (recs' ! i) = mr_mlen (?recs ! i) \<and> mr_vslot (recs' ! i) = mr_vslot (?recs ! i)
         \<and> mr_band (recs' ! i) = mr_band (?recs ! i) \<and> (i \<notin> unat ` set vec \<longrightarrow> recs' ! i = ?recs ! i)"
    "\<forall>ord \<in> set vec. unat (mr_loc (recs' ! unat ord)) + length (mb ord) \<le> length ((packed @ ?m) @ concat (map mb vec))
         \<and> sub ((packed @ ?m) @ concat (map mb vec)) (unat (mr_loc (recs' ! unat ord))) (length (mb ord)) = mb ord"
    using Cons.IH [of ?recs "packed @ ?m"] Cons.prems(1,2) keep by auto
  have "recs' ! unat ord = ?recs ! unat ord"
  proof -
    have "unat ord \<notin> unat ` set vec" using Cons.prems(1) by (auto simp: word_unat_eq_iff [symmetric])
    then show ?thesis using r(3) o(1) by simp
  qed
  then have "unat (mr_loc (recs' ! unat ord)) = length packed"
    using o(1) Cons.prems(3) by (simp add: unat_small)
  then have "sub (packed @ ?m @ concat (map mb vec)) (unat (mr_loc (recs' ! unat ord))) (length ?m) = ?m"
    "unat (mr_loc (recs' ! unat ord)) + length ?m \<le> length (packed @ ?m @ concat (map mb vec))"
    by (simp_all add: sub_def)
  then have l: "\<forall>o' \<in> set (ord # vec). unat (mr_loc (recs' ! unat o')) + length (mb o') \<le> length (packed @ concat (map mb (ord # vec)))
      \<and> sub (packed @ concat (map mb (ord # vec))) (unat (mr_loc (recs' ! unat o'))) (length (mb o')) = mb o'"
    using r(4) by simp
  have f: "\<forall>i < length recs. mr_mlen (?recs ! i) = mr_mlen (recs ! i) \<and> mr_vslot (?recs ! i) = mr_vslot (recs ! i)
      \<and> mr_band (?recs ! i) = mr_band (recs ! i) \<and> (i \<noteq> unat ord \<longrightarrow> ?recs ! i = recs ! i)"
  proof (intro allI impI, goal_cases)
    case (1 i)
    then show ?case by (cases "i = unat ord") auto
  qed
  have "pack slab (ord # vec) recs packed = ret (recs', packed @ concat (map mb (ord # vec)))"
    unfolding step r(1) by simp
  then show ?case using r(2,3) f l by (intro exI [of _ recs'] conjI) auto
qed simp

lemma compact_spec:
  assumes w: "ht_wf h"
  obtains h' where "maybeCompact h = ret h'" "ht_wf h'" "ht_vec h' = ht_vec h" "\<forall>ord \<in> set (ht_vec h). rec_bytes h' ord = rec_bytes h ord"
    "ht_tbl h' = ht_tbl h" "ht_streams h' = ht_streams h" "ht_streams h > 0 \<longrightarrow> h' = h"
    "length (ht_slab h') \<le> length (ht_slab h)" "length (ht_recs h') = length (ht_recs h)"
proof (cases "ht_streams h > 0 \<or> ht_dead h \<le> int (length (ht_slab h)) div 2 \<or> ht_dead h < 4096")
  case True
  then show ?thesis using that [of h] w by (auto simp: maybeCompact_def)
next
  case False
  let ?c = "concat (map (rec_bytes h) (ht_vec h))"
  have live: "int (length ?c) = live_bytes h"
    unfolding live_bytes_def int_length_concat
    by (intro arg_cong [where f = sum_list] map_cong) (simp_all add: length_rec_bytes [OF w])
  have dead: "ht_dead h = int (length (ht_slab h)) - live_bytes h" using w by (simp add: ht_wf_def)
  have b: "length (ht_slab h) < 2 ^ 32" using w by (simp add: ht_wf_def)
  have "length ([] :: bytes) + length ?c < 2 ^ 32" using live dead False b by simp
  moreover have "unat ord < length (ht_recs h) \<and> mr_band (ht_recs h ! unat ord) = 0
      \<and> slice (ht_slab h) (unat (mr_loc (ht_recs h ! unat ord))) (unat (mr_loc (ht_recs h ! unat ord) + ucast (mr_mlen (ht_recs h ! unat ord)))) = Inr (rec_bytes h ord)
      \<and> length (rec_bytes h ord) = unat (mr_mlen (ht_recs h ! unat ord))" if "ord \<in> set (ht_vec h)" for ord
    using wf_rec [OF w that] length_rec_bytes [OF w that] w that by (simp add: ht_wf_def)
  moreover have "distinct (ht_vec h)" using w by (simp add: ht_wf_def)
  ultimately obtain recs' where r: "pack (ht_slab h) (ht_vec h) (ht_recs h) [] = ret (recs', ?c)" "length recs' = length (ht_recs h)"
    "\<forall>i < length (ht_recs h). mr_mlen (recs' ! i) = mr_mlen (ht_recs h ! i) \<and> mr_vslot (recs' ! i) = mr_vslot (ht_recs h ! i)
         \<and> mr_band (recs' ! i) = mr_band (ht_recs h ! i)"
    "\<forall>ord \<in> set (ht_vec h). unat (mr_loc (recs' ! unat ord)) + length (rec_bytes h ord) \<le> length ?c
         \<and> sub ?c (unat (mr_loc (recs' ! unat ord))) (length (rec_bytes h ord)) = rec_bytes h ord"
    using pack_spec [of "ht_vec h" "ht_recs h" "ht_slab h" "rec_bytes h" "[]"] by auto
  define h' where "h' = h\<lparr>ht_recs := recs', ht_slab := ?c, ht_dead := 0\<rparr>"
  have m: "maybeCompact h = ret h'" using False r(1) live dead by (simp add: maybeCompact_def h'_def)
  have i: "unat ord < length (ht_recs h)" if "ord \<in> set (ht_vec h)" for ord using that w by (simp add: ht_wf_def)
  have rb: "\<forall>ord \<in> set (ht_vec h). rec_bytes h' ord = rec_bytes h ord"
  proof
    fix ord assume ord: "ord \<in> set (ht_vec h)"
    have "rec_bytes h' ord = sub ?c (unat (mr_loc (recs' ! unat ord))) (unat (mr_mlen (recs' ! unat ord)))"
      unfolding rec_bytes_def [of h'] by (simp add: Let_def h'_def)
    then show "rec_bytes h' ord = rec_bytes h ord"
      using r(3) [rule_format, OF i [OF ord]] r(4) [rule_format, OF ord] length_rec_bytes [OF w ord] by simp
  qed
  have lb: "live_bytes h' = live_bytes h"
    using sum_mlen_update [of "ht_vec h" recs' "ht_recs h"] r(3) i by (simp add: live_bytes_def h'_def)
  have "\<forall>x \<in> set recs'. mr_band x = 0" using r(2,3) wf_band [OF w] by (auto simp: in_set_conv_nth)
  moreover have "\<forall>i < length (ht_vec h). unat (mr_vslot (recs' ! unat (ht_vec h ! i))) = i"
    using r(3) w i by (simp add: ht_wf_def)
  moreover have "\<forall>ord \<in> set (ht_vec h). unat (mr_loc (recs' ! unat ord)) + unat (mr_mlen (recs' ! unat ord)) \<le> length ?c"
    using r(3,4) i length_rec_bytes [OF w] by simp
  ultimately have "ht_wf h'"
    using w r(2) live lb dead b \<open>length ([] :: bytes) + length ?c < 2 ^ 32\<close> unfolding ht_wf_def by (simp add: h'_def)
  moreover have "length ?c \<le> length (ht_slab h)" using live dead False by linarith
  ultimately show ?thesis using m rb False r(2) by (intro that [of h']) (auto simp: h'_def)
qed

section \<open>Removal\<close>

definition swap_remove :: "nat \<Rightarrow> 'a list \<Rightarrow> 'a list" where
  "swap_remove i xs = butlast (xs[i := last xs])"

lemma length_swap_remove [simp]: "length (swap_remove i xs) = length xs - 1"
  by (simp add: swap_remove_def)

lemma map_swap_remove: "xs \<noteq> [] \<Longrightarrow> map f (swap_remove i xs) = swap_remove i (map f xs)"
  by (simp add: swap_remove_def map_butlast map_update last_map)

lemma nth_swap_remove:
  "i < length xs \<Longrightarrow> j < length xs - 1 \<Longrightarrow> swap_remove i xs ! j = (if j = i then last xs else xs ! j)"
  by (simp add: swap_remove_def nth_butlast)

lemma swap_remove_distinct:
  assumes "distinct xs" "i < length xs"
  shows "set (swap_remove i xs) = set xs - {xs ! i}" "distinct (swap_remove i xs)"
proof -
  obtain ys x where xs: "xs = ys @ [x]" using assms(2) by (cases xs rule: rev_cases) auto
  have "set (swap_remove i xs) = set xs - {xs ! i} \<and> distinct (swap_remove i xs)"
  proof (cases "i = length ys")
    case True
    then show ?thesis using assms xs by (auto simp: swap_remove_def butlast_append)
  next
    case False
    then have i: "i < length ys" using assms(2) xs by simp
    then have e: "swap_remove i xs = ys[i := x]" by (simp add: swap_remove_def xs list_update_append)
    have "ys = take i ys @ ys ! i # drop (Suc i) ys" using i by (simp add: id_take_nth_drop)
    then obtain as bs where ys: "ys = as @ (ys ! i) # bs" "length as = i" using i by (metis length_take min.absorb4)
    then have u: "ys[i := x] = as @ x # bs" by (metis list_update_length)
    have "distinct (as @ (ys ! i) # bs @ [x])" using assms(1) xs ys(1) by (metis append.assoc append_Cons)
    then have "x \<noteq> ys ! i" "ys ! i \<notin> set as" "ys ! i \<notin> set bs" "distinct (as @ x # bs)" by auto
    moreover have "set xs = insert x (insert (ys ! i) (set as \<union> set bs))" using xs ys(1) by (metis (no_types) Un_insert_right list.simps(15) set_append sup_bot.right_neutral append.right_neutral set_empty insert_commute list.set(1))
    moreover have "xs ! i = ys ! i" using i xs by (simp add: nth_append)
    ultimately show ?thesis unfolding e u by auto
  qed
  then show "set (swap_remove i xs) = set xs - {xs ! i}" "distinct (swap_remove i xs)" by auto
qed

lemma sum_list_swap_remove:
  fixes f :: "'a \<Rightarrow> int"
  assumes "distinct xs" "i < length xs"
  shows "(\<Sum>x \<leftarrow> swap_remove i xs. f x) = (\<Sum>x \<leftarrow> xs. f x) - f (xs ! i)"
  using swap_remove_distinct [OF assms] assms by (simp add: sum_list_distinct_conv_sum_set sum_diff)

lemma remove_record:
  assumes w: "ht_wf h" and i: "i < length (ht_vec h)"
  defines "ord \<equiv> ht_vec h ! i" and "r \<equiv> ht_recs h ! unat (ht_vec h ! i)"
  obtains h' where "vec_remove h (mr_vslot r) = ret h'" "ht_vec h' = swap_remove i (ht_vec h)"
    "ht_wf (h'\<lparr>ht_dead := ht_dead h' + int (unat (mr_mlen r)), ht_free := ht_free h' @ [ord]\<rparr>)"
    "\<forall>o'. rec_bytes h' o' = rec_bytes h o'" "ht_tbl h' = ht_tbl h" "ht_streams h' = ht_streams h"
    "ht_slab h' = ht_slab h" "length (ht_recs h') = length (ht_recs h)"
proof -
  let ?vec = "ht_vec h"
  define moved where "moved = last ?vec"
  have ne: "?vec \<noteq> []" using i by auto
  have d: "distinct ?vec" "distinct (ht_free h)" "set ?vec \<inter> set (ht_free h) = {}" using w by (simp_all add: ht_wf_def)
  have ords: "\<forall>o' \<in> set ?vec \<union> set (ht_free h). unat o' < length (ht_recs h)" using w by (simp add: ht_wf_def)
  have sl: "\<forall>j < length ?vec. unat (mr_vslot (ht_recs h ! unat (?vec ! j))) = j" using w by (simp add: ht_wf_def)
  have v: "unat (mr_vslot r) = i" using sl i by (simp add: r_def)
  have mv: "moved \<in> set ?vec" using ne by (simp add: moved_def)
  have om: "ord \<in> set ?vec" using i by (simp add: ord_def)
  define recs where "recs = (ht_recs h)[unat moved := (ht_recs h ! unat moved)\<lparr>mr_vslot := mr_vslot r\<rparr>]"
  define h' where "h' = h\<lparr>ht_vec := swap_remove i ?vec, ht_recs := recs\<rparr>"
  have ml: "unat moved < length (ht_recs h)" using ords mv by blast
  have 1: "vec_remove h (mr_vslot r) = ret h'"
    using ne i v ml by (simp add: vec_remove_def Let_def h'_def recs_def moved_def swap_remove_def)
  have same: "mr_loc (recs ! k) = mr_loc (ht_recs h ! k)" "mr_mlen (recs ! k) = mr_mlen (ht_recs h ! k)"
    "mr_band (recs ! k) = mr_band (ht_recs h ! k)" for k
    using ml by (cases "k = unat moved"; simp add: recs_def)+
  have slot: "mr_vslot (recs ! unat o') = (if o' = moved then mr_vslot r else mr_vslot (ht_recs h ! unat o'))" for o'
    using ml by (cases "o' = moved") (simp_all add: recs_def word_unat_eq_iff)
  have rb: "\<forall>o'. rec_bytes h' o' = rec_bytes h o'" by (simp add: rec_bytes_def Let_def h'_def same)
  let ?h = "h'\<lparr>ht_dead := ht_dead h' + int (unat (mr_mlen r)), ht_free := ht_free h' @ [ord]\<rparr>"
  note sr = swap_remove_distinct [OF d(1) i]
  have "live_bytes ?h = live_bytes h - int (unat (mr_mlen r))"
    using sum_list_swap_remove [OF d(1) i, of "\<lambda>o'. int (unat (mr_mlen (ht_recs h ! unat o')))"]
    by (simp add: live_bytes_def h'_def same r_def del: unat_eq_zero)
  moreover have "\<forall>j < length (ht_vec ?h). unat (mr_vslot (ht_recs ?h ! unat (ht_vec ?h ! j))) = j"
  proof (intro allI impI)
    fix j assume "j < length (ht_vec ?h)"
    then have j: "j < length ?vec - 1" by (simp add: h'_def)
    have "?vec ! j \<noteq> moved"
    proof
      assume "?vec ! j = moved"
      then have "?vec ! j = ?vec ! (length ?vec - 1)" using ne by (simp add: moved_def last_conv_nth)
      then show False using nth_eq_iff_index_eq [OF d(1)] j by auto
    qed
    then show "unat (mr_vslot (ht_recs ?h ! unat (ht_vec ?h ! j))) = j"
      using j nth_swap_remove [OF i j] v sl by (auto simp: h'_def slot moved_def [symmetric])
  qed
  moreover have "\<forall>x \<in> set recs. mr_band x = 0"
    using wf_band [OF w] same(3) by (auto simp: in_set_conv_nth recs_def)
  moreover have "distinct (ht_vec ?h @ ht_free ?h)"
    using sr d om by (auto simp: h'_def ord_def)
  moreover have "\<forall>o' \<in> set (ht_vec ?h) \<union> set (ht_free ?h). unat o' < length (ht_recs ?h)"
    using sr(1) ords om by (auto simp: h'_def recs_def)
  moreover have "\<forall>o' \<in> set (ht_vec ?h). unat (mr_loc (ht_recs ?h ! unat o')) + unat (mr_mlen (ht_recs ?h ! unat o')) \<le> length (ht_slab ?h)"
    using sr(1) w by (simp add: h'_def same ht_wf_def)
  ultimately have "ht_wf ?h"
    using w unfolding ht_wf_def by (simp add: h'_def recs_def)
  then show ?thesis using 1 rb by (intro that [of h']) (simp_all add: h'_def recs_def)
qed

lemma rem_present:
  assumes "ht_inv h" "m \<in> set (contents h)"
  obtains h' i where "ht_rem h m = ret (h', True)" "ht_inv h'" "i < length (contents h)" "contents h ! i = m"
    "contents h' = swap_remove i (contents h)" "ht_streams h' = ht_streams h"
    "ht_streams h > 0 \<longrightarrow> (\<forall>o'. rec_bytes h' o' = rec_bytes h o')"
    "length (ht_slab h') \<le> length (ht_slab h)" "length (ht_recs h') = length (ht_recs h)"
proof -
  have w: "ht_wf h" and t: "table_inv (member_of h) Hash (ht_tbl h)" and s: "stored (ht_tbl h) = set (ht_vec h)"
    using assms(1) by (simp_all add: ht_inv_def)
  obtain i where i: "i < length (ht_vec h)" "rec_bytes h (ht_vec h ! i) = m"
    using assms(2) by (auto simp: contents_def in_set_conv_nth)
  let ?ord = "ht_vec h ! i" let ?r = "ht_recs h ! unat ?ord"
  have o: "?ord \<in> set (ht_vec h)" using i(1) by simp
  have mo: "member_of h ?ord = Some m" using wf_rec(5) [OF w o] i(2) by simp
  obtain t' where t': "Table_Delete (Match h) (ht_tbl h) (Hash m) m = ret (t', Some ?ord)" "table_inv (member_of h) Hash t'"
      "stored t' = set (ht_vec h) - {?ord}"
    by (rule ht.Delete_present [OF t _ mo, unfolded s, OF o])
  let ?h0 = "h\<lparr>ht_tbl := t'\<rparr>"
  have w0: "ht_wf ?h0" using w by (simp add: ht_wf_def live_bytes_def)
  obtain h1 where h1: "vec_remove ?h0 (mr_vslot ?r) = ret h1" "ht_vec h1 = swap_remove i (ht_vec h)"
      "ht_wf (h1\<lparr>ht_dead := ht_dead h1 + int (unat (mr_mlen ?r)), ht_free := ht_free h1 @ [?ord]\<rparr>)"
      "\<forall>o'. rec_bytes h1 o' = rec_bytes h o'" "ht_tbl h1 = t'" "ht_streams h1 = ht_streams h"
      "ht_slab h1 = ht_slab h" "length (ht_recs h1) = length (ht_recs h)"
    using remove_record [OF w0, of i] i(1) by (auto simp: rec_bytes_def)
  let ?h1 = "h1\<lparr>ht_dead := ht_dead h1 + int (unat (mr_mlen ?r)), ht_free := ht_free h1 @ [?ord]\<rparr>"
  obtain h2 where h2: "maybeCompact ?h1 = ret h2" "ht_wf h2" "ht_vec h2 = ht_vec ?h1" "\<forall>o' \<in> set (ht_vec ?h1). rec_bytes h2 o' = rec_bytes ?h1 o'"
      "ht_tbl h2 = ht_tbl ?h1" "ht_streams h2 = ht_streams ?h1" "ht_streams ?h1 > 0 \<longrightarrow> h2 = ?h1"
      "length (ht_slab h2) \<le> length (ht_slab ?h1)" "length (ht_recs h2) = length (ht_recs ?h1)"
    by (rule compact_spec [OF h1(3)])
  have rb1: "rec_bytes ?h1 = rec_bytes h1" by (simp add: rec_bytes_def fun_eq_iff)
  have d: "distinct (ht_vec h)" using w by (simp add: ht_wf_def)
  note sr = swap_remove_distinct [OF d i(1)]
  have r2: "rec_bytes h2 o' = rec_bytes h o'" if "o' \<in> set (ht_vec h2)" for o'
    using that h2(3,4) h1(4) rb1 by simp
  have v2: "ht_vec h2 = swap_remove i (ht_vec h)" using h2(3) h1(2) by simp
  have "table_inv (member_of h2) Hash t'"
  proof (rule table_inv_cong [OF _ t'(2)])
    fix o' assume "o' \<in> stored t'"
    then have "o' \<in> set (ht_vec h)" "o' \<in> set (ht_vec h2)" using t'(3) sr(1) v2 by auto
    then show "member_of h o' = member_of h2 o'" using member_of_eq [OF w h2(2)] r2 by simp
  qed
  then have "ht_inv h2" using h2(2,5) h1(5) v2 sr(1) t'(3) by (simp add: ht_inv_def)
  moreover have "contents h2 = swap_remove i (contents h)"
  proof -
    have "contents h2 = map (rec_bytes h) (swap_remove i (ht_vec h))" using r2 v2 by (simp add: contents_def)
    also have "\<dots> = swap_remove i (contents h)" unfolding contents_def using i(1) by (intro map_swap_remove) auto
    finally show ?thesis .
  qed
  moreover have "ht_rem h m = ret (h2, True)"
    using wf_rec(1,2) [OF w o] h2(1) by (simp add: ht_rem_def t'(1) Let_def rec_at_def h1(1) split: if_splits)
  ultimately show ?thesis using that [of h2 i] i h2(6-9) h1(4,6-8) rb1 by (auto simp: contents_def)
qed

lemma rem_absent: "ht_inv h \<Longrightarrow> m \<notin> set (contents h) \<Longrightarrow> ht_rem h m = ret (h, False)"
  using stored_members [of h m] ht.Delete_absent [of h "ht_tbl h" m "Hash m"] by (auto simp: ht_rem_def ht_inv_def Let_def)

lemma newHashtable_spec:
  assumes "n \<le> 7 * 2 ^ 26"
  obtains h where "newHashtable n = ret h" "ht_inv h" "contents h = []" "ht_streams h = 0" "ht_slab h = []" "ht_recs h = []" "ht_vec h = []"
proof -
  let ?h = "\<lambda>t. \<lparr>ht_tbl = t, ht_recs = [], ht_slab = [], ht_vec = [], ht_free = [], ht_dead = 0, ht_streams = 0\<rparr>"
  obtain t where t: "MakeTable n = ret t" "table_inv (\<lambda>_. None) Hash t" "stored t = {}" by (rule MakeTable_inv [OF assms])
  have "table_inv (member_of (?h t)) Hash t" by (rule table_inv_cong [OF _ t(2)]) (simp add: t(3))
  then have "ht_inv (?h t)" using t(3) by (simp add: ht_inv_def ht_wf_def live_bytes_def)
  then show ?thesis using that [of "?h t"] t(1) by (simp add: newHashtable_def contents_def)
qed

end
