(* ===== verification/Decimal.thy ===== *)
theory Decimal
  imports Format
begin

unbundle bit_operations_syntax

text \<open>
  Decimal integers: the rendering of strconv.AppendInt and the canonical parser ParseInt of
  engine/f3/store/str.go.  ParseInt accepts exactly the renderings of the 64-bit integers.
\<close>

type_synonym i64 = "64 word"

section \<open>Rendering\<close>

fun digits :: "nat \<Rightarrow> bytes" where
  "digits n = (if n < 10 then [of_nat (48 + n)] else digits (n div 10) @ [of_nat (48 + n mod 10)])"

declare digits.simps [simp del]

definition itoa :: "int \<Rightarrow> bytes" where
  "itoa i = (if i < 0 then 45 # digits (nat (- i)) else digits (nat i))"

section \<open>Parsing\<close>

text \<open>The loop of ParseInt over the digits, with its overflow check in 64 bits.\<close>

fun parse_digits :: "u64 \<Rightarrow> bytes \<Rightarrow> u64 \<Rightarrow> u64 option" where
  "parse_digits lim [] u = Some u"
| "parse_digits lim (c # b) u =
    (if c < 48 \<or> c > 57 then None
     else let d = ucast (c - 48) in
       if u > (lim - d) div 10 then None else parse_digits lim b (u * 10 + d))"

abbreviation (input) MaxInt64 :: u64 where "MaxInt64 \<equiv> 0x7fffffffffffffff"
abbreviation (input) MinInt64 :: i64 where "MinInt64 \<equiv> 0x8000000000000000"

definition ParseInt :: "bytes \<Rightarrow> i64 option" where
  "ParseInt b =
    (if length b = 0 \<or> length b > 20 then None
     else let neg = (b ! 0 = 45); i = (if neg then 1 else 0) in
       if neg \<and> length b = 1 then None
       else if b ! i = 48 then (if \<not> neg \<and> length b = 1 then Some 0 else None)
       else let lim = (if neg then MaxInt64 + 1 else MaxInt64) in
         case parse_digits lim (drop i b) 0 of
           None \<Rightarrow> None
         | Some u \<Rightarrow> if neg then (if u = lim then Some MinInt64 else Some (- u)) else Some u)"

section \<open>Digit strings\<close>

definition is_digit :: "byte \<Rightarrow> bool" where
  "is_digit c \<longleftrightarrow> \<not> (c < 48 \<or> c > 57)"

definition digit :: "byte \<Rightarrow> nat" where
  "digit c = unat c - 48"

definition dval :: "bytes \<Rightarrow> nat \<Rightarrow> nat" where
  "dval b n = fold (\<lambda>c n. n * 10 + digit c) b n"

lemma dval_simps [simp]: "dval [] n = n" "dval (c # b) n = dval b (n * 10 + digit c)" "dval (a @ b) n = dval b (dval a n)"
  by (simp_all add: dval_def)

lemma is_digit_unat: "is_digit c \<longleftrightarrow> 48 \<le> unat c \<and> unat c \<le> 57"
  by (auto simp: is_digit_def word_less_nat_alt)

lemma digit_less: "is_digit c \<Longrightarrow> digit c < 10"
  unfolding is_digit_unat digit_def by linarith

lemma unat_digit: "k < 10 \<Longrightarrow> unat (of_nat (48 + k) :: byte) = 48 + k"
  by (subst unat_of_nat) simp

lemma digit_of_nat: "k < 10 \<Longrightarrow> is_digit (of_nat (48 + k)) \<and> digit (of_nat (48 + k)) = k"
  using unat_digit [of k] by (simp only: is_digit_unat digit_def) simp

lemma of_nat_digit: "is_digit c \<Longrightarrow> of_nat (48 + digit c) = c"
  by (simp add: is_digit_unat digit_def)

lemma digits_digits: "\<forall>c \<in> set (digits n). is_digit c"
proof (induction n rule: digits.induct)
  case (1 n)
  show ?case
  proof (cases "n < 10")
    case True
    then show ?thesis using digit_of_nat [of n] by (subst digits.simps) simp
  next
    case False
    then show ?thesis using 1 digit_of_nat [of "n mod 10"] by (subst digits.simps) auto
  qed
qed

lemma dval_digits: "dval (digits n) 0 = n"
proof (induction n rule: digits.induct)
  case (1 n)
  show ?case
  proof (cases "n < 10")
    case True
    then show ?thesis using digit_of_nat [of n] by (subst digits.simps) simp
  next
    case False
    then show ?thesis using 1 digit_of_nat [of "n mod 10"] by (subst digits.simps) simp
  qed
qed

lemma digits_nonempty: "digits n \<noteq> []"
  by (subst digits.simps) simp

lemma hd_digits: "0 < n \<Longrightarrow> digit (hd (digits n)) \<noteq> 0"
proof (induction n rule: digits.induct)
  case (1 n)
  show ?case
  proof (cases "n < 10")
    case True
    then show ?thesis using "1.prems" digit_of_nat [of n] by (subst digits.simps) simp
  next
    case False
    then show ?thesis using 1 digits_nonempty [of "n div 10"] by (subst digits.simps) simp
  qed
qed

text \<open>A digit string without a leading zero is the rendering of its value.\<close>

lemma digits_dval:
  assumes "\<forall>c \<in> set b. is_digit c" "b \<noteq> []" "digit (hd b) \<noteq> 0"
  shows "digits (dval b 0) = b" "0 < dval b 0"
proof -
  have "digits (dval b 0) = b \<and> 0 < dval b 0"
    using assms
  proof (induction b rule: rev_induct)
    case (snoc c b)
    have c: "digit c < 10" "of_nat (48 + digit c) = c" using snoc.prems(1) digit_less of_nat_digit by auto
    show ?case
    proof (cases b)
      case Nil
      then show ?thesis using snoc.prems c by (subst digits.simps) auto
    next
      case (Cons x xs)
      then have IH: "digits (dval b 0) = b" "0 < dval b 0" using snoc by auto
      then show ?thesis using c by (subst digits.simps) simp
    qed
  qed simp
  then show "digits (dval b 0) = b" "0 < dval b 0" by auto
qed

lemma length_digits_mono: "n < 10 ^ k \<Longrightarrow> 0 < k \<Longrightarrow> length (digits n) \<le> k"
proof (induction k arbitrary: n)
  case (Suc k)
  show ?case
  proof (cases "n < 10")
    case True
    then show ?thesis by (subst digits.simps) simp
  next
    case False
    then have "0 < k" using Suc.prems by (cases k) auto
    moreover have "n div 10 < 10 ^ k" using Suc.prems(1) by (simp add: less_mult_imp_div_less mult.commute)
    ultimately show ?thesis using Suc.IH [of "n div 10"] False by (subst digits.simps) simp
  qed
qed simp

section \<open>The parser against the rendering\<close>

lemma dval_ge: "n \<le> dval b n"
proof (induction b arbitrary: n)
  case (Cons c b)
  have "n \<le> n * 10 + digit c" by simp
  also have "\<dots> \<le> dval b (n * 10 + digit c)" by (rule Cons.IH)
  finally show ?case by simp
qed simp

lemma digit_word:
  assumes "is_digit c" shows "unat (ucast (c - 48) :: u64) = digit c"
proof -
  have "unat (c - 48) = digit c" using assms by (simp add: is_digit_unat digit_def unat_sub word_le_nat_alt)
  moreover have "unat (ucast (c - 48) :: u64) = unat (c - 48)"
    using unsigned_less [of "c - 48", where 'a = nat] by (simp add: unsigned_ucast_eq take_bit_eq_mod)
  ultimately show ?thesis by simp
qed

lemma parse_digits_iff:
  assumes "9 \<le> unat lim" "unat lim \<le> 2 ^ 63" "unat u \<le> unat lim"
  shows "parse_digits lim b u = Some v \<longleftrightarrow>
    (\<forall>c \<in> set b. is_digit c) \<and> dval b (unat u) \<le> unat lim \<and> v = of_nat (dval b (unat u))"
  using assms(3)
proof (induction b arbitrary: u)
  case Nil
  then show ?case by auto
next
  case (Cons c b)
  show ?case
  proof (cases "is_digit c")
    case True
    let ?d = "ucast (c - 48) :: u64"
    have d: "unat ?d = digit c" "digit c < 10" using digit_word [OF True] digit_less [OF True] by auto
    have "unat (lim - ?d) = unat lim - digit c" using d assms(1) by (simp add: unat_sub word_le_nat_alt)
    then have q: "unat ((lim - ?d) div 10) = (unat lim - digit c) div 10" by (simp add: unat_div)
    have chk: "u > (lim - ?d) div 10 \<longleftrightarrow> unat lim < unat u * 10 + digit c"
      unfolding word_less_nat_alt q using assms(1) d(2) by (simp add: div_less_iff_less_mult) linarith
    show ?thesis
    proof (cases "unat lim < unat u * 10 + digit c")
      case over: True
      then have "\<not> dval b (unat u * 10 + digit c) \<le> unat lim" using dval_ge [of "unat u * 10 + digit c" b] by simp
      then show ?thesis using True over chk by (simp add: is_digit_def Let_def)
    next
      case False
      have "unat (u * 10 + ?d) = (unat u * 10 + digit c) mod 2 ^ 64"
        unfolding unat_word_ariths d(1) by (simp add: mod_simps)
      moreover have "unat u * 10 + digit c < 2 ^ 64" using False assms(2) by simp
      ultimately have e: "unat (u * 10 + ?d) = unat u * 10 + digit c" by (simp only: mod_less)
      then show ?thesis using True False chk Cons.IH [of "u * 10 + ?d"] by (simp add: is_digit_def Let_def)
    qed
  next
    case False
    then show ?thesis by (auto simp: is_digit_def)
  qed
qed

lemma sint_of_int: "- (2 ^ 63) \<le> i \<Longrightarrow> i < 2 ^ 63 \<Longrightarrow> sint (of_int i :: i64) = i"
  by (simp add: signed_of_int signed_take_bit_int_eq_self)

lemma sint_range: "- (2 ^ 63) \<le> sint (v :: i64)" "sint v < 2 ^ 63"
  using sint_ge [of v] sint_lt [of v] by simp_all

lemma sint_eq_iff: "- (2 ^ 63) \<le> i \<Longrightarrow> i < 2 ^ 63 \<Longrightarrow> v = of_int i \<longleftrightarrow> sint (v :: i64) = i"
  by (auto simp: sint_of_int)

text \<open>The number of a digit string whose first byte is not the digit zero.\<close>

lemma parse_number:
  assumes "b \<noteq> []" "hd b \<noteq> 48" "9 \<le> unat lim" "unat lim \<le> 2 ^ 63"
  shows "parse_digits lim b 0 =
    (if b = digits (dval b 0) \<and> 0 < dval b 0 \<and> dval b 0 \<le> unat lim then Some (of_nat (dval b 0)) else None)"
proof -
  have h: "digit (hd b) \<noteq> 0" if "is_digit (hd b)"
  proof
    assume "digit (hd b) = 0"
    then have "unat (hd b) = unat (48 :: byte)" using that by (simp add: is_digit_unat digit_def)
    then show False using assms(2) by (simp only: word_unat_eq_iff)
  qed
  have all: "(\<forall>c \<in> set b. is_digit c) \<longleftrightarrow> b = digits (dval b 0) \<and> 0 < dval b 0"
  proof
    assume d: "\<forall>c \<in> set b. is_digit c"
    have "digit (hd b) \<noteq> 0" using h d assms(1) by simp
    from digits_dval [OF d assms(1) this] show "b = digits (dval b 0) \<and> 0 < dval b 0" by simp
  next
    assume "b = digits (dval b 0) \<and> 0 < dval b 0"
    then show "\<forall>c \<in> set b. is_digit c" using digits_digits by metis
  qed
  have "parse_digits lim b 0 = Some u \<longleftrightarrow> (\<forall>c \<in> set b. is_digit c) \<and> dval b 0 \<le> unat lim \<and> u = of_nat (dval b 0)" for u
    using parse_digits_iff [OF assms(3,4), of 0 b u] by simp
  then have "parse_digits lim b 0 = Some u \<longleftrightarrow>
      (if b = digits (dval b 0) \<and> 0 < dval b 0 \<and> dval b 0 \<le> unat lim then Some (of_nat (dval b 0)) else None) = Some u" for u
    unfolding all by auto
  then show ?thesis by (metis not_None_eq)
qed

lemma hd_digits_byte: "hd (digits n) \<noteq> 45" "0 < n \<Longrightarrow> hd (digits n) \<noteq> 48"
proof -
  have "is_digit (hd (digits n))" using digits_digits [of n] digits_nonempty [of n] by simp
  then show "hd (digits n) \<noteq> 45" by (auto simp: is_digit_unat)
  show "0 < n \<Longrightarrow> hd (digits n) \<noteq> 48" using hd_digits [of n] by (auto simp: digit_def)
qed

lemma length_digits_int64: "n \<le> 2 ^ 63 \<Longrightarrow> length (digits n) \<le> 19"
  by (rule length_digits_mono) auto

lemma ParseInt_neg:
  "ParseInt (45 # c) = (if c = digits (dval c 0) \<and> 0 < dval c 0 \<and> dval c 0 \<le> 2 ^ 63 then Some (of_int (- int (dval c 0))) else None)"
proof (cases "c = [] \<or> hd c = 48 \<or> length c > 19")
  case True
  have "\<not> (c = digits (dval c 0) \<and> 0 < dval c 0 \<and> dval c 0 \<le> 2 ^ 63)"
    using True digits_nonempty [of "dval c 0"] hd_digits_byte(2) [of "dval c 0"] length_digits_int64 [of "dval c 0"] by auto
  moreover have "ParseInt (45 # c) = None" using True by (cases c) (auto simp: ParseInt_def)
  ultimately show ?thesis by (simp only: if_False)
next
  case False
  let ?lim = "MaxInt64 + 1 :: u64"
  have lim: "unat ?lim = 2 ^ 63" by simp
  have "ParseInt (45 # c) = (case parse_digits ?lim c 0 of None \<Rightarrow> None | Some u \<Rightarrow> if u = ?lim then Some MinInt64 else Some (- u))"
    using False by (cases c) (auto simp: ParseInt_def split: option.splits)
  moreover have "parse_digits ?lim c 0 = (if c = digits (dval c 0) \<and> 0 < dval c 0 \<and> dval c 0 \<le> 2 ^ 63 then Some (of_nat (dval c 0)) else None)"
    using parse_number [of c ?lim] False unfolding lim by simp
  moreover have "(if of_nat n = ?lim then Some MinInt64 else Some (- of_nat n)) = Some (of_int (- int n) :: i64)" for n by simp
  ultimately show ?thesis by (simp only: option.case split: if_split) simp
qed

lemma ParseInt_pos:
  assumes "b = [] \<or> hd b \<noteq> 45"
  shows "ParseInt b = (if b = digits (dval b 0) \<and> dval b 0 < 2 ^ 63 then Some (of_int (int (dval b 0))) else None)"
proof (cases "b = [] \<or> hd b = 48 \<or> length b > 19")
  case True
  show ?thesis
  proof (cases "b = [48]")
    case True
    then show ?thesis using digits.simps [of 0] by (simp add: ParseInt_def digit_def)
  next
    case nz: False
    have "\<not> (b = digits (dval b 0) \<and> dval b 0 < 2 ^ 63)"
    proof
      assume d: "b = digits (dval b 0) \<and> dval b 0 < 2 ^ 63"
      then have "dval b 0 \<noteq> 0" using nz digits.simps [of 0] by (metis add.right_neutral of_nat_numeral zero_less_numeral)
      then show False using True d digits_nonempty [of "dval b 0"] hd_digits_byte(2) [of "dval b 0"] length_digits_int64 [of "dval b 0"] by auto
    qed
    moreover have "ParseInt b = None"
    proof (cases "b = [] \<or> hd b = 48")
      case True
      then show ?thesis using nz by (cases b) (auto simp: ParseInt_def)
    next
      case False
      have m: "unat (MaxInt64 :: u64) = 2 ^ 63 - 1" by simp
      have "length b > 19" using True False by auto
      then have "\<not> (b = digits (dval b 0) \<and> 0 < dval b 0 \<and> dval b 0 \<le> 2 ^ 63 - 1)" using length_digits_int64 [of "dval b 0"] by auto
      then have "parse_digits MaxInt64 b 0 = None" using parse_number [of b MaxInt64] False unfolding m by simp
      then show ?thesis using False assms by (cases b) (auto simp: ParseInt_def Let_def split: option.splits)
    qed
    ultimately show ?thesis by (simp only: if_False)
  qed
next
  case False
  have m: "unat (MaxInt64 :: u64) = 2 ^ 63 - 1" by simp
  have "ParseInt b = parse_digits MaxInt64 b 0"
    using False assms by (cases b) (auto simp: ParseInt_def split: option.splits)
  also have "\<dots> = (if b = digits (dval b 0) \<and> 0 < dval b 0 \<and> dval b 0 \<le> 2 ^ 63 - 1 then Some (of_nat (dval b 0)) else None)"
    using parse_number [of b MaxInt64] False unfolding m by simp
  also have "\<dots> = (if b = digits (dval b 0) \<and> dval b 0 < 2 ^ 63 then Some (of_int (int (dval b 0))) else None)"
  proof -
    have "dval b 0 \<noteq> 0" if "b = digits (dval b 0)"
      using that False digits.simps [of 0] by (metis add.right_neutral list.sel(1) of_nat_numeral zero_less_numeral)
    then show ?thesis by auto
  qed
  finally show ?thesis .
qed

theorem ParseInt_iff: "ParseInt b = Some v \<longleftrightarrow> b = itoa (sint v)"
proof (cases "b = [] \<or> hd b \<noteq> 45")
  case True
  have "b = itoa (sint v) \<longleftrightarrow> b = digits (dval b 0) \<and> dval b 0 < 2 ^ 63 \<and> sint v = int (dval b 0)"
  proof
    assume e: "b = itoa (sint v)"
    then have "0 \<le> sint v" using True by (auto simp: itoa_def split: if_splits)
    then show "b = digits (dval b 0) \<and> dval b 0 < 2 ^ 63 \<and> sint v = int (dval b 0)"
      using e sint_range(2) [of v] dval_digits [of "nat (sint v)"] by (auto simp: itoa_def nat_less_iff)
  qed (simp add: itoa_def)
  then show ?thesis using ParseInt_pos [OF True] sint_eq_iff [of "int (dval b 0)" v] by auto
next
  case False
  then obtain c where b: "b = 45 # c" by (cases b) auto
  have "b = itoa (sint v) \<longleftrightarrow> c = digits (dval c 0) \<and> 0 < dval c 0 \<and> dval c 0 \<le> 2 ^ 63 \<and> sint v = - int (dval c 0)"
  proof
    assume e: "b = itoa (sint v)"
    have neg: "sint v < 0"
    proof (rule ccontr)
      assume "\<not> sint v < 0"
      then have "digits (nat (sint v)) = 45 # c" using e b by (simp add: itoa_def)
      then show False using hd_digits_byte(1) [of "nat (sint v)"] by simp
    qed
    then have "c = digits (nat (- sint v))" using e b by (simp add: itoa_def)
    then show "c = digits (dval c 0) \<and> 0 < dval c 0 \<and> dval c 0 \<le> 2 ^ 63 \<and> sint v = - int (dval c 0)"
      using neg sint_range(1) [of v] dval_digits [of "nat (- sint v)"] by (auto simp: nat_le_iff)
  qed (simp add: itoa_def b)
  then show ?thesis using ParseInt_neg [of c] sint_eq_iff [of "- int (dval c 0)" v] b by auto
qed

end
