(* ===== verification/SetBands.thy ===== *)
theory SetBands
  imports SetOps Decimal
begin

unbundle bit_operations_syntax

text \<open>
  The set of engine/f3/set/set.go over its four bands: the packed intset and listpack blobs, the
  native member table of \<open>SetTable\<close>, and the partitioned band of partition.go, with the one-way
  conversions between them.  The partition threshold is a package variable of the source and an
  argument here.  The draw escalation of the partitioned band (esc, nil by default) and the cold
  tier are off.  Callbacks of the enumerations are represented by the list of members they are
  called with.
\<close>

section \<open>Types\<close>

datatype encoding = encIntset | encListpack | encHashtable | encPartitioned

definition encoding_String :: "encoding \<Rightarrow> string" where
  "encoding_String e = (case e of encIntset \<Rightarrow> ''intset'' | encListpack \<Rightarrow> ''listpack'' | _ \<Rightarrow> ''hashtable'')"

record partitioned =
  pt_parts :: "htable list"
  pt_counts :: "u64 list"
  pt_total :: u64
  pt_pgen :: u32

record goset =
  gs_enc :: encoding
  gs_clock :: u16
  gs_expireAt :: i64
  gs_data :: bytes
  gs_n :: int
  gs_ht :: "htable option"
  gs_part :: "partitioned option"
  gs_acct :: u64

abbreviation (input) maxIntsetEntries :: nat where "maxIntsetEntries \<equiv> 512"
abbreviation (input) maxListpackEntries :: int where "maxListpackEntries \<equiv> 128"
abbreviation (input) maxListpackValue :: nat where "maxListpackValue \<equiv> 64"
abbreviation (input) partTarget :: nat where "partTarget \<equiv> 262144"
abbreviation (input) partFloorP :: nat where "partFloorP \<equiv> 4"

definition zero_set :: "encoding \<Rightarrow> goset" where
  "zero_set e = \<lparr>gs_enc = e, gs_clock = 0, gs_expireAt = 0, gs_data = [], gs_n = 0, gs_ht = None, gs_part = None, gs_acct = 0\<rparr>"

definition newSet :: "bytes \<Rightarrow> goset" where
  "newSet first = (case ParseInt first of Some v \<Rightarrow> zero_set encIntset | None \<Rightarrow> zero_set encListpack)"

section \<open>The intset blob\<close>

text \<open>sort.Search of the Go library, the binary search it documents.\<close>

function Search_loop :: "(nat \<Rightarrow> bool) \<Rightarrow> nat \<Rightarrow> nat \<Rightarrow> nat" where
  "Search_loop f i j =
    (if i < j then (let h = (i + j) div 2 in if \<not> f h then Search_loop f (h + 1) j else Search_loop f i h) else i)"
  by auto
termination by (relation "measure (\<lambda>(f, i, j). j - i)") auto

declare Search_loop.simps [simp del]

definition Search :: "nat \<Rightarrow> (nat \<Rightarrow> bool) \<Rightarrow> nat" where
  "Search n f = Search_loop f 0 n"

definition intsetLen :: "goset \<Rightarrow> nat" where
  "intsetLen s = length (gs_data s) div 8"

definition intLaneAt :: "bytes \<Rightarrow> nat \<Rightarrow> i64" where
  "intLaneAt b i = Uint64 b (i * 8)"

text \<open>The lane the binary search of has, add and rem lands on.\<close>

definition lane_search :: "goset \<Rightarrow> i64 \<Rightarrow> nat" where
  "lane_search s v = Search (intsetLen s) (\<lambda>i. sint v \<le> sint (intLaneAt (gs_data s) i))"

definition intsetHas :: "goset \<Rightarrow> i64 \<Rightarrow> bool" where
  "intsetHas s v = (let i = lane_search s v in i < intsetLen s \<and> intLaneAt (gs_data s) i = v)"

definition insert_lane :: "bytes \<Rightarrow> nat \<Rightarrow> i64 \<Rightarrow> bytes" where
  "insert_lane b i v =
    (let b = b @ replicate 8 0; b = put b ((i + 1) * 8) (drop (i * 8) b) in PutUint64 b (i * 8) v)"

definition remove_lane :: "bytes \<Rightarrow> nat \<Rightarrow> bytes" where
  "remove_lane b i = take (i * 8) b @ drop ((i + 1) * 8) b"

definition lanes :: "bytes \<Rightarrow> i64 list" where
  "lanes b = map (intLaneAt b) [0..<length b div 8]"

section \<open>The listpack blob\<close>

definition lp_tag :: "bytes \<Rightarrow> byte" where
  "lp_tag m = (if length m > 0 then m ! 0 else 0)"

function lp_find :: "bytes \<Rightarrow> bytes \<Rightarrow> nat \<Rightarrow> err + nat option" where
  "lp_find b m i =
    (if i < length b then
       (if i + 1 < length b then
          (let n = unat (b ! i); start = i + 2 in
           if b ! (i + 1) = lp_tag m \<and> n = length m then
             bindE (slice b start (start + n)) (\<lambda>e. if e = m then Inr (Some i) else lp_find b m (start + n))
           else lp_find b m (start + n))
        else Inl Panic)
     else Inr None)"
  by auto
termination by (relation "measure (\<lambda>(b, m, i). length b - i)") auto

declare lp_find.simps [simp del]

definition listpackIndex :: "goset \<Rightarrow> bytes \<Rightarrow> err + nat option" where
  "listpackIndex s m = lp_find (gs_data s) m 0"

definition appendListpack :: "goset \<Rightarrow> bytes \<Rightarrow> goset" where
  "appendListpack s m = s\<lparr>gs_data := gs_data s @ [of_nat (length m), lp_tag m] @ m, gs_n := gs_n s + 1\<rparr>"

text \<open>The walk of each, and the walk to the entry at an index.\<close>

function lp_walk :: "bytes \<Rightarrow> nat \<Rightarrow> err + bytes list" where
  "lp_walk b i =
    (if i < length b then
       (let n = unat (b ! i); start = i + 2 in
        bindE (slice b start (start + n)) (\<lambda>m. bindE (lp_walk b (start + n)) (\<lambda>ms. Inr (m # ms))))
     else Inr [])"
  by auto
termination by (relation "measure (\<lambda>(b, i). length b - i)") auto

declare lp_walk.simps [simp del]

fun lp_skip :: "bytes \<Rightarrow> nat \<Rightarrow> nat \<Rightarrow> err + nat" where
  "lp_skip b 0 pos = Inr pos"
| "lp_skip b (Suc k) pos = (if pos < length b then lp_skip b k (pos + 2 + unat (b ! pos)) else Inl Panic)"

definition cut_entry :: "bytes \<Rightarrow> nat \<Rightarrow> err + bytes" where
  "cut_entry b pos =
    (if pos < length b \<and> pos + 2 + unat (b ! pos) \<le> length b then Inr (take pos b @ drop (pos + 2 + unat (b ! pos)) b) else Inl Panic)"

section \<open>The partitioned band\<close>

partial_function (option) deriveP_loop :: "nat \<Rightarrow> nat \<Rightarrow> nat outcome" where
  "deriveP_loop p q = (if p < q then deriveP_loop (2 * p) q else ret p)"

definition deriveP :: "nat \<Rightarrow> nat \<Rightarrow> nat outcome" where
  "deriveP th n =
    (if th = 0 then panic
     else bindO (deriveP_loop 1 ((n + th - 1) div th)) (\<lambda>p. ret (if p < partFloorP then partFloorP else p)))"

fun bits_Len :: "nat \<Rightarrow> nat" where
  "bits_Len n = (if n = 0 then 0 else Suc (bits_Len (n div 2)))"

declare bits_Len.simps [simp del]

definition partOf :: "u64 \<Rightarrow> nat \<Rightarrow> nat" where
  "partOf hash p = (let lg = bits_Len p - 1 in unat (drop_bit (64 - lg) hash))"

fun make_parts :: "nat \<Rightarrow> nat \<Rightarrow> htable list outcome" where
  "make_parts per 0 = ret []"
| "make_parts per (Suc p) = bindO (newHashtable per) (\<lambda>h. bindO (make_parts per p) (\<lambda>hs. ret (h # hs)))"

definition pt_set :: "partitioned \<Rightarrow> nat \<Rightarrow> htable \<Rightarrow> partitioned" where
  "pt_set pt idx h = pt\<lparr>pt_parts := (pt_parts pt)[idx := h]\<rparr>"

definition pt_count :: "partitioned \<Rightarrow> nat \<Rightarrow> u64 \<Rightarrow> partitioned" where
  "pt_count pt idx d = pt\<lparr>pt_counts := (pt_counts pt)[idx := pt_counts pt ! idx + d], pt_total := pt_total pt + d\<rparr>"

text \<open>The routed insert shared by the redistribution and add: the sub-table's add, then the counts.\<close>

definition part_insert :: "nat \<Rightarrow> partitioned \<Rightarrow> bytes \<Rightarrow> (partitioned \<times> bool) outcome" where
  "part_insert p pt m =
    (let idx = partOf (Hash m) p in
     if idx < length (pt_parts pt) then
       bindO (ht_add (pt_parts pt ! idx) m) (\<lambda>(h, added).
         let pt = pt_set pt idx h in
         if \<not> added then ret (pt, False)
         else if idx < length (pt_counts pt) then ret (pt_count pt idx 1, True) else panic)
     else panic)"

fun drain_into :: "nat \<Rightarrow> partitioned \<Rightarrow> bytes list \<Rightarrow> partitioned outcome" where
  "drain_into p pt [] = ret pt"
| "drain_into p pt (m # ms) = bindO (part_insert p pt m) (\<lambda>(pt, added). drain_into p pt ms)"

definition buildPartitioned :: "nat \<Rightarrow> nat \<Rightarrow> bytes list \<Rightarrow> partitioned outcome" where
  "buildPartitioned p hint ms =
    (if p = 0 then panic
     else bindO (make_parts (hint div p + 1) p) (\<lambda>parts.
       drain_into p \<lparr>pt_parts = parts, pt_counts = replicate p 0, pt_total = 0, pt_pgen = 0\<rparr> ms))"

fun parts_each :: "htable list \<Rightarrow> err + bytes list" where
  "parts_each [] = Inr []"
| "parts_each (h # hs) = bindE (ht_each h) (\<lambda>ms. bindE (parts_each hs) (\<lambda>r. Inr (ms @ r)))"

definition part_each :: "partitioned \<Rightarrow> err + bytes list" where
  "part_each pt = parts_each (pt_parts pt)"

definition part_card :: "partitioned \<Rightarrow> nat" where
  "part_card pt = unat (pt_total pt)"

definition part_grow :: "partitioned \<Rightarrow> nat \<Rightarrow> partitioned outcome" where
  "part_grow pt newP =
    bindO (Some (part_each pt)) (\<lambda>ms.
      bindO (buildPartitioned newP (unat (pt_total pt)) ms) (\<lambda>np. ret (np\<lparr>pt_pgen := pt_pgen pt + 1\<rparr>)))"

definition part_add :: "nat \<Rightarrow> partitioned \<Rightarrow> bytes \<Rightarrow> (partitioned \<times> bool) outcome" where
  "part_add th pt m =
    bindO (part_insert (length (pt_parts pt)) pt m) (\<lambda>(pt, added).
      if \<not> added then ret (pt, False)
      else bindO (deriveP th (unat (pt_total pt))) (\<lambda>target.
        if target > length (pt_parts pt) then bindO (part_grow pt target) (\<lambda>pt. ret (pt, True)) else ret (pt, True)))"

definition part_rem :: "partitioned \<Rightarrow> bytes \<Rightarrow> (partitioned \<times> bool) outcome" where
  "part_rem pt m =
    (let idx = partOf (Hash m) (length (pt_parts pt)) in
     if idx < length (pt_parts pt) then
       bindO (ht_rem (pt_parts pt ! idx) m) (\<lambda>(h, removed).
         let pt = pt_set pt idx h in
         if \<not> removed then ret (pt, False)
         else if idx < length (pt_counts pt) then ret (pt_count pt idx (- 1), True) else panic)
     else panic)"

definition part_has :: "partitioned \<Rightarrow> bytes \<Rightarrow> bool outcome" where
  "part_has pt m =
    (let idx = partOf (Hash m) (length (pt_parts pt)) in
     if idx < length (pt_parts pt) then ht_has (pt_parts pt ! idx) m else panic)"

text \<open>The branchless scan of locate: the accumulators are end, start and the partition index.\<close>

fun locate_loop :: "u64 \<Rightarrow> u64 list \<Rightarrow> u64 \<Rightarrow> u64 \<Rightarrow> nat \<Rightarrow> nat \<times> u64" where
  "locate_loop r [] e start p = (p, r - start)"
| "locate_loop r (c # cs) e start p =
    (let e = e + c; mask = NOT (signed_drop_bit 63 (r - e)) in
     locate_loop r cs e (start + (c AND mask)) (p + unat (mask AND 1)))"

definition locate :: "partitioned \<Rightarrow> u64 \<Rightarrow> nat \<times> nat" where
  "locate pt r = (let (p, l) = locate_loop r (pt_counts pt) 0 0 0 in (p, unat l))"

definition part_at :: "partitioned \<Rightarrow> nat \<Rightarrow> err + bytes" where
  "part_at pt i =
    (let (p, l) = locate pt (of_nat i) in
     if p < length (pt_parts pt) then ht_at (pt_parts pt ! p) l else Inl Panic)"

definition partitionedSet :: "nat \<Rightarrow> htable \<Rightarrow> goset outcome" where
  "partitionedSet th h =
    bindO (deriveP th (ht_card h)) (\<lambda>p.
      bindO (Some (ht_each h)) (\<lambda>ms.
        bindO (buildPartitioned p (ht_card h) ms) (\<lambda>pt.
          ret ((zero_set encPartitioned)\<lparr>gs_part := Some (pt\<lparr>pt_pgen := 1\<rparr>)\<rparr>))))"

section \<open>The set over its bands\<close>

definition ht_of :: "goset \<Rightarrow> err + htable" where
  "ht_of s = (case gs_ht s of None \<Rightarrow> Inl Panic | Some h \<Rightarrow> Inr h)"

definition part_of :: "goset \<Rightarrow> err + partitioned" where
  "part_of s = (case gs_part s of None \<Rightarrow> Inl Panic | Some pt \<Rightarrow> Inr pt)"

definition set_card :: "goset \<Rightarrow> err + int" where
  "set_card s = (case gs_enc s of
      encIntset \<Rightarrow> Inr (int (intsetLen s))
    | encListpack \<Rightarrow> Inr (gs_n s)
    | encPartitioned \<Rightarrow> bindE (part_of s) (\<lambda>pt. Inr (int (part_card pt)))
    | encHashtable \<Rightarrow> bindE (ht_of s) (\<lambda>h. Inr (int (ht_card h))))"

definition set_has :: "goset \<Rightarrow> bytes \<Rightarrow> bool outcome" where
  "set_has s m = (case gs_enc s of
      encIntset \<Rightarrow> (case ParseInt m of None \<Rightarrow> ret False | Some v \<Rightarrow> ret (intsetHas s v))
    | encListpack \<Rightarrow> Some (bindE (listpackIndex s m) (\<lambda>i. Inr (i \<noteq> None)))
    | encPartitioned \<Rightarrow> bindO (Some (part_of s)) (\<lambda>pt. part_has pt m)
    | encHashtable \<Rightarrow> bindO (Some (ht_of s)) (\<lambda>h. ht_has h m))"

text \<open>each, as the members it visits in order.\<close>

definition set_each :: "goset \<Rightarrow> err + bytes list" where
  "set_each s = (case gs_enc s of
      encIntset \<Rightarrow> Inr (map (\<lambda>v. itoa (sint v)) (lanes (gs_data s)))
    | encListpack \<Rightarrow> lp_walk (gs_data s) 0
    | encPartitioned \<Rightarrow> bindE (part_of s) part_each
    | encHashtable \<Rightarrow> bindE (ht_of s) ht_each)"

fun add_all :: "htable \<Rightarrow> bytes list \<Rightarrow> htable outcome" where
  "add_all h [] = ret h"
| "add_all h (m # ms) = bindO (ht_add h m) (\<lambda>(h, added). add_all h ms)"

definition intsetToListpack :: "goset \<Rightarrow> goset" where
  "intsetToListpack s =
    fold (\<lambda>v s. appendListpack s (itoa (sint v))) (lanes (gs_data s)) (s\<lparr>gs_data := [], gs_enc := encListpack\<rparr>)"

definition intsetToHashtable :: "goset \<Rightarrow> goset outcome" where
  "intsetToHashtable s =
    bindO (newHashtable (intsetLen s + 1)) (\<lambda>h.
      bindO (add_all h (map (\<lambda>v. itoa (sint v)) (lanes (gs_data s)))) (\<lambda>h.
        ret (s\<lparr>gs_ht := Some h, gs_data := [], gs_enc := encHashtable\<rparr>)))"

definition listpackToHashtable :: "goset \<Rightarrow> goset outcome" where
  "listpackToHashtable s =
    bindO (newHashtable (nat (gs_n s + 1))) (\<lambda>h.
      bindO (Some (set_each s)) (\<lambda>ms. bindO (add_all h ms) (\<lambda>h.
        ret (s\<lparr>gs_ht := Some h, gs_data := [], gs_n := 0, gs_enc := encHashtable\<rparr>))))"

definition nativeToPartitioned :: "nat \<Rightarrow> goset \<Rightarrow> goset outcome" where
  "nativeToPartitioned th s =
    bindO (Some (ht_of s)) (\<lambda>h. bindO (partitionedSet th h) (\<lambda>ps.
      ret (s\<lparr>gs_part := gs_part ps, gs_ht := None, gs_enc := encPartitioned\<rparr>)))"

text \<open>s.ht.add(m) on a set that has a native table.\<close>

definition native_add :: "goset \<Rightarrow> bytes \<Rightarrow> (goset \<times> bool) outcome" where
  "native_add s m = bindO (Some (ht_of s)) (\<lambda>h. bindO (ht_add h m) (\<lambda>(h, added). ret (s\<lparr>gs_ht := Some h\<rparr>, added)))"

definition addListpack :: "goset \<Rightarrow> bytes \<Rightarrow> (goset \<times> bool) outcome" where
  "addListpack s m =
    bindO (Some (listpackIndex s m)) (\<lambda>i.
      if i \<noteq> None then ret (s, False)
      else if gs_n s + 1 > maxListpackEntries \<or> length m > maxListpackValue then
        bindO (listpackToHashtable s) (\<lambda>s. native_add s m)
      else ret (appendListpack s m, True))"

definition addIntset :: "goset \<Rightarrow> bytes \<Rightarrow> (goset \<times> bool) outcome" where
  "addIntset s m =
    (case ParseInt m of
       None \<Rightarrow>
         if int (intsetLen s) + 1 \<le> maxListpackEntries \<and> length m \<le> maxListpackValue then addListpack (intsetToListpack s) m
         else bindO (intsetToHashtable s) (\<lambda>s. native_add s m)
     | Some v \<Rightarrow>
         (let n = intsetLen s; i = lane_search s v in
          if i < n \<and> intLaneAt (gs_data s) i = v then ret (s, False)
          else if n + 1 > maxIntsetEntries then bindO (intsetToHashtable s) (\<lambda>s. native_add s m)
          else ret (s\<lparr>gs_data := insert_lane (gs_data s) i v\<rparr>, True)))"

definition set_add :: "nat \<Rightarrow> goset \<Rightarrow> bytes \<Rightarrow> (goset \<times> bool) outcome" where
  "set_add th s m = (case gs_enc s of
      encIntset \<Rightarrow> addIntset s m
    | encListpack \<Rightarrow> addListpack s m
    | encPartitioned \<Rightarrow>
        bindO (Some (part_of s)) (\<lambda>pt. bindO (part_add th pt m) (\<lambda>(pt, added). ret (s\<lparr>gs_part := Some pt\<rparr>, added)))
    | encHashtable \<Rightarrow>
        bindO (native_add s m) (\<lambda>(s, added). bindO (Some (ht_of s)) (\<lambda>h.
          if added \<and> ht_card h \<ge> th then bindO (nativeToPartitioned th s) (\<lambda>s. ret (s, added)) else ret (s, added))))"

definition set_rem :: "goset \<Rightarrow> bytes \<Rightarrow> (goset \<times> bool) outcome" where
  "set_rem s m = (case gs_enc s of
      encIntset \<Rightarrow>
        (case ParseInt m of None \<Rightarrow> ret (s, False) | Some v \<Rightarrow>
          (let n = intsetLen s; i = lane_search s v in
           if i \<ge> n \<or> intLaneAt (gs_data s) i \<noteq> v then ret (s, False)
           else ret (s\<lparr>gs_data := remove_lane (gs_data s) i\<rparr>, True)))
    | encListpack \<Rightarrow>
        bindO (Some (listpackIndex s m)) (\<lambda>r. case r of None \<Rightarrow> ret (s, False) | Some i \<Rightarrow>
          bindO (Some (cut_entry (gs_data s) i)) (\<lambda>d. ret (s\<lparr>gs_data := d, gs_n := gs_n s - 1\<rparr>, True)))
    | encPartitioned \<Rightarrow>
        bindO (Some (part_of s)) (\<lambda>pt. bindO (part_rem pt m) (\<lambda>(pt, removed). ret (s\<lparr>gs_part := Some pt\<rparr>, removed)))
    | encHashtable \<Rightarrow>
        bindO (Some (ht_of s)) (\<lambda>h. bindO (ht_rem h m) (\<lambda>(h, removed). ret (s\<lparr>gs_ht := Some h\<rparr>, removed))))"

definition set_at :: "goset \<Rightarrow> nat \<Rightarrow> err + bytes" where
  "set_at s i = (case gs_enc s of
      encIntset \<Rightarrow> if i * 8 + 8 \<le> length (gs_data s) then Inr (itoa (sint (intLaneAt (gs_data s) i))) else Inl Panic
    | encListpack \<Rightarrow>
        bindE (lp_skip (gs_data s) i 0) (\<lambda>pos.
          if pos < length (gs_data s) then slice (gs_data s) (pos + 2) (pos + 2 + unat (gs_data s ! pos)) else Inl Panic)
    | encPartitioned \<Rightarrow> bindE (part_of s) (\<lambda>pt. part_at pt i)
    | encHashtable \<Rightarrow> bindE (ht_of s) (\<lambda>h. ht_at h i))"

definition remAt :: "goset \<Rightarrow> nat \<Rightarrow> bytes \<Rightarrow> goset outcome" where
  "remAt s i m = (case gs_enc s of
      encIntset \<Rightarrow> if (i + 1) * 8 \<le> length (gs_data s) then ret (s\<lparr>gs_data := remove_lane (gs_data s) i\<rparr>) else panic
    | encListpack \<Rightarrow>
        bindO (Some (lp_skip (gs_data s) i 0)) (\<lambda>pos.
          bindO (Some (cut_entry (gs_data s) pos)) (\<lambda>d. ret (s\<lparr>gs_data := d, gs_n := gs_n s - 1\<rparr>)))
    | _ \<Rightarrow> bindO (set_rem s m) (\<lambda>(s, removed). ret s))"

text \<open>popOne at the drawn index.\<close>

definition popAt :: "goset \<Rightarrow> nat \<Rightarrow> (goset \<times> bytes) outcome" where
  "popAt s i = bindO (Some (set_at s i)) (\<lambda>m. bindO (remAt s i m) (\<lambda>s. ret (s, m)))"

end
