(* ===== verification/InlineSets.thy ===== *)
theory InlineSets
  imports SetBands
begin

unbundle bit_operations_syntax

text \<open>
  The two packed bands of a small set as lists: the lanes of an intset and the entries of a
  listpack, the binary search over the first and the scan over the second.
\<close>

section \<open>Binary search\<close>

definition first_true :: "(nat \<Rightarrow> bool) \<Rightarrow> nat \<Rightarrow> nat \<Rightarrow> bool" where
  "first_true f n r \<longleftrightarrow> r \<le> n \<and> (\<forall>k < r. \<not> f k) \<and> (\<forall>k. r \<le> k \<and> k < n \<longrightarrow> f k)"

lemma Search_loop_step:
  "i < j \<Longrightarrow> h = (i + j) div 2 \<Longrightarrow> Search_loop f i j = (if f h then Search_loop f i h else Search_loop f (h + 1) j)"
  by (simp add: Search_loop.simps [of f i j] Let_def)

lemma Search_loop_spec:
  assumes "\<forall>a b. a \<le> b \<and> b < n \<and> f a \<longrightarrow> f b"
    and "i \<le> j" "j \<le> n" "\<forall>k < i. \<not> f k" "\<forall>k. j \<le> k \<and> k < n \<longrightarrow> f k"
  shows "first_true f n (Search_loop f i j)"
  using assms
proof (induction f i j rule: Search_loop.induct [case_names step])
  case (step f i j)
  show ?case
  proof (cases "i < j")
    case True
    define h where "h = (i + j) div 2"
    have h: "i \<le> h" "h < j" using True by (auto simp: h_def)
    show ?thesis
    proof (cases "f h")
      case fh: True
      have "\<forall>k. h \<le> k \<and> k < n \<longrightarrow> f k" using step.prems(1) fh by blast
      then have "first_true f n (Search_loop f i h)"
        using step.IH(2) [OF True h_def] fh h step.prems(1,3,4) by auto
      then show ?thesis by (simp only: Search_loop_step [OF True h_def] fh if_True)
    next
      case fh: False
      have "\<not> f k" if "k < h + 1" for k
        using step.prems(1,3) fh h that by (metis less_Suc_eq_le Suc_eq_plus1 order.strict_trans2)
      then have "first_true f n (Search_loop f (h + 1) j)"
        using step.IH(1) [OF True h_def] fh h step.prems(1,3,5) by auto
      then show ?thesis by (simp only: Search_loop_step [OF True h_def] fh if_False)
    qed
  next
    case False
    then have ij: "i = j" using step.prems(2) by simp
    have e: "Search_loop f i j = j" by (subst Search_loop.simps) (simp add: ij)
    have a: "\<forall>k < j. \<not> f k" using step.prems(4) unfolding ij .
    show ?thesis unfolding e first_true_def by (intro conjI step.prems(3) a step.prems(5))
  qed
qed

lemma Search_spec:
  assumes "\<And>a b. a \<le> b \<Longrightarrow> b < n \<Longrightarrow> f a \<Longrightarrow> f b"
  shows "Search n f \<le> n" "k < Search n f \<Longrightarrow> \<not> f k" "Search n f \<le> k \<Longrightarrow> k < n \<Longrightarrow> f k"
proof -
  have "\<forall>a b. a \<le> b \<and> b < n \<and> f a \<longrightarrow> f b" using assms by blast
  then have "first_true f n (Search n f)" unfolding Search_def by (rule Search_loop_spec) auto
  then show "Search n f \<le> n" "k < Search n f \<Longrightarrow> \<not> f k" "Search n f \<le> k \<Longrightarrow> k < n \<Longrightarrow> f k"
    unfolding first_true_def by blast+
qed

section \<open>Lanes\<close>

definition pack_lanes :: "i64 list \<Rightarrow> bytes" where
  "pack_lanes vs = concat (map (le_bytes 8) vs)"

lemma pack_lanes_simps [simp]:
  "pack_lanes [] = []" "pack_lanes (v # vs) = le_bytes 8 v @ pack_lanes vs" "pack_lanes (us @ vs) = pack_lanes us @ pack_lanes vs"
  by (simp_all add: pack_lanes_def)

lemma length_pack_lanes [simp]: "length (pack_lanes vs) = 8 * length vs"
  by (induction vs) auto

lemma take_pack_lanes: "take (i * 8) (pack_lanes vs) = pack_lanes (take i vs)"
proof (induction vs arbitrary: i)
  case (Cons v vs)
  then show ?case by (cases i) (simp_all add: algebra_simps)
qed simp

lemma drop_pack_lanes: "drop (i * 8) (pack_lanes vs) = pack_lanes (drop i vs)"
proof (induction vs arbitrary: i)
  case (Cons v vs)
  then show ?case by (cases i) (simp_all add: algebra_simps)
qed simp

lemma intLaneAt_pack [simp]:
  assumes "i < length vs" shows "intLaneAt (pack_lanes vs) i = vs ! i"
proof -
  have "sub (pack_lanes vs) (i * 8) 8 = take 8 (pack_lanes (drop i vs))" by (simp add: sub_def drop_pack_lanes)
  also have "\<dots> = le_bytes 8 (vs ! i)" using assms by (simp add: Cons_nth_drop_Suc [symmetric])
  finally show ?thesis by (simp add: intLaneAt_def Uint64_def)
qed

lemma lanes_pack [simp]: "lanes (pack_lanes vs) = vs"
  by (rule nth_equalityI) (simp_all add: lanes_def)

lemma put_gap:
  assumes "length z = n" shows "put (a @ b @ z) (length a + n) (b @ z) = a @ take n (b @ z) @ b"
  using assms by (simp add: put_def)

lemma insert_lane_pack:
  assumes "i \<le> length vs"
  shows "insert_lane (pack_lanes vs) i v = pack_lanes (take i vs @ v # drop i vs)"
proof -
  define a b and z :: bytes where "a = pack_lanes (take i vs)" and "b = pack_lanes (drop i vs)" and "z = replicate 8 0"
  have vs: "pack_lanes vs = a @ b" unfolding a_def b_def by (metis append_take_drop_id pack_lanes_simps(3))
  have l: "length a = i * 8" "length z = 8" using assms by (simp_all add: a_def z_def)
  have "put (a @ b @ z) ((i + 1) * 8) (drop (i * 8) (a @ b @ z)) = a @ take 8 (b @ z) @ b"
    using put_gap [OF l(2), of a b] l(1) by (simp add: algebra_simps)
  moreover have "put (a @ take 8 (b @ z) @ b) (i * 8) (le_bytes 8 v) = a @ le_bytes 8 v @ b"
    using l by (subst put_in) auto
  ultimately show ?thesis
    unfolding insert_lane_def Let_def PutUint64_def vs z_def [symmetric] append_assoc by (simp add: a_def b_def)
qed

lemma remove_lane_pack: "i < length vs \<Longrightarrow> remove_lane (pack_lanes vs) i = pack_lanes (take i vs @ drop (Suc i) vs)"
  using take_pack_lanes [of i vs] drop_pack_lanes [of "i + 1" vs] by (simp add: remove_lane_def)

section \<open>Sorted lanes\<close>

definition ints_sorted :: "i64 list \<Rightarrow> bool" where
  "ints_sorted vs = sorted_wrt (<) (map sint vs)"

lemma ints_sorted_nth: "ints_sorted vs \<Longrightarrow> i < j \<Longrightarrow> j < length vs \<Longrightarrow> sint (vs ! i) < sint (vs ! j)"
  by (auto simp: ints_sorted_def sorted_wrt_iff_nth_less)

lemma ints_sorted_distinct: "ints_sorted vs \<Longrightarrow> distinct (map sint vs)"
  by (simp add: ints_sorted_def strict_sorted_iff)

text \<open>The lane the search lands on: the first that is not below v.\<close>

lemma lane_search_spec:
  fixes v
  assumes "gs_data s = pack_lanes vs" "ints_sorted vs"
  defines "r \<equiv> lane_search s v"
  shows "r \<le> length vs" "k < r \<Longrightarrow> sint (vs ! k) < sint v" "r \<le> k \<Longrightarrow> k < length vs \<Longrightarrow> sint v \<le> sint (vs ! k)"
    "r < length vs \<and> vs ! r = v \<longleftrightarrow> v \<in> set vs"
proof -
  let ?f = "\<lambda>i. sint v \<le> sint (intLaneAt (gs_data s) i)"
  have n: "intsetLen s = length vs" by (simp add: intsetLen_def assms(1))
  have mono: "?f b" if "a \<le> b" "b < length vs" "?f a" for a b
    using that ints_sorted_nth [OF assms(2), of a b] by (cases "a = b") (auto simp: assms(1))
  have r: "r = Search (length vs) ?f" by (simp add: r_def lane_search_def n)
  show 1: "r \<le> length vs" unfolding r by (rule Search_spec(1)) (rule mono)
  show 2: "sint (vs ! k) < sint v" if "k < r" for k
    using Search_spec(2) [of "length vs" ?f k] mono that 1 by (auto simp: r assms(1) not_le)
  show 3: "sint v \<le> sint (vs ! k)" if "r \<le> k" "k < length vs" for k
    using Search_spec(3) [of "length vs" ?f k] mono that by (auto simp: r assms(1))
  show "r < length vs \<and> vs ! r = v \<longleftrightarrow> v \<in> set vs"
  proof
    assume "v \<in> set vs"
    then obtain k where k: "k < length vs" "vs ! k = v" by (auto simp: in_set_conv_nth)
    then have rk: "r \<le> k" using 2 [of k] by (cases "k < r") auto
    have "sint v \<le> sint (vs ! r)" using 3 [of r] rk k by simp
    moreover have "r = k \<or> sint (vs ! r) < sint v" using ints_sorted_nth [OF assms(2), of r k] rk k by (cases "r = k") auto
    ultimately show "r < length vs \<and> vs ! r = v" using k rk by auto
  qed auto
qed

lemma ints_sorted_insert:
  assumes "gs_data s = pack_lanes vs" "ints_sorted vs" "v \<notin> set vs"
  shows "ints_sorted (take (lane_search s v) vs @ v # drop (lane_search s v) vs)"
proof -
  let ?r = "lane_search s v"
  note sp = lane_search_spec [OF assms(1,2), where v = v]
  have a: "\<forall>x \<in> set (take ?r vs). sint x < sint v" using sp(1,2) by (auto simp: in_set_conv_nth)
  have b: "\<forall>x \<in> set (drop ?r vs). sint v < sint x"
  proof
    fix x assume x: "x \<in> set (drop ?r vs)"
    then have "sint v \<le> sint x" using sp(3) by (auto simp: in_set_conv_nth)
    moreover have "x \<noteq> v" using x assms(3) by (metis in_set_dropD)
    ultimately show "sint v < sint x" using signed_word_eqI [of v x] by (simp add: order_less_le) blast
  qed
  have "sorted_wrt (<) (map sint (take ?r vs @ drop ?r vs))" using assms(2) by (simp add: ints_sorted_def)
  then have srt: "sorted_wrt (<) (map sint (take ?r vs))" "sorted_wrt (<) (map sint (drop ?r vs))"
    by (simp_all only: map_append sorted_wrt_append)
  have ab: "\<forall>x \<in> set (map sint (take ?r vs)). x < sint v" "\<forall>y \<in> set (map sint (drop ?r vs)). sint v < y"
    using a b by simp_all
  then have "\<forall>x \<in> set (map sint (take ?r vs)). \<forall>y \<in> set (sint v # map sint (drop ?r vs)). x < y"
    by (intro ballI) (auto dest: order.strict_trans [of _ "sint v"])
  then show ?thesis using srt ab(2) unfolding ints_sorted_def map_append list.map sorted_wrt_append sorted_wrt.simps by blast
qed

lemma ints_sorted_remove: "ints_sorted vs \<Longrightarrow> ints_sorted (take i vs @ drop (Suc i) vs)"
  unfolding ints_sorted_def
proof -
  assume s: "sorted_wrt (<) (map sint vs)"
  have "sorted_wrt (<) (take i (map sint vs) @ drop i (map sint vs))" using s by simp
  moreover have "set (drop (Suc i) (map sint vs)) \<subseteq> set (drop i (map sint vs))" by (simp add: set_drop_subset_set_drop)
  moreover have "sorted_wrt (<) (drop (Suc i) (map sint vs))" using s by (rule sorted_wrt_drop)
  ultimately show "sorted_wrt (<) (map sint (take i vs @ drop (Suc i) vs))"
    unfolding map_append take_map [symmetric] drop_map [symmetric] sorted_wrt_append by blast
qed

section \<open>Listpack entries\<close>

definition lp_entry :: "bytes \<Rightarrow> bytes" where
  "lp_entry m = [of_nat (length m), lp_tag m] @ m"

definition lp_pack :: "bytes list \<Rightarrow> bytes" where
  "lp_pack ms = concat (map lp_entry ms)"

abbreviation short :: "bytes list \<Rightarrow> bool" where
  "short ms \<equiv> \<forall>m \<in> set ms. length m \<le> 64"

lemma lp_pack_simps [simp]:
  "lp_pack [] = []" "lp_pack (m # ms) = lp_entry m @ lp_pack ms" "lp_pack (us @ ms) = lp_pack us @ lp_pack ms"
  by (simp_all add: lp_pack_def)

lemma length_lp_entry [simp]: "length (lp_entry m) = length m + 2"
  by (simp add: lp_entry_def)

lemma lp_head:
  assumes "length m \<le> 64"
  shows "unat ((pre @ lp_entry m @ post) ! length pre) = length m" "(pre @ lp_entry m @ post) ! (length pre + 1) = lp_tag m"
    "slice (pre @ lp_entry m @ post) (length pre + 2) (length pre + 2 + length m) = Inr m"
proof -
  show "unat ((pre @ lp_entry m @ post) ! length pre) = length m"
    using assms by (simp add: lp_entry_def nth_append unat_of_nat)
  show "(pre @ lp_entry m @ post) ! (length pre + 1) = lp_tag m"
    by (simp add: lp_entry_def nth_append)
  have "sub (pre @ lp_entry m @ post) (length pre + 2) (length m) = m"
    by (simp add: sub_def lp_entry_def)
  then show "slice (pre @ lp_entry m @ post) (length pre + 2) (length pre + 2 + length m) = Inr m" by simp
qed

lemma lp_walk_pack: "short ms \<Longrightarrow> lp_walk (pre @ lp_pack ms) (length pre) = Inr ms"
proof (induction ms arbitrary: pre)
  case (Cons m ms)
  have m: "length m \<le> 64" using Cons.prems by simp
  have "lp_walk ((pre @ lp_entry m) @ lp_pack ms) (length (pre @ lp_entry m)) = Inr ms" using Cons.prems by (intro Cons.IH) simp
  then have "lp_walk (pre @ lp_entry m @ lp_pack ms) (length pre + 2 + length m) = Inr ms" by (simp add: algebra_simps)
  then show ?case using lp_head [OF m, of pre "lp_pack ms"]
    by (subst lp_walk.simps) (simp add: Let_def)
qed (simp add: lp_walk.simps)

lemma lp_find_pack:
  "short ms \<Longrightarrow> lp_find (pre @ lp_pack ms) m (length pre) =
     Inr (if m \<in> set ms then Some (length pre + length (lp_pack (takeWhile (\<lambda>e. e \<noteq> m) ms))) else None)"
proof (induction ms arbitrary: pre)
  case (Cons e ms)
  have e: "length e \<le> 64" using Cons.prems by simp
  have "lp_find ((pre @ lp_entry e) @ lp_pack ms) m (length (pre @ lp_entry e)) =
      Inr (if m \<in> set ms then Some (length (pre @ lp_entry e) + length (lp_pack (takeWhile (\<lambda>e. e \<noteq> m) ms))) else None)"
    using Cons.prems by (intro Cons.IH) simp
  then have "lp_find (pre @ lp_entry e @ lp_pack ms) m (length pre + 2 + length e) =
      Inr (if m \<in> set ms then Some (length pre + (length e + 2) + length (lp_pack (takeWhile (\<lambda>e. e \<noteq> m) ms))) else None)"
    by (simp add: algebra_simps)
  then show ?case using lp_head [OF e, of pre "lp_pack ms"]
    by (subst lp_find.simps) (auto simp: Let_def)
qed (simp add: lp_find.simps)

lemma lp_skip_pack:
  "short ms \<Longrightarrow> k \<le> length ms \<Longrightarrow> lp_skip (pre @ lp_pack ms) k (length pre) = Inr (length pre + length (lp_pack (take k ms)))"
proof (induction ms arbitrary: k pre)
  case (Cons m ms)
  show ?case
  proof (cases k)
    case (Suc k')
    have m: "length m \<le> 64" using Cons.prems by simp
    have "lp_skip ((pre @ lp_entry m) @ lp_pack ms) k' (length (pre @ lp_entry m)) = Inr (length (pre @ lp_entry m) + length (lp_pack (take k' ms)))"
      using Cons.prems Suc by (intro Cons.IH) simp_all
    then have "lp_skip (pre @ lp_entry m @ lp_pack ms) k' (length pre + 2 + length m) = Inr (length pre + (length m + 2) + length (lp_pack (take k' ms)))"
      by (simp add: algebra_simps)
    then show ?thesis using lp_head(1) [OF m, of pre "lp_pack ms"] Suc by simp
  qed simp
qed simp

lemma lp_split: "k < length ms \<Longrightarrow> lp_pack ms = lp_pack (take k ms) @ lp_entry (ms ! k) @ lp_pack (drop (Suc k) ms)"
  by (metis id_take_nth_drop lp_pack_simps(2,3))

lemma lp_entry_at:
  assumes "short ms" "k < length ms"
  shows "length (lp_pack (take k ms)) < length (lp_pack ms)"
    "unat (lp_pack ms ! length (lp_pack (take k ms))) = length (ms ! k)"
    "slice (lp_pack ms) (length (lp_pack (take k ms)) + 2) (length (lp_pack (take k ms)) + 2 + length (ms ! k)) = Inr (ms ! k)"
    "cut_entry (lp_pack ms) (length (lp_pack (take k ms))) = Inr (lp_pack (take k ms @ drop (Suc k) ms))"
proof -
  have m: "length (ms ! k) \<le> 64" using assms by simp
  note e = lp_split [OF assms(2)]
  note hd = lp_head [OF m, of "lp_pack (take k ms)" "lp_pack (drop (Suc k) ms)", folded e]
  show 1: "length (lp_pack (take k ms)) < length (lp_pack ms)" using arg_cong [OF e, of length] by simp
  show 2: "unat (lp_pack ms ! length (lp_pack (take k ms))) = length (ms ! k)" by (rule hd(1))
  show "slice (lp_pack ms) (length (lp_pack (take k ms)) + 2) (length (lp_pack (take k ms)) + 2 + length (ms ! k)) = Inr (ms ! k)"
    by (rule hd(3))
  have l: "length (lp_pack ms) = length (lp_pack (take k ms)) + 2 + length (ms ! k) + length (lp_pack (drop (Suc k) ms))"
    using arg_cong [OF e, of length] by simp
  have "take (length (lp_pack (take k ms))) (lp_pack ms) = lp_pack (take k ms)"
    using arg_cong [OF e, of "take (length (lp_pack (take k ms)))"] by simp
  moreover have "drop (length (lp_pack (take k ms)) + 2 + length (ms ! k)) (lp_pack ms) = lp_pack (drop (Suc k) ms)"
    using arg_cong [OF e, of "drop (length (lp_pack (take k ms)) + 2 + length (ms ! k))"] by simp
  ultimately show "cut_entry (lp_pack ms) (length (lp_pack (take k ms))) = Inr (lp_pack (take k ms @ drop (Suc k) ms))"
    using 1 l by (simp add: cut_entry_def 2)
qed

lemma takeWhile_take:
  assumes "m \<in> set ms"
  obtains k where "k < length ms" "ms ! k = m" "takeWhile (\<lambda>e. e \<noteq> m) ms = take k ms"
proof -
  let ?k = "length (takeWhile (\<lambda>e. e \<noteq> m) ms)"
  have "?k < length ms" using assms by (metis (mono_tags, lifting) le_neq_implies_less length_takeWhile_le takeWhile_eq_all_conv takeWhile_eq_take take_all_iff)
  then have "ms ! ?k = m" by (metis (mono_tags, lifting) nth_length_takeWhile)
  then show ?thesis using that \<open>?k < length ms\<close> takeWhile_eq_take by metis
qed

end
