(* ===== verification/SetParts.thy ===== *)
theory SetParts
  imports InlineSets
begin

unbundle bit_operations_syntax

text \<open>
  The partitioned band: the routing by the top hash bits, the redistribution, and the branchless
  weighted draw, against the concatenation of the partitions' members.
\<close>

section \<open>Room\<close>

text \<open>
  What the 16-bit member length, the 32-bit slab offsets and the 32-bit table sizes leave room for:
  wb bounds the slab bytes and wr the records in use.
\<close>

definition fits :: "nat \<Rightarrow> nat \<Rightarrow> bytes list \<Rightarrow> bool" where
  "fits wb wr ms \<longleftrightarrow> (\<forall>m \<in> set ms. length m < 65536) \<and> wb + length (concat ms) < 2 ^ 32 \<and> wr + length ms \<le> 7 * 2 ^ 26"

abbreviation slab_w :: "htable \<Rightarrow> nat" where "slab_w h \<equiv> length (ht_slab h)"
abbreviation recs_w :: "htable \<Rightarrow> nat" where "recs_w h \<equiv> length (ht_recs h)"

lemma fits_mono: "fits wb wr ms \<Longrightarrow> wb' \<le> wb \<Longrightarrow> wr' \<le> wr \<Longrightarrow> fits wb' wr' ms"
  by (auto simp: fits_def)

lemma fits_hd: "fits wb wr (m # ms) \<Longrightarrow> fits wb wr [m]"
  by (auto simp: fits_def)

lemma fits_tl: "fits wb wr (m # ms) \<Longrightarrow> wb' \<le> wb + length m \<Longrightarrow> wr' \<le> wr + 1 \<Longrightarrow> fits wb' wr' ms"
  by (auto simp: fits_def)

lemma fits_room:
  assumes "ht_inv h" "fits (slab_w h) (recs_w h) [m]" shows "ht_room h m"
  using assms wf_lengths [of h] by (auto simp: fits_def ht_room_def ht_inv_def)

text \<open>The members of a native table, and what they weigh.\<close>

lemma contents_short: "ht_inv h \<Longrightarrow> m \<in> set (contents h) \<Longrightarrow> length m < 65536"
proof -
  assume h: "ht_inv h" and m: "m \<in> set (contents h)"
  then obtain ord where "ord \<in> set (ht_vec h)" "m = rec_bytes h ord" by (auto simp: contents_def)
  then have "length m = unat (mr_mlen (ht_recs h ! unat ord))" using length_rec_bytes [of h ord] h by (simp add: ht_inv_def)
  moreover have "unat w < 65536" for w :: u16 using unsigned_less [of w] by simp
  ultimately show ?thesis by simp
qed

lemma contents_weight:
  assumes "ht_inv h"
  shows "length (concat (contents h)) \<le> slab_w h" "length (contents h) \<le> recs_w h"
proof -
  have w: "ht_wf h" using assms by (simp add: ht_inv_def)
  have "int (length (concat (contents h))) = live_bytes h"
    unfolding contents_def int_length_concat live_bytes_def
    by (intro arg_cong [where f = sum_list] map_cong) (simp_all add: length_rec_bytes [OF w])
  moreover have "ht_dead h = int (slab_w h) - live_bytes h" "0 \<le> ht_dead h" using w by (simp_all add: ht_wf_def)
  ultimately show "length (concat (contents h)) \<le> slab_w h" by linarith
  show "length (contents h) \<le> recs_w h" using wf_lengths [OF w] by (simp add: contents_def)
qed

lemma ht_each_spec: "ht_inv h \<Longrightarrow> ht_each h = Inr (contents h)"
  by (simp add: ht_each_def contents_def members_of_wf ht_inv_def)

lemma ht_at_spec: "ht_inv h \<Longrightarrow> i < length (contents h) \<Longrightarrow> ht_at h i = Inr (contents h ! i)"
  by (simp add: ht_at_def ordAt_def contents_def wf_rec ht_inv_def)

section \<open>Routing\<close>

lemma bits_Len_pow: "bits_Len (2 ^ k) = Suc k"
  by (induction k) (simp_all add: bits_Len.simps [of "2 ^ _"] bits_Len.simps [of "2 * 2 ^ _"] bits_Len.simps [of "Suc 0"] bits_Len.simps [of 0])

lemma partOf_less:
  assumes "p = 2 ^ k" "k \<le> 64" shows "partOf h p < p"
proof -
  have "unat h < 2 ^ k * 2 ^ (64 - k)" using assms(2) unsigned_less [of h] by (simp add: power_add [symmetric])
  then have "unat h div 2 ^ (64 - k) < 2 ^ k" by (rule less_mult_imp_div_less)
  then have "drop_bit (64 - k) (unat h) < 2 ^ k" by (simp only: drop_bit_eq_div)
  then show ?thesis by (simp add: partOf_def assms(1) bits_Len_pow unat_drop_bit_eq)
qed

lemma deriveP_loop_returns:
  assumes "q \<le> 2 ^ b" "a \<le> b"
  shows "\<exists>k. deriveP_loop (2 ^ a) q = ret (2 ^ k) \<and> a \<le> k \<and> k \<le> b \<and> q \<le> 2 ^ k \<and> (k = a \<or> 2 ^ k < 2 * q)"
  using assms(2)
proof (induction "b - a" arbitrary: a)
  case 0
  then have "a = b" by simp
  then show ?case using assms(1) by (auto simp: deriveP_loop.simps)
next
  case (Suc d)
  show ?case
  proof (cases "2 ^ a < q")
    case True
    have "\<exists>k. deriveP_loop (2 ^ Suc a) q = ret (2 ^ k) \<and> Suc a \<le> k \<and> k \<le> b \<and> q \<le> 2 ^ k \<and> (k = Suc a \<or> 2 ^ k < 2 * q)"
      using Suc.hyps(2) by (intro Suc.hyps(1)) auto
    then show ?thesis using True by (subst deriveP_loop.simps) auto
  next
    case False
    then show ?thesis using Suc.prems by (subst deriveP_loop.simps) (auto intro: exI [of _ a])
  qed
qed

lemma deriveP_spec:
  assumes "0 < th" "n \<le> 2 ^ 30"
  obtains k where "deriveP th n = ret (2 ^ k)" "2 \<le> k" "k \<le> 30" "n \<le> th * 2 ^ k" "k = 2 \<or> th * 2 ^ k < 2 * n + 2 * th"
proof -
  define q where "q = (n + th - 1) div th"
  have nq: "n \<le> th * q" "th * q < n + th"
  proof -
    have "n + th - 1 < th * q + th" unfolding q_def using assms(1) by (metis add.commute dividend_less_times_div mult.commute mult_Suc_right)
    then show "n \<le> th * q" by simp
    have "th * q \<le> n + th - 1" unfolding q_def by (simp add: times_div_less_eq_dividend)
    then show "th * q < n + th" using assms(1) by linarith
  qed
  have "q \<le> n"
  proof (cases "n = 0")
    case False
    have "n + th - 1 \<le> n * th" using assms(1) False by (cases n; cases th) auto
    then have "q \<le> n * th div th" unfolding q_def by (rule div_le_mono)
    then show ?thesis using assms(1) by simp
  qed (use assms(1) in \<open>simp add: q_def\<close>)
  then have "q \<le> 2 ^ 30" using assms(2) by simp
  from deriveP_loop_returns [OF this, of 0]
  obtain k where k: "deriveP_loop 1 q = ret (2 ^ k)" "k \<le> 30" "q \<le> 2 ^ k" "k = 0 \<or> 2 ^ k < 2 * q" by auto
  have qk: "n \<le> th * 2 ^ k" using order.trans [OF nq(1) mult_le_mono2 [OF k(3)]] .
  show ?thesis
  proof (cases "2 \<le> k")
    case True
    then have "(4 :: nat) \<le> 2 ^ k" using power_increasing [of 2 k "2 :: nat"] by simp
    then have "deriveP th n = ret (2 ^ k)" using k(1) assms(1) by (simp add: deriveP_def q_def)
    moreover have "th * 2 ^ k < th * (2 * q)" using k(4) True assms(1) by simp
    then have "th * 2 ^ k < 2 * (th * q)" by (simp only: mult.left_commute)
    then have "th * 2 ^ k < 2 * n + 2 * th" using nq(2) by linarith
    ultimately show ?thesis using that [of k] True k(2) qk by blast
  next
    case False
    then have "(2 :: nat) ^ k < 4" using power_strict_increasing [of k 2 "2 :: nat"] by simp
    then have "deriveP th n = ret (2 ^ 2)" using k(1) assms(1) by (simp add: deriveP_def q_def)
    moreover have "n \<le> th * 2 ^ 2" using order.trans [OF qk mult_le_mono2 [of "2 ^ k" 4 th]] \<open>(2 :: nat) ^ k < 4\<close> by simp
    ultimately show ?thesis using that [of 2] by simp
  qed
qed

section \<open>Invariant\<close>

definition part_ok :: "nat \<Rightarrow> nat \<Rightarrow> htable \<Rightarrow> u64 \<Rightarrow> bool" where
  "part_ok p i h c \<longleftrightarrow> ht_inv h \<and> unat c = length (contents h) \<and> (\<forall>m \<in> set (contents h). partOf (Hash m) p = i)"

definition part_members :: "partitioned \<Rightarrow> bytes list" where
  "part_members pt = concat (map contents (pt_parts pt))"

abbreviation parts_w :: "(htable \<Rightarrow> nat) \<Rightarrow> partitioned \<Rightarrow> nat" where
  "parts_w w pt \<equiv> sum_list (map w (pt_parts pt))"

definition part_core :: "partitioned \<Rightarrow> bool" where
  "part_core pt \<longleftrightarrow> (\<exists>k. length (pt_parts pt) = 2 ^ k \<and> 2 \<le> k \<and> k \<le> 30) \<and> length (pt_counts pt) = length (pt_parts pt)
     \<and> (\<forall>i < length (pt_parts pt). part_ok (length (pt_parts pt)) i (pt_parts pt ! i) (pt_counts pt ! i))
     \<and> unat (pt_total pt) = length (part_members pt)"

text \<open>The generation counts the splits: each at least doubles the number of partitions.\<close>

definition part_inv :: "nat \<Rightarrow> partitioned \<Rightarrow> bool" where
  "part_inv th pt \<longleftrightarrow> part_core pt \<and> 1 \<le> unat (pt_pgen pt) \<and> 2 ^ (unat (pt_pgen pt) + 1) \<le> length (pt_parts pt)
     \<and> (length (pt_parts pt) = 4 \<or> th * length (pt_parts pt) < 14 * 2 ^ 26 + 2 * th)"

lemma part_coreD:
  assumes "part_core pt"
  shows "length (pt_counts pt) = length (pt_parts pt)" "partOf w (length (pt_parts pt)) < length (pt_parts pt)"
    "i < length (pt_parts pt) \<Longrightarrow> ht_inv (pt_parts pt ! i)"
    "i < length (pt_parts pt) \<Longrightarrow> unat (pt_counts pt ! i) = length (contents (pt_parts pt ! i))"
    "i < length (pt_parts pt) \<Longrightarrow> m \<in> set (contents (pt_parts pt ! i)) \<Longrightarrow> partOf (Hash m) (length (pt_parts pt)) = i"
    "h \<in> set (pt_parts pt) \<Longrightarrow> ht_inv h"
    "unat (pt_total pt) = length (part_members pt)"
proof -
  obtain k where "length (pt_parts pt) = 2 ^ k" "k \<le> 30" using assms by (auto simp: part_core_def)
  then show "partOf w (length (pt_parts pt)) < length (pt_parts pt)" using partOf_less [of _ k w] by simp
qed (use assms in \<open>auto simp: part_core_def part_ok_def in_set_conv_nth\<close>)

lemma part_members_iff:
  assumes "part_core pt"
  shows "m \<in> set (part_members pt) \<longleftrightarrow> m \<in> set (contents (pt_parts pt ! partOf (Hash m) (length (pt_parts pt))))"
proof
  assume "m \<in> set (part_members pt)"
  then obtain i where "i < length (pt_parts pt)" "m \<in> set (contents (pt_parts pt ! i))"
    by (auto simp: part_members_def in_set_conv_nth [of _ "pt_parts pt"])
  then show "m \<in> set (contents (pt_parts pt ! partOf (Hash m) (length (pt_parts pt))))" using part_coreD(5) [OF assms] by blast
next
  assume "m \<in> set (contents (pt_parts pt ! partOf (Hash m) (length (pt_parts pt))))"
  then show "m \<in> set (part_members pt)" using nth_mem [OF part_coreD(2) [OF assms]] by (auto simp: part_members_def)
qed

lemma distinct_concat_nth:
  "(\<And>i. i < length xs \<Longrightarrow> distinct (xs ! i)) \<Longrightarrow> (\<And>i j. i < j \<Longrightarrow> j < length xs \<Longrightarrow> set (xs ! i) \<inter> set (xs ! j) = {}) \<Longrightarrow> distinct (concat xs)"
proof (induction xs)
  case (Cons x xs)
  have "distinct x" using Cons.prems(1) [of 0] by simp
  moreover have "distinct (concat xs)" using Cons.prems(1) [of "Suc _"] Cons.prems(2) [of "Suc _" "Suc _"] by (intro Cons.IH) auto
  moreover have "set x \<inter> set y = {}" if "y \<in> set xs" for y
    using that Cons.prems(2) [of 0 "Suc _"] by (auto simp: in_set_conv_nth)
  ultimately show ?case by auto
qed simp

lemma part_distinct: "part_core pt \<Longrightarrow> distinct (part_members pt)"
  unfolding part_members_def
proof (rule distinct_concat_nth)
  assume c: "part_core pt"
  fix i assume "i < length (map contents (pt_parts pt))"
  then show "distinct (map contents (pt_parts pt) ! i)" using part_coreD(3) [OF c, of i] inv_contents(1) by simp
next
  assume c: "part_core pt"
  fix i j assume ij: "i < j" "j < length (map contents (pt_parts pt))"
  show "set (map contents (pt_parts pt) ! i) \<inter> set (map contents (pt_parts pt) ! j) = {}"
    using part_coreD(5) [OF c, of i] part_coreD(5) [OF c, of j] ij by auto
qed

text \<open>Weights of the whole against those of one partition.\<close>

lemma part_weight_nth: "i < length xs \<Longrightarrow> (w (xs ! i) :: nat) \<le> sum_list (map w xs)"
  by (induction xs arbitrary: i) (auto simp: nth_Cons split: nat.splits intro: trans_le_add2)

lemma part_weight_update:
  "i < length xs \<Longrightarrow> (sum_list (map w (xs[i := x])) :: nat) = sum_list (map w xs) + w x - w (xs ! i)"
  by (simp add: map_update sum_list_update)

lemma length_part_members: "length (part_members pt) = parts_w (\<lambda>h. length (contents h)) pt"
  by (simp add: part_members_def length_concat comp_def)

lemma sum_list_mono_in: "(\<And>x. x \<in> set xs \<Longrightarrow> f x \<le> (g x :: nat)) \<Longrightarrow> sum_list (map f xs) \<le> sum_list (map g xs)"
  by (induction xs) (auto intro: add_mono)

lemma length_concat_concat: "length (concat (concat xss)) = sum_list (map (\<lambda>xs. length (concat xs)) xss)"
  by (induction xss) auto

lemma part_members_weight:
  assumes "part_core pt"
  shows "length (concat (part_members pt)) \<le> parts_w slab_w pt" "length (part_members pt) \<le> parts_w recs_w pt"
    "m \<in> set (part_members pt) \<Longrightarrow> length m < 65536"
proof -
  have "length (concat (part_members pt)) = parts_w (\<lambda>h. length (concat (contents h))) pt"
    unfolding part_members_def length_concat_concat by (simp add: comp_def)
  also have "\<dots> \<le> parts_w slab_w pt" by (rule sum_list_mono_in) (simp add: contents_weight part_coreD(6) [OF assms])
  finally show "length (concat (part_members pt)) \<le> parts_w slab_w pt" .
  show "length (part_members pt) \<le> parts_w recs_w pt"
    unfolding length_part_members by (rule sum_list_mono_in) (simp add: contents_weight part_coreD(6) [OF assms])
  show "length m < 65536" if "m \<in> set (part_members pt)"
    using that contents_short part_coreD(6) [OF assms] by (auto simp: part_members_def)
qed

section \<open>Replacing one partition\<close>

definition pt_put :: "partitioned \<Rightarrow> nat \<Rightarrow> htable \<Rightarrow> u64 \<Rightarrow> u64 \<Rightarrow> partitioned" where
  "pt_put pt i h c t = pt\<lparr>pt_parts := (pt_parts pt)[i := h], pt_counts := (pt_counts pt)[i := c], pt_total := t\<rparr>"

lemma pt_put_sel [simp]:
  "pt_parts (pt_put pt i h c t) = (pt_parts pt)[i := h]" "pt_counts (pt_put pt i h c t) = (pt_counts pt)[i := c]"
  "pt_total (pt_put pt i h c t) = t" "pt_pgen (pt_put pt i h c t) = pt_pgen pt"
  by (simp_all add: pt_put_def)

lemma pt_put_core:
  assumes "part_core pt" "i < length (pt_parts pt)" "part_ok (length (pt_parts pt)) i h c"
    and "unat t + length (contents (pt_parts pt ! i)) = unat (pt_total pt) + length (contents h)"
  shows "part_core (pt_put pt i h c t)"
proof -
  have "length (part_members (pt_put pt i h c t)) + length (contents (pt_parts pt ! i)) = length (part_members pt) + length (contents h)"
    unfolding length_part_members pt_put_sel part_weight_update [OF assms(2)]
    using part_weight_nth [OF assms(2), of "\<lambda>h. length (contents h)"] by simp
  then have t: "unat t = length (part_members (pt_put pt i h c t))" using assms(4) part_coreD(7) [OF assms(1)] by linarith
  show ?thesis unfolding part_core_def pt_put_sel length_list_update
  proof (intro conjI allI impI t)
    show "\<exists>k. length (pt_parts pt) = 2 ^ k \<and> 2 \<le> k \<and> k \<le> 30" "length (pt_counts pt) = length (pt_parts pt)"
      using assms(1) by (simp_all add: part_core_def)
    fix j assume "j < length (pt_parts pt)"
    then show "part_ok (length (pt_parts pt)) j ((pt_parts pt)[i := h] ! j) ((pt_counts pt)[i := c] ! j)"
      using assms(1,3) by (cases "j = i") (auto simp: part_core_def)
  qed
qed

lemma pt_put_members:
  assumes "part_core pt" "i < length (pt_parts pt)" "part_core (pt_put pt i h c t)"
  shows "m \<in> set (part_members (pt_put pt i h c t)) \<longleftrightarrow>
    (if partOf (Hash m) (length (pt_parts pt)) = i then m \<in> set (contents h) else m \<in> set (part_members pt))"
  using part_members_iff [OF assms(3), of m] part_members_iff [OF assms(1), of m] part_coreD(2) [OF assms(1)] assms(2)
  by simp

end
