(* ===== verification/PartOps.thy ===== *)
theory PartOps
  imports SetParts
begin

unbundle bit_operations_syntax

text \<open>
  The operations of the partitioned band keep its invariant and act on its members as on a set.
\<close>

section \<open>Insertion and redistribution\<close>

lemma pt_set_id: "i < length (pt_parts pt) \<Longrightarrow> pt_set pt i (pt_parts pt ! i) = pt"
  by (simp add: pt_set_def)

lemma pt_put_count:
  "pt_count (pt_set pt i h) i d = pt_put pt i h (pt_counts pt ! i + d) (pt_total pt + d)"
  by (simp add: pt_count_def pt_set_def pt_put_def)

lemma part_insert_present:
  assumes "part_core pt" "m \<in> set (part_members pt)"
  shows "part_insert (length (pt_parts pt)) pt m = ret (pt, False)"
proof -
  let ?i = "partOf (Hash m) (length (pt_parts pt))"
  note i = part_coreD(2) [OF assms(1), of "Hash m"]
  have "ht_add (pt_parts pt ! ?i) m = ret (pt_parts pt ! ?i, False)"
    using assms(2) part_members_iff [OF assms(1)] by (intro add_present part_coreD(3) [OF assms(1) i]) simp
  then show ?thesis using i by (simp add: part_insert_def Let_def pt_set_id)
qed

lemma part_insert_absent:
  assumes "part_core pt" "m \<notin> set (part_members pt)" "fits (parts_w slab_w pt) (parts_w recs_w pt) [m]"
  obtains pt' where "part_insert (length (pt_parts pt)) pt m = ret (pt', True)" "part_core pt'"
    "set (part_members pt') = insert m (set (part_members pt))" "length (pt_parts pt') = length (pt_parts pt)"
    "pt_pgen pt' = pt_pgen pt" "parts_w slab_w pt' \<le> parts_w slab_w pt + length m" "parts_w recs_w pt' \<le> parts_w recs_w pt + 1"
    "\<forall>i < length (pt_parts pt). \<exists>ys. contents (pt_parts pt' ! i) = contents (pt_parts pt ! i) @ ys"
proof -
  let ?p = "length (pt_parts pt)"
  define i where "i = partOf (Hash m) ?p"
  let ?h = "pt_parts pt ! i"
  have i: "i < ?p" unfolding i_def by (rule part_coreD(2) [OF assms(1)])
  have inv: "ht_inv ?h" by (rule part_coreD(3) [OF assms(1) i])
  have m: "m \<notin> set (contents ?h)" using assms(2) part_members_iff [OF assms(1), of m] by (simp add: i_def)
  have "fits (slab_w ?h) (recs_w ?h) [m]"
    by (rule fits_mono [OF assms(3)]) (rule part_weight_nth [OF i])+
  then have room: "ht_room ?h m" by (rule fits_room [OF inv])
  obtain h' where h': "ht_add ?h m = ret (h', True)" "ht_inv h'" "contents h' = contents ?h @ [m]"
    by (rule add_absent [OF inv room m])
  have c: "unat (pt_counts pt ! i) = length (contents ?h)" by (rule part_coreD(4) [OF assms(1) i])
  have b: "length (part_members pt) + 1 \<le> 7 * 2 ^ 26"
    using assms(3) part_members_weight(2) [OF assms(1)] by (simp add: fits_def)
  have "length (contents ?h) \<le> length (part_members pt)"
    unfolding length_part_members by (rule part_weight_nth [OF i])
  then have c1: "unat (pt_counts pt ! i + 1) = length (contents h')"
    using b c h'(3) by (subst unat_word_ariths) simp
  have t1: "unat (pt_total pt + 1) = unat (pt_total pt) + 1"
    using b part_coreD(7) [OF assms(1)] by (subst unat_word_ariths) simp
  define pt' where "pt' = pt_put pt i h' (pt_counts pt ! i + 1) (pt_total pt + 1)"
  have core: "part_core pt'" unfolding pt'_def
  proof (rule pt_put_core [OF assms(1) i])
    show "part_ok ?p i h' (pt_counts pt ! i + 1)"
      using part_coreD(5) [OF assms(1) i] c1 h'(2,3) by (auto simp: part_ok_def i_def)
  qed (simp add: t1 h'(3))
  have "part_insert ?p pt m = ret (pt', True)"
    using i h'(1) part_coreD(1) [OF assms(1)]
    unfolding part_insert_def i_def [symmetric] Let_def pt'_def pt_put_count [symmetric]
    by (simp add: pt_set_def)
  moreover have "set (part_members pt') = insert m (set (part_members pt))"
    using pt_put_members [OF assms(1) i core [unfolded pt'_def]] part_members_iff [OF assms(1)] h'(3)
    unfolding pt'_def by (auto simp: set_eq_iff i_def split: if_splits)
  moreover have "parts_w slab_w pt' \<le> parts_w slab_w pt + length m" "parts_w recs_w pt' \<le> parts_w recs_w pt + 1"
    unfolding pt'_def pt_put_sel part_weight_update [OF i]
    using add_size [OF h'(1)] part_weight_nth [OF i, of slab_w] part_weight_nth [OF i, of recs_w] by simp_all
  moreover have "\<forall>j < ?p. \<exists>ys. contents (pt_parts pt' ! j) = contents (pt_parts pt ! j) @ ys"
  proof (intro allI impI)
    fix j assume "j < ?p"
    then show "\<exists>ys. contents (pt_parts pt' ! j) = contents (pt_parts pt ! j) @ ys"
      using h'(3) i by (cases "j = i") (simp_all add: pt'_def)
  qed
  ultimately show ?thesis using core by (intro that [of pt']) (simp_all add: pt'_def)
qed

lemma drain_into_spec:
  assumes "part_core pt" "fits (parts_w slab_w pt) (parts_w recs_w pt) ms"
  shows "\<exists>pt'. drain_into (length (pt_parts pt)) pt ms = ret pt' \<and> part_core pt'
    \<and> set (part_members pt') = set (part_members pt) \<union> set ms \<and> length (pt_parts pt') = length (pt_parts pt)
    \<and> pt_pgen pt' = pt_pgen pt \<and> parts_w slab_w pt' \<le> parts_w slab_w pt + length (concat ms)
    \<and> parts_w recs_w pt' \<le> parts_w recs_w pt + length ms"
  using assms
proof (induction ms arbitrary: pt)
  case (Cons m ms)
  show ?case
  proof (cases "m \<in> set (part_members pt)")
    case True
    have "fits (parts_w slab_w pt) (parts_w recs_w pt) ms" by (rule fits_tl [OF Cons.prems(2)]) simp_all
    from Cons.IH [OF Cons.prems(1) this] True show ?thesis
      by (auto simp: part_insert_present [OF Cons.prems(1) True] insert_absorb)
  next
    case False
    obtain p1 where p1: "part_insert (length (pt_parts pt)) pt m = ret (p1, True)" "part_core p1"
      "set (part_members p1) = insert m (set (part_members pt))" "length (pt_parts p1) = length (pt_parts pt)"
      "pt_pgen p1 = pt_pgen pt" "parts_w slab_w p1 \<le> parts_w slab_w pt + length m" "parts_w recs_w p1 \<le> parts_w recs_w pt + 1"
      by (rule part_insert_absent [OF Cons.prems(1) False fits_hd [OF Cons.prems(2)]])
    have "fits (parts_w slab_w p1) (parts_w recs_w p1) ms" by (rule fits_tl [OF Cons.prems(2) p1(6,7)])
    from Cons.IH [OF p1(2) this, unfolded p1(3-5)] obtain p2 where p2:
      "drain_into (length (pt_parts pt)) p1 ms = ret p2" "part_core p2"
      "set (part_members p2) = insert m (set (part_members pt)) \<union> set ms" "length (pt_parts p2) = length (pt_parts pt)"
      "pt_pgen p2 = pt_pgen pt" "parts_w slab_w p2 \<le> parts_w slab_w p1 + length (concat ms)"
      "parts_w recs_w p2 \<le> parts_w recs_w p1 + length ms" by blast
    then show ?thesis using p1(6,7) by (intro exI [of _ p2] conjI) (simp_all add: p1(1))
  qed
qed simp

lemma make_parts_spec:
  assumes "per \<le> 7 * 2 ^ 26"
  shows "\<exists>hs. make_parts per p = ret hs \<and> length hs = p
    \<and> (\<forall>h \<in> set hs. ht_inv h \<and> contents h = [] \<and> ht_slab h = [] \<and> ht_recs h = [])"
proof (induction p)
  case (Suc p)
  obtain h where "newHashtable per = ret h" "ht_inv h" "contents h = []" "ht_slab h = []" "ht_recs h = []"
    by (rule newHashtable_spec [OF assms])
  with Suc show ?case by auto
qed simp

lemma buildPartitioned_spec:
  assumes "2 \<le> k" "k \<le> 30" "hint div 2 ^ k + 1 \<le> 7 * 2 ^ 26" "fits 0 0 ms"
  obtains pt where "buildPartitioned (2 ^ k) hint ms = ret pt" "part_core pt" "set (part_members pt) = set ms"
    "length (pt_parts pt) = 2 ^ k" "parts_w slab_w pt \<le> length (concat ms)" "parts_w recs_w pt \<le> length ms"
proof -
  obtain hs where hs: "make_parts (hint div 2 ^ k + 1) (2 ^ k) = ret hs" "length hs = 2 ^ k"
    "\<forall>h \<in> set hs. ht_inv h \<and> contents h = [] \<and> ht_slab h = [] \<and> ht_recs h = []"
    using make_parts_spec [OF assms(3)] by blast
  define pt where "pt = \<lparr>pt_parts = hs, pt_counts = replicate (2 ^ k) 0, pt_total = 0, pt_pgen = 0\<rparr>"
  have z: "part_members pt = []" "parts_w slab_w pt = 0" "parts_w recs_w pt = 0"
    using hs(3) by (auto simp: pt_def part_members_def)
  have "part_core pt" using assms(1,2) hs z(1) by (auto simp: part_core_def part_ok_def pt_def)
  moreover have "fits (parts_w slab_w pt) (parts_w recs_w pt) ms" unfolding z using assms(4) .
  ultimately obtain pt' where "drain_into (length (pt_parts pt)) pt ms = ret pt'" "part_core pt'"
    "set (part_members pt') = set (part_members pt) \<union> set ms" "length (pt_parts pt') = length (pt_parts pt)"
    "parts_w slab_w pt' \<le> parts_w slab_w pt + length (concat ms)" "parts_w recs_w pt' \<le> parts_w recs_w pt + length ms"
    using drain_into_spec by blast
  then show ?thesis using that [of pt'] hs(1,2) unfolding z by (simp add: buildPartitioned_def pt_def)
qed

section \<open>The operations\<close>

lemma parts_each_spec: "(\<And>h. h \<in> set hs \<Longrightarrow> ht_inv h) \<Longrightarrow> parts_each hs = Inr (concat (map contents hs))"
  by (induction hs) (simp_all add: ht_each_spec)

lemma part_each_spec: "part_core pt \<Longrightarrow> part_each pt = Inr (part_members pt)"
  unfolding part_each_def part_members_def by (rule parts_each_spec) (rule part_coreD(6))

lemma members_fit:
  assumes "part_core pt" "fits (parts_w slab_w pt) (parts_w recs_w pt) []"
  shows "fits 0 0 (part_members pt)"
  using assms(2) part_members_weight [OF assms(1)] by (auto simp: fits_def)

lemma part_grow_spec:
  assumes "part_core pt" "fits (parts_w slab_w pt) (parts_w recs_w pt) []" "2 \<le> k" "k \<le> 30"
  obtains pt' where "part_grow pt (2 ^ k) = ret pt'" "part_core pt'" "set (part_members pt') = set (part_members pt)"
    "length (pt_parts pt') = 2 ^ k" "pt_pgen pt' = pt_pgen pt + 1"
    "parts_w slab_w pt' \<le> parts_w slab_w pt" "parts_w recs_w pt' \<le> parts_w recs_w pt"
proof -
  have t: "unat (pt_total pt) \<le> 7 * 2 ^ 26"
    using assms(2) part_members_weight(2) [OF assms(1)] part_coreD(7) [OF assms(1)] by (simp add: fits_def)
  have "unat (pt_total pt) div 2 ^ k \<le> unat (pt_total pt) div 4"
    using assms(3) power_increasing [of 2 k "2 :: nat"] by (intro div_le_mono2) simp_all
  then have hint: "unat (pt_total pt) div 2 ^ k + 1 \<le> 7 * 2 ^ 26" using t by simp
  obtain np where np: "buildPartitioned (2 ^ k) (unat (pt_total pt)) (part_members pt) = ret np" "part_core np"
    "set (part_members np) = set (part_members pt)" "length (pt_parts np) = 2 ^ k"
    "parts_w slab_w np \<le> length (concat (part_members pt))" "parts_w recs_w np \<le> length (part_members pt)"
    by (rule buildPartitioned_spec [OF assms(3,4) hint members_fit [OF assms(1,2)]])
  define pt' where "pt' = np\<lparr>pt_pgen := pt_pgen pt + 1\<rparr>"
  have "part_grow pt (2 ^ k) = ret pt'" by (simp add: part_grow_def part_each_spec [OF assms(1)] np(1) pt'_def)
  moreover have "part_core pt'" "part_members pt' = part_members np"
    using np(2) by (simp_all add: pt'_def part_core_def part_members_def)
  ultimately show ?thesis using np part_members_weight(1,2) [OF assms(1)]
    by (intro that [of pt']) (simp_all add: pt'_def)
qed

lemma part_add_present: "part_core pt \<Longrightarrow> m \<in> set (part_members pt) \<Longrightarrow> part_add th pt m = ret (pt, False)"
  by (simp add: part_add_def part_insert_present)

lemma part_rem_absent:
  assumes "part_core pt" "m \<notin> set (part_members pt)" shows "part_rem pt m = ret (pt, False)"
proof -
  let ?i = "partOf (Hash m) (length (pt_parts pt))"
  note i = part_coreD(2) [OF assms(1), of "Hash m"]
  have "ht_rem (pt_parts pt ! ?i) m = ret (pt_parts pt ! ?i, False)"
    using assms(2) part_members_iff [OF assms(1)] by (intro rem_absent part_coreD(3) [OF assms(1) i]) simp
  then show ?thesis using i by (simp add: part_rem_def Let_def pt_set_id)
qed

lemma part_has_spec:
  assumes "part_core pt" shows "part_has pt m = ret (m \<in> set (part_members pt))"
  using part_coreD(2) [OF assms, of "Hash m"] has_spec [OF part_coreD(3) [OF assms part_coreD(2) [OF assms, of "Hash m"]], of m]
  by (simp add: part_has_def Let_def part_members_iff [OF assms])

lemma part_add_absent:
  assumes inv: "part_inv th pt" and th: "0 < th" and m: "m \<notin> set (part_members pt)"
    and f: "fits (parts_w slab_w pt) (parts_w recs_w pt) [m]"
  obtains pt' where "part_add th pt m = ret (pt', True)" "part_inv th pt'"
    "set (part_members pt') = insert m (set (part_members pt))"
    "parts_w slab_w pt' \<le> parts_w slab_w pt + length m" "parts_w recs_w pt' \<le> parts_w recs_w pt + 1"
    "pt_pgen pt' = pt_pgen pt + 1 \<or> pt_pgen pt' = pt_pgen pt \<and> length (pt_parts pt') = length (pt_parts pt)
       \<and> (\<forall>i < length (pt_parts pt). \<exists>ys. contents (pt_parts pt' ! i) = contents (pt_parts pt ! i) @ ys)"
proof -
  have c: "part_core pt" using inv by (simp add: part_inv_def)
  obtain p1 where p1: "part_insert (length (pt_parts pt)) pt m = ret (p1, True)" "part_core p1"
    "set (part_members p1) = insert m (set (part_members pt))" "length (pt_parts p1) = length (pt_parts pt)"
    "pt_pgen p1 = pt_pgen pt" "parts_w slab_w p1 \<le> parts_w slab_w pt + length m" "parts_w recs_w p1 \<le> parts_w recs_w pt + 1"
    "\<forall>i < length (pt_parts pt). \<exists>ys. contents (pt_parts p1 ! i) = contents (pt_parts pt ! i) @ ys"
    by (rule part_insert_absent [OF c m f])
  have f1: "fits (parts_w slab_w p1) (parts_w recs_w p1) []" by (rule fits_tl [OF f p1(6,7)])
  have n: "unat (pt_total p1) \<le> 7 * 2 ^ 26"
    using f1 part_members_weight(2) [OF p1(2)] part_coreD(7) [OF p1(2)] by (simp add: fits_def)
  obtain k where k: "deriveP th (unat (pt_total p1)) = ret (2 ^ k)" "2 \<le> k" "k \<le> 30"
      "k = 2 \<or> th * 2 ^ k < 2 * unat (pt_total p1) + 2 * th"
    by (rule deriveP_spec [OF th, of "unat (pt_total p1)"]) (use n in simp)
  show ?thesis
  proof (cases "2 ^ k > length (pt_parts p1)")
    case True
    obtain p2 where p2: "part_grow p1 (2 ^ k) = ret p2" "part_core p2" "set (part_members p2) = set (part_members p1)"
      "length (pt_parts p2) = 2 ^ k" "pt_pgen p2 = pt_pgen p1 + 1"
      "parts_w slab_w p2 \<le> parts_w slab_w p1" "parts_w recs_w p2 \<le> parts_w recs_w p1"
      by (rule part_grow_spec [OF p1(2) f1 k(2,3)])
    obtain k0 where k0: "length (pt_parts pt) = 2 ^ k0" "k0 \<le> 30" using c by (auto simp: part_core_def)
    have "k0 < k" using True k0(1) p1(4) by (simp add: power_less_imp_less_exp)
    have "(2 :: nat) ^ (unat (pt_pgen pt) + 1) \<le> 2 ^ k0" using inv k0(1) by (simp add: part_inv_def)
    then have g: "unat (pt_pgen pt) + 1 \<le> k0" by (rule power_le_imp_le_exp [rotated]) simp
    then have u: "unat (pt_pgen pt + 1) = unat (pt_pgen pt) + 1" using k0(2) by (subst unat_word_ariths) simp
    have "(2 :: nat) ^ (unat (pt_pgen pt) + 1 + 1) \<le> 2 ^ k" using g \<open>k0 < k\<close> by (intro power_increasing) auto
    then have "part_inv th p2" using p2(2,4,5) p1(5) u k(4) n by (auto simp: part_inv_def)
    moreover have "part_add th pt m = ret (p2, True)" using p1(1) k(1) True p2(1) by (simp add: part_add_def)
    moreover have "parts_w slab_w p2 \<le> parts_w slab_w pt + length m" "parts_w recs_w p2 \<le> parts_w recs_w pt + 1"
      using p1(6,7) p2(6,7) by linarith+
    ultimately show ?thesis using p1(3,5) p2(3,5) by (intro that [of p2]) (simp_all only: simp_thms)
  next
    case False
    then have "part_add th pt m = ret (p1, True)" using p1(1) k(1) by (simp add: part_add_def)
    moreover have "part_inv th p1" using inv p1(2,4,5) by (simp add: part_inv_def)
    ultimately show ?thesis using p1(3-8) by (intro that [of p1] disjI2 conjI)
  qed
qed

lemma unat_dec:
  assumes "0 < unat (w :: u64)" shows "unat (w + (- 1)) = unat w - 1"
proof -
  have "w \<noteq> 0" using assms by auto
  then show ?thesis by (simp add: unat_minus_one)
qed

lemma part_rem_present:
  assumes inv: "part_inv th pt" and m: "m \<in> set (part_members pt)"
  obtains pt' i j where "part_rem pt m = ret (pt', True)" "part_inv th pt'"
    "set (part_members pt') = set (part_members pt) - {m}"
    "parts_w slab_w pt' \<le> parts_w slab_w pt" "parts_w recs_w pt' \<le> parts_w recs_w pt"
    "pt_pgen pt' = pt_pgen pt" "length (pt_parts pt') = length (pt_parts pt)"
    "i < length (pt_parts pt)" "j < length (contents (pt_parts pt ! i))" "contents (pt_parts pt ! i) ! j = m"
    "contents (pt_parts pt' ! i) = swap_remove j (contents (pt_parts pt ! i))" "\<forall>l. l \<noteq> i \<longrightarrow> pt_parts pt' ! l = pt_parts pt ! l"
proof -
  have c: "part_core pt" using inv by (simp add: part_inv_def)
  let ?p = "length (pt_parts pt)"
  define i where "i = partOf (Hash m) ?p"
  let ?h = "pt_parts pt ! i"
  have i: "i < ?p" unfolding i_def by (rule part_coreD(2) [OF c])
  have hi: "ht_inv ?h" by (rule part_coreD(3) [OF c i])
  have mh: "m \<in> set (contents ?h)" using m part_members_iff [OF c, of m] by (simp add: i_def)
  obtain h' j where h': "ht_rem ?h m = ret (h', True)" "ht_inv h'" "j < length (contents ?h)" "contents ?h ! j = m"
    "contents h' = swap_remove j (contents ?h)" "slab_w h' \<le> slab_w ?h" "recs_w h' = recs_w ?h"
    by (rule rem_present [OF hi mh])
  have sr: "set (contents h') = set (contents ?h) - {m}"
    using swap_remove_distinct(1) [OF inv_contents(1) [OF hi] h'(3)] h'(4,5) by simp
  have cn: "unat (pt_counts pt ! i) = length (contents ?h)" by (rule part_coreD(4) [OF c i])
  have c1: "unat (pt_counts pt ! i + (- 1)) = length (contents h')"
    using cn h'(3,5) by (subst unat_dec) auto
  have "length (contents ?h) \<le> length (part_members pt)" unfolding length_part_members by (rule part_weight_nth [OF i])
  then have tp: "unat (pt_total pt) > 0" using part_coreD(7) [OF c] h'(3) by linarith
  then have t1: "unat (pt_total pt + (- 1)) = unat (pt_total pt) - 1" by (rule unat_dec)
  define pt' where "pt' = pt_put pt i h' (pt_counts pt ! i + (- 1)) (pt_total pt + (- 1))"
  have core: "part_core pt'" unfolding pt'_def
  proof (rule pt_put_core [OF c i])
    show "part_ok ?p i h' (pt_counts pt ! i + (- 1))"
      using part_coreD(5) [OF c i] c1 h'(2) sr by (auto simp: part_ok_def)
    show "unat (pt_total pt + (- 1)) + length (contents ?h) = unat (pt_total pt) + length (contents h')"
      using t1 tp h'(3,5) by simp
  qed
  have "part_rem pt m = ret (pt', True)"
    using i h'(1) part_coreD(1) [OF c]
    unfolding part_rem_def i_def [symmetric] Let_def pt'_def pt_put_count [symmetric] by (simp add: pt_set_def)
  moreover have "set (part_members pt') = set (part_members pt) - {m}"
    using pt_put_members [OF c i core [unfolded pt'_def]] part_members_iff [OF c] sr
    unfolding pt'_def by (auto simp: set_eq_iff i_def split: if_splits)
  moreover have "parts_w slab_w pt' \<le> parts_w slab_w pt" "parts_w recs_w pt' \<le> parts_w recs_w pt"
    unfolding pt'_def pt_put_sel part_weight_update [OF i]
    using h'(6,7) part_weight_nth [OF i, of slab_w] part_weight_nth [OF i, of recs_w] by simp_all
  moreover have "part_inv th pt'" using inv core by (simp add: part_inv_def pt'_def)
  ultimately show ?thesis using i h'(3-5) by (intro that [of pt' i j]) (simp_all add: pt'_def)
qed

section \<open>The weighted draw\<close>

text \<open>The mask of the branchless scan: all ones exactly when r is past the partition's end.\<close>

lemma uint_bound:
  assumes "unat (w :: u64) < 2 ^ 62" shows "uint w < 2 ^ 62"
proof -
  have "int (unat w) < int (2 ^ 62)" using assms by (simp only: of_nat_less_iff)
  then show ?thesis by simp
qed

lemma sign_shift: "signed_drop_bit 63 (w :: u64) = (if bit w 63 then - 1 else 0)"
proof (rule bit_word_eqI)
  fix n assume "n < LENGTH(64)"
  then show "bit (signed_drop_bit 63 w) n \<longleftrightarrow> bit (if bit w 63 then - 1 else 0 :: u64) n"
    by (cases n) (simp_all add: bit_signed_drop_bit_iff)
qed

lemma diff_range: "0 \<le> a \<Longrightarrow> 0 \<le> b \<Longrightarrow> a < 2 ^ 62 \<Longrightarrow> b < 2 ^ 62 \<Longrightarrow> - (2 ^ 63) \<le> a - b \<and> a - b < (2 ^ 63 :: int)"
  by simp

lemma sign_mask:
  assumes "unat (r :: u64) < 2 ^ 62" "unat e < 2 ^ 62"
  shows "NOT (signed_drop_bit 63 (r - e)) = (if e \<le> r then - 1 else 0)"
proof -
  have b: "uint r < 2 ^ 62" "uint e < 2 ^ 62" by (rule uint_bound [OF assms(1)], rule uint_bound [OF assms(2)])
  have i: "- (2 ^ 63) \<le> uint r - uint e" "uint r - uint e < 2 ^ 63" using diff_range [OF uint_ge_0 uint_ge_0 b] by blast+
  have "of_int (uint r - uint e) = r - e" by simp
  then have "sint (r - e) = uint r - uint e" using sint_of_int [OF i] by (simp only:)
  then have "bit (r - e) 63 \<longleftrightarrow> r < e" using bit_last_iff [of "r - e"] by (simp add: word_less_def)
  then show ?thesis using sign_shift [of "r - e"] by (auto simp: not_le)
qed

lemma locate_past:
  assumes "r < e" "unat e + sum_list (map unat cs) < 2 ^ 62" shows "locate_loop r cs e st p = (p, r - st)"
  using assms
proof (induction cs arbitrary: e)
  case (Cons c cs)
  have u: "unat (e + c) = unat e + unat c" using Cons.prems(2) by (subst unat_word_ariths) simp
  have "r < e + c" using Cons.prems(1) u by (simp add: word_less_nat_alt)
  moreover have "NOT (signed_drop_bit 63 (r - (e + c))) = 0"
    using sign_mask [of r "e + c"] calculation Cons.prems u by (auto simp: word_less_nat_alt word_le_nat_alt)
  ultimately show ?case using Cons.IH [of "e + c"] Cons.prems(2) u by (simp add: Let_def)
qed simp

lemma locate_concat:
  assumes "map unat cs = map length xss" "unat r = unat e + i" "i < length (concat xss)" "unat e + length (concat xss) < 2 ^ 62"
  shows "\<exists>q l. locate_loop r cs e e p = (p + q, l) \<and> q < length xss \<and> unat l < length (xss ! q) \<and> xss ! q ! unat l = concat xss ! i"
  using assms
proof (induction xss arbitrary: cs e i p)
  case (Cons x xss)
  then obtain c cs' where cs: "cs = c # cs'" "unat c = length x" "map unat cs' = map length xss" by (cases cs) auto
  have s: "sum_list (map unat cs') = length (concat xss)" by (simp add: cs(3) length_concat)
  have u: "unat (e + c) = unat e + length x" using Cons.prems(4) cs(2) by (subst unat_word_ariths) simp
  have mask: "NOT (signed_drop_bit 63 (r - (e + c))) = (if e + c \<le> r then - 1 else 0)"
    using Cons.prems u by (intro sign_mask) auto
  show ?case
  proof (cases "i < length x")
    case True
    have lt: "\<not> e + c \<le> r" using True Cons.prems(2) u by (simp add: word_le_nat_alt)
    have "locate_loop r cs' (e + c) e p = (p, r - e)"
      using lt Cons.prems(4) u s by (intro locate_past) auto
    moreover have "unat (r - e) = i" using Cons.prems(2) by (simp add: unat_sub word_le_nat_alt)
    ultimately show ?thesis using True lt
      by (intro exI [of _ 0] exI [of _ "r - e"]) (simp add: cs(1) Let_def mask nth_append)
  next
    case False
    have ge: "e + c \<le> r" using False Cons.prems(2) u by (simp add: word_le_nat_alt)
    have "\<exists>q l. locate_loop r cs' (e + c) (e + c) (p + 1) = (p + 1 + q, l) \<and> q < length xss \<and> unat l < length (xss ! q)
        \<and> xss ! q ! unat l = concat xss ! (i - length x)"
      using False Cons.prems u cs(3) by (intro Cons.IH) auto
    then obtain q l where ql: "locate_loop r cs' (e + c) (e + c) (p + 1) = (p + 1 + q, l)" "q < length xss"
      "unat l < length (xss ! q)" "xss ! q ! unat l = concat xss ! (i - length x)" by blast
    have "locate_loop r cs e e p = (p + Suc q, l)" using ge ql(1) by (simp add: cs(1) Let_def mask)
    then show ?thesis using ql False by (intro exI [of _ "Suc q"] exI [of _ l]) (simp add: nth_append)
  qed
qed simp

lemma part_at_spec:
  assumes "part_core pt" "i < length (part_members pt)" "length (part_members pt) < 2 ^ 62"
  shows "part_at pt i = Inr (part_members pt ! i)"
proof -
  let ?xss = "map contents (pt_parts pt)"
  have "map unat (pt_counts pt) = map length ?xss"
    using part_coreD(1,4) [OF assms(1)] by (intro nth_equalityI) simp_all
  moreover have "unat (of_nat i :: u64) = unat (0 :: u64) + i" using assms(2,3) by (simp add: unat_of_nat)
  ultimately obtain q l where ql: "locate_loop (of_nat i) (pt_counts pt) 0 0 0 = (0 + q, l)" "q < length ?xss"
    "unat l < length (?xss ! q)" "?xss ! q ! unat l = concat ?xss ! i"
    using locate_concat [of "pt_counts pt" ?xss "of_nat i" 0 i 0] assms(2,3) unfolding part_members_def by auto
  have "ht_at (pt_parts pt ! q) (unat l) = Inr (contents (pt_parts pt ! q) ! unat l)"
    using ql(2,3) by (intro ht_at_spec part_coreD(3) [OF assms(1)]) simp_all
  then show ?thesis using ql by (simp add: part_at_def locate_def part_members_def)
qed

section \<open>Engagement\<close>

lemma partitionedSet_spec:
  assumes "ht_inv h" "0 < th" "fits (slab_w h) (recs_w h) []"
  obtains pt where "partitionedSet th h = ret ((zero_set encPartitioned)\<lparr>gs_part := Some pt\<rparr>)" "part_inv th pt"
    "set (part_members pt) = set (contents h)" "parts_w slab_w pt \<le> slab_w h" "parts_w recs_w pt \<le> recs_w h" "pt_pgen pt = 1"
proof -
  have n: "ht_card h = length (contents h)" using inv_contents(2) [OF assms(1)] by simp
  have f: "fits 0 0 (contents h)"
    using assms(3) contents_weight [OF assms(1)] contents_short [OF assms(1)] by (auto simp: fits_def)
  have c: "ht_card h \<le> 7 * 2 ^ 26" using f n by (simp add: fits_def)
  obtain k where k: "deriveP th (ht_card h) = ret (2 ^ k)" "2 \<le> k" "k \<le> 30" "k = 2 \<or> th * 2 ^ k < 2 * ht_card h + 2 * th"
    by (rule deriveP_spec [OF assms(2), of "ht_card h"]) (use c in simp)
  have p4: "(4 :: nat) \<le> 2 ^ k" using k(2) power_increasing [of 2 k "2 :: nat"] by simp
  have "ht_card h div 2 ^ k \<le> ht_card h div 4" using p4 by (intro div_le_mono2) simp_all
  then have hint: "ht_card h div 2 ^ k + 1 \<le> 7 * 2 ^ 26" using c by simp
  obtain pt where pt: "buildPartitioned (2 ^ k) (ht_card h) (contents h) = ret pt" "part_core pt"
    "set (part_members pt) = set (contents h)" "length (pt_parts pt) = 2 ^ k"
    "parts_w slab_w pt \<le> length (concat (contents h))" "parts_w recs_w pt \<le> length (contents h)"
    by (rule buildPartitioned_spec [OF k(2,3) hint f])
  let ?pt = "pt\<lparr>pt_pgen := 1\<rparr>"
  have "part_core ?pt" "part_members ?pt = part_members pt" using pt(2) by (simp_all add: part_core_def part_members_def)
  then have "part_inv th ?pt" using p4 k(4) c pt(4) by (auto simp: part_inv_def)
  moreover have "partitionedSet th h = ret ((zero_set encPartitioned)\<lparr>gs_part := Some ?pt\<rparr>)"
    by (simp add: partitionedSet_def k(1) ht_each_spec [OF assms(1)] pt(1))
  moreover have "parts_w slab_w ?pt \<le> slab_w h" "parts_w recs_w ?pt \<le> recs_w h"
    using pt(5,6) contents_weight [OF assms(1)] by simp_all
  ultimately show ?thesis using pt(3) \<open>part_members ?pt = part_members pt\<close> by (intro that [of ?pt]) simp_all
qed

end
