(* ===== verification/SetModel.thy ===== *)
theory SetModel
  imports PartOps
begin

unbundle bit_operations_syntax

text \<open>
  The set over its four bands as a finite set of byte strings.  The members of a set are what its
  own enumeration visits; the invariant says what each band keeps.
\<close>

section \<open>Members and invariant\<close>

definition members :: "goset \<Rightarrow> bytes list" where
  "members s = (case set_each s of Inl e \<Rightarrow> [] | Inr ms \<Rightarrow> ms)"

definition intset_ok :: "goset \<Rightarrow> i64 list \<Rightarrow> bool" where
  "intset_ok s vs \<longleftrightarrow> gs_enc s = encIntset \<and> gs_data s = pack_lanes vs \<and> ints_sorted vs \<and> length vs \<le> 512 \<and> gs_n s = 0"

definition listpack_ok :: "goset \<Rightarrow> bytes list \<Rightarrow> bool" where
  "listpack_ok s ms \<longleftrightarrow> gs_enc s = encListpack \<and> gs_data s = lp_pack ms \<and> gs_n s = int (length ms) \<and> distinct ms
     \<and> length ms \<le> 128 \<and> short ms"

definition native_ok :: "goset \<Rightarrow> htable \<Rightarrow> bool" where
  "native_ok s h \<longleftrightarrow> gs_enc s = encHashtable \<and> gs_ht s = Some h \<and> ht_inv h"

definition part_set_ok :: "nat \<Rightarrow> goset \<Rightarrow> partitioned \<Rightarrow> bool" where
  "part_set_ok th s pt \<longleftrightarrow> gs_enc s = encPartitioned \<and> gs_part s = Some pt \<and> part_inv th pt"

definition set_inv :: "nat \<Rightarrow> goset \<Rightarrow> bool" where
  "set_inv th s \<longleftrightarrow> (\<exists>vs. intset_ok s vs) \<or> (\<exists>ms. listpack_ok s ms) \<or> (\<exists>h. native_ok s h) \<or> (\<exists>pt. part_set_ok th s pt)"

text \<open>The slab bytes and records a set uses; an inline set weighs what its members will weigh in a table.\<close>

definition set_wb :: "goset \<Rightarrow> nat" where
  "set_wb s = (case gs_enc s of
      encHashtable \<Rightarrow> (case gs_ht s of None \<Rightarrow> 0 | Some h \<Rightarrow> slab_w h)
    | encPartitioned \<Rightarrow> (case gs_part s of None \<Rightarrow> 0 | Some pt \<Rightarrow> parts_w slab_w pt)
    | _ \<Rightarrow> length (concat (members s)))"

definition set_wr :: "goset \<Rightarrow> nat" where
  "set_wr s = (case gs_enc s of
      encHashtable \<Rightarrow> (case gs_ht s of None \<Rightarrow> 0 | Some h \<Rightarrow> recs_w h)
    | encPartitioned \<Rightarrow> (case gs_part s of None \<Rightarrow> 0 | Some pt \<Rightarrow> parts_w recs_w pt)
    | _ \<Rightarrow> length (members s))"

abbreviation render :: "i64 list \<Rightarrow> bytes list" where
  "render vs \<equiv> map (\<lambda>v. itoa (sint v)) vs"

lemma ParseInt_itoa [simp]: "ParseInt (itoa (sint (v :: i64))) = Some v"
  by (simp add: ParseInt_iff)

lemma itoa_length: "length (itoa (sint (v :: i64))) \<le> 20"
proof (rule ccontr)
  assume "\<not> ?thesis"
  then have "ParseInt (itoa (sint v)) = None" by (simp add: ParseInt_def)
  then show False by simp
qed

lemma render_mem: "m \<in> set (render vs) \<longleftrightarrow> (\<exists>v. ParseInt m = Some v \<and> v \<in> set vs)"
  by (auto simp: ParseInt_iff)

lemma render_distinct: "ints_sorted vs \<Longrightarrow> distinct (render vs)"
proof -
  assume "ints_sorted vs"
  then have "distinct vs" using ints_sorted_distinct distinct_map by blast
  moreover have "inj_on (\<lambda>v. itoa (sint v)) (set vs)" by (rule inj_on_inverseI [of _ "\<lambda>m. the (ParseInt m)"]) simp
  ultimately show ?thesis by (simp add: distinct_map)
qed

lemma members_intset: "intset_ok s vs \<Longrightarrow> members s = render vs"
  by (simp add: members_def set_each_def intset_ok_def)

lemma members_listpack: "listpack_ok s ms \<Longrightarrow> members s = ms"
  using lp_walk_pack [of ms "[]"] by (simp add: members_def set_each_def listpack_ok_def)

lemma members_native: "native_ok s h \<Longrightarrow> members s = contents h"
  by (simp add: members_def set_each_def native_ok_def ht_of_def ht_each_spec)

lemma members_part: "part_set_ok th s pt \<Longrightarrow> members s = part_members pt"
  by (simp add: members_def set_each_def part_set_ok_def part_of_def part_each_spec part_inv_def)

lemma weights_intset: "intset_ok s vs \<Longrightarrow> set_wb s = length (concat (render vs))" "intset_ok s vs \<Longrightarrow> set_wr s = length vs"
  by (frule members_intset, simp add: set_wb_def set_wr_def intset_ok_def)+

lemma weights_listpack: "listpack_ok s ms \<Longrightarrow> set_wb s = length (concat ms)" "listpack_ok s ms \<Longrightarrow> set_wr s = length ms"
  by (frule members_listpack, simp add: set_wb_def set_wr_def listpack_ok_def)+

lemma weights_native: "native_ok s h \<Longrightarrow> set_wb s = slab_w h" "native_ok s h \<Longrightarrow> set_wr s = recs_w h"
  by (simp_all add: set_wb_def set_wr_def native_ok_def)

lemma weights_part: "part_set_ok th s pt \<Longrightarrow> set_wb s = parts_w slab_w pt" "part_set_ok th s pt \<Longrightarrow> set_wr s = parts_w recs_w pt"
  by (simp_all add: set_wb_def set_wr_def part_set_ok_def)

lemma set_inv_cases [consumes 1, case_names intset listpack native part]:
  assumes "set_inv th s"
  obtains vs where "intset_ok s vs" | ms where "listpack_ok s ms" | h where "native_ok s h" | pt where "part_set_ok th s pt"
  using assms by (auto simp: set_inv_def)

lemma set_invI:
  "intset_ok s vs \<Longrightarrow> set_inv th s" "listpack_ok s ms \<Longrightarrow> set_inv th s" "native_ok s h \<Longrightarrow> set_inv th s" "part_set_ok th s pt \<Longrightarrow> set_inv th s"
  by (auto simp: set_inv_def)

lemma set_each_spec:
  assumes "set_inv th s" shows "set_each s = Inr (members s)"
  using assms
proof (cases rule: set_inv_cases)
  case (intset vs)
  then show ?thesis by (simp add: members_def set_each_def intset_ok_def)
next
  case (listpack ms)
  then show ?thesis using lp_walk_pack [of ms "[]"] by (simp add: members_def set_each_def listpack_ok_def)
next
  case (native h)
  then show ?thesis by (simp add: members_def set_each_def native_ok_def ht_of_def ht_each_spec)
next
  case (part pt)
  then show ?thesis by (simp add: members_def set_each_def part_set_ok_def part_of_def part_each_spec part_inv_def)
qed

lemma members_distinct:
  assumes "set_inv th s" shows "distinct (members s)"
  using assms
proof (cases rule: set_inv_cases)
  case (intset vs)
  then show ?thesis unfolding members_intset [OF intset] by (simp add: render_distinct intset_ok_def)
next
  case (listpack ms)
  then show ?thesis unfolding members_listpack [OF listpack] by (simp add: listpack_ok_def)
next
  case (native h)
  then show ?thesis unfolding members_native [OF native] by (simp add: native_ok_def inv_contents)
next
  case (part pt)
  then show ?thesis unfolding members_part [OF part] by (simp add: part_set_ok_def part_inv_def part_distinct)
qed

section \<open>Lookup, cardinality and draw\<close>

lemma set_has_spec:
  assumes "set_inv th s" shows "set_has s m = ret (m \<in> set (members s))"
  using assms
proof (cases rule: set_inv_cases)
  case (intset vs)
  then have d: "gs_enc s = encIntset" "gs_data s = pack_lanes vs" "ints_sorted vs" by (simp_all add: intset_ok_def)
  have n: "intsetLen s = length vs" by (simp add: intsetLen_def d(2))
  have "intsetHas s v \<longleftrightarrow> v \<in> set vs" for v
    unfolding intsetHas_def Let_def n lane_search_spec(4) [OF d(2,3), symmetric]
    by (rule conj_cong) (simp_all add: d(2))
  then show ?thesis unfolding members_intset [OF intset] render_mem
    by (simp add: set_has_def d(1) split: option.splits)
next
  case (listpack ms)
  then show ?thesis unfolding members_listpack [OF listpack]
    using lp_find_pack [of ms "[]" m] by (simp add: set_has_def listpackIndex_def listpack_ok_def)
next
  case (native h)
  then show ?thesis unfolding members_native [OF native] by (simp add: set_has_def native_ok_def ht_of_def has_spec)
next
  case (part pt)
  then show ?thesis unfolding members_part [OF part]
    by (simp add: set_has_def part_set_ok_def part_of_def part_has_spec part_inv_def)
qed

lemma set_card_spec:
  assumes "set_inv th s" shows "set_card s = Inr (int (length (members s)))"
  using assms
proof (cases rule: set_inv_cases)
  case (intset vs)
  then show ?thesis unfolding members_intset [OF intset] by (simp add: set_card_def intset_ok_def intsetLen_def)
next
  case (listpack ms)
  then show ?thesis unfolding members_listpack [OF listpack] by (simp add: set_card_def listpack_ok_def)
next
  case (native h)
  then show ?thesis unfolding members_native [OF native] by (simp add: set_card_def native_ok_def ht_of_def inv_contents)
next
  case (part pt)
  then have "part_card pt = length (part_members pt)" by (simp add: part_card_def part_coreD(7) part_set_ok_def part_inv_def)
  then show ?thesis using part unfolding members_part [OF part] by (simp add: set_card_def part_set_ok_def part_of_def)
qed

lemma set_at_spec:
  assumes "set_inv th s" "i < length (members s)" "fits (set_wb s) (set_wr s) []"
  shows "set_at s i = Inr (members s ! i)"
  using assms(1)
proof (cases rule: set_inv_cases)
  case (intset vs)
  then show ?thesis using assms(2) unfolding members_intset [OF intset] by (simp add: set_at_def intset_ok_def)
next
  case (listpack ms)
  then have sh: "short ms" "gs_enc s = encListpack" "gs_data s = lp_pack ms" by (simp_all add: listpack_ok_def)
  have i: "i < length ms" using assms(2) unfolding members_listpack [OF listpack] .
  show ?thesis unfolding members_listpack [OF listpack]
    using lp_skip_pack [OF sh(1), of i "[]"] lp_entry_at(1-3) [OF sh(1) i] i by (simp add: set_at_def sh(2,3))
next
  case (native h)
  then show ?thesis using assms(2) unfolding members_native [OF native] by (simp add: set_at_def native_ok_def ht_of_def ht_at_spec)
next
  case (part pt)
  then have c: "part_core pt" by (simp add: part_set_ok_def part_inv_def)
  have "length (part_members pt) < 2 ^ 62"
    using assms(3) weights_part [OF part] part_members_weight(2) [OF c] by (simp add: fits_def)
  then show ?thesis using part assms(2) unfolding members_part [OF part] by (simp add: set_at_def part_set_ok_def part_of_def part_at_spec [OF c])
qed

end
