(* ===== verification/SetSteps.thy ===== *)
theory SetSteps
  imports SetModel
begin

unbundle bit_operations_syntax

text \<open>
  Insertion and removal on the set over its bands, conversions included: the effect on the members,
  the invariant, the room used, and what an open cursor over the draw vectors can rely on.
\<close>

section \<open>What a step keeps\<close>

text \<open>Every entry but m keeps a position at or below its old one.\<close>

definition vec_keeps :: "bytes \<Rightarrow> bytes list \<Rightarrow> bytes list \<Rightarrow> bool" where
  "vec_keeps m xs ys \<longleftrightarrow> (\<forall>i < length xs. xs ! i \<noteq> m \<longrightarrow> (\<exists>j \<le> i. j < length ys \<and> ys ! j = xs ! i))"

lemma vec_keeps_append: "vec_keeps m xs (xs @ ys)"
  unfolding vec_keeps_def by (intro allI impI, rule_tac x = i in exI) (simp add: nth_append)

lemma vec_keeps_refl: "vec_keeps m xs xs"
  using vec_keeps_append [of m xs "[]"] by simp

lemma vec_keeps_swap_remove:
  assumes "i < length xs" "xs ! i = m" shows "vec_keeps m xs (swap_remove i xs)"
  unfolding vec_keeps_def
proof (intro allI impI)
  fix k assume k: "k < length xs" "xs ! k \<noteq> m"
  then have ne: "k \<noteq> i" using assms(2) by auto
  show "\<exists>j \<le> k. j < length (swap_remove i xs) \<and> swap_remove i xs ! j = xs ! k"
  proof (cases "k = length xs - 1")
    case True
    then have "i < length xs - 1" using assms(1) ne by simp
    moreover have "last xs = xs ! k" using True k(1) by (subst last_conv_nth) auto
    ultimately show ?thesis using assms(1) True by (intro exI [of _ i]) (simp add: nth_swap_remove)
  next
    case False
    then show ?thesis using k assms(1) ne by (intro exI [of _ k]) (simp add: nth_swap_remove)
  qed
qed

text \<open>A step never leaves its band downwards; partitions are redistributed only under a new generation.\<close>

definition band_step :: "bytes \<Rightarrow> goset \<Rightarrow> goset \<Rightarrow> bool" where
  "band_step m s s' = (case gs_enc s of
      encHashtable \<Rightarrow> (case gs_enc s' of
          encHashtable \<Rightarrow> vec_keeps m (contents (the (gs_ht s))) (contents (the (gs_ht s')))
        | encPartitioned \<Rightarrow> pt_pgen (the (gs_part s')) = 1
        | _ \<Rightarrow> False)
    | encPartitioned \<Rightarrow>
        (let pt = the (gs_part s); pt' = the (gs_part s') in
         gs_enc s' = encPartitioned \<and>
         (pt_pgen pt' = pt_pgen pt + 1 \<or> pt_pgen pt' = pt_pgen pt \<and> length (pt_parts pt') = length (pt_parts pt)
            \<and> (\<forall>i < length (pt_parts pt). vec_keeps m (contents (pt_parts pt ! i)) (contents (pt_parts pt' ! i)))))
    | _ \<Rightarrow> True)"

text \<open>The outcome of a step that changes the members to M by adding at most n bytes and c records.\<close>

definition set_step :: "nat \<Rightarrow> bytes \<Rightarrow> goset \<Rightarrow> bytes set \<Rightarrow> nat \<Rightarrow> nat \<Rightarrow> goset \<Rightarrow> bool" where
  "set_step th m s M n c s' \<longleftrightarrow> set_inv th s' \<and> set (members s') = M \<and> set_wb s' \<le> set_wb s + n \<and> set_wr s' \<le> set_wr s + c
     \<and> band_step m s s' \<and> gs_expireAt s' = gs_expireAt s"

section \<open>Bulk conversion\<close>

lemma add_all_spec:
  assumes "ht_inv h" "distinct (contents h @ ms)" "fits (slab_w h) (recs_w h) ms"
  shows "\<exists>h'. add_all h ms = ret h' \<and> ht_inv h' \<and> contents h' = contents h @ ms \<and> slab_w h' \<le> slab_w h + length (concat ms)
    \<and> recs_w h' \<le> recs_w h + length ms"
  using assms
proof (induction ms arbitrary: h)
  case (Cons m ms)
  have room: "ht_room h m" by (rule fits_room [OF Cons.prems(1) fits_hd [OF Cons.prems(3)]])
  have "m \<notin> set (contents h)" using Cons.prems(2) by auto
  then obtain h1 where h1: "ht_add h m = ret (h1, True)" "ht_inv h1" "contents h1 = contents h @ [m]"
    by (rule add_absent [OF Cons.prems(1) room])
  note sz = add_size [OF h1(1)]
  have "fits (slab_w h1) (recs_w h1) ms" by (rule fits_tl [OF Cons.prems(3) sz])
  moreover have "distinct (contents h1 @ ms)" using Cons.prems(2) h1(3) by simp
  ultimately obtain h2 where "add_all h1 ms = ret h2" "ht_inv h2" "contents h2 = contents h1 @ ms"
      "slab_w h2 \<le> slab_w h1 + length (concat ms)" "recs_w h2 \<le> recs_w h1 + length ms"
    using Cons.IH [OF h1(2)] by blast
  then show ?case using h1(1,3) sz by (intro exI [of _ h2]) simp
qed simp

lemma fresh_table:
  assumes "distinct ms" "fits 0 0 ms" "n \<le> 7 * 2 ^ 26"
  obtains h h' where "newHashtable n = ret h" "add_all h ms = ret h'" "ht_inv h'" "contents h' = ms"
    "slab_w h' \<le> length (concat ms)" "recs_w h' \<le> length ms"
proof -
  obtain h where h: "newHashtable n = ret h" "ht_inv h" "contents h = []" "ht_slab h = []" "ht_recs h = []"
    by (rule newHashtable_spec [OF assms(3)])
  then obtain h' where "add_all h ms = ret h'" "ht_inv h'" "contents h' = ms"
    "slab_w h' \<le> length (concat ms)" "recs_w h' \<le> length ms"
    using add_all_spec [OF h(2), of ms] assms(1,2) by auto
  then show ?thesis using that h(1) by blast
qed

lemma native_add_spec:
  assumes "native_ok s h" "m \<notin> set (contents h)" "fits (slab_w h) (recs_w h) [m]"
  obtains h' where "native_add s m = ret (s\<lparr>gs_ht := Some h'\<rparr>, True)" "native_ok (s\<lparr>gs_ht := Some h'\<rparr>) h'"
    "contents h' = contents h @ [m]" "slab_w h' \<le> slab_w h + length m" "recs_w h' \<le> recs_w h + 1"
proof -
  have inv: "ht_inv h" using assms(1) by (simp add: native_ok_def)
  obtain h' where h': "ht_add h m = ret (h', True)" "ht_inv h'" "contents h' = contents h @ [m]"
    by (rule add_absent [OF inv fits_room [OF inv assms(3)] assms(2)])
  then show ?thesis using that [of h'] assms(1) add_size [OF h'(1)] by (simp add: native_add_def native_ok_def ht_of_def)
qed

text \<open>A conversion of an inline set to the native table, followed by the insertion that forced it.\<close>

lemma convert_add:
  assumes conv: "s1 = s\<lparr>gs_ht := Some h, gs_data := [], gs_n := n, gs_enc := encHashtable\<rparr>" "ht_inv h" "contents h = members s"
    and e: "gs_enc s = encIntset \<or> gs_enc s = encListpack"
    and m: "m \<notin> set (members s)" and f: "fits (set_wb s) (set_wr s) [m]"
    and w: "slab_w h \<le> set_wb s" "recs_w h \<le> set_wr s"
  shows "\<exists>s'. native_add s1 m = ret (s', True) \<and> set_step th m s (insert m (set (members s))) (length m) 1 s'"
proof -
  have ok: "native_ok s1 h" using conv(1,2) by (simp add: native_ok_def)
  have f': "fits (slab_w h) (recs_w h) [m]" by (rule fits_mono [OF f w])
  have "m \<notin> set (contents h)" using m conv(3) by simp
  then obtain h' where h': "native_add s1 m = ret (s1\<lparr>gs_ht := Some h'\<rparr>, True)" "native_ok (s1\<lparr>gs_ht := Some h'\<rparr>) h'"
    "contents h' = contents h @ [m]" "slab_w h' \<le> slab_w h + length m" "recs_w h' \<le> recs_w h + 1"
    by (rule native_add_spec [OF ok _ f'])
  let ?s = "s1\<lparr>gs_ht := Some h'\<rparr>"
  have "band_step m s ?s" using e by (auto simp: band_step_def)
  then have "set_step th m s (insert m (set (members s))) (length m) 1 ?s"
    unfolding set_step_def members_native [OF h'(2)] weights_native [OF h'(2)]
    using set_invI(3) [OF h'(2)] h'(3-5) w conv(1,3) by auto
  then show ?thesis using h'(1) by blast
qed

section \<open>Insertion\<close>

lemma short_fits:
  assumes "\<forall>x \<in> set ms. length x \<le> 64" "fits (length (concat ms)) (length ms) [m]"
  shows "fits 0 0 ms"
  using assms by (auto simp: fits_def)

lemma addListpack_absent:
  assumes ok: "listpack_ok s ms" and m: "m \<notin> set ms" and f: "fits (set_wb s) (set_wr s) [m]"
  shows "\<exists>s'. addListpack s m = ret (s', True) \<and> set_step th m s (insert m (set ms)) (length m) 1 s'"
proof -
  have d: "gs_enc s = encListpack" "gs_data s = lp_pack ms" "gs_n s = int (length ms)" "distinct ms" "length ms \<le> 128" "short ms"
    using ok by (simp_all add: listpack_ok_def)
  note w = weights_listpack [OF ok]
  have miss: "listpackIndex s m = Inr None" using lp_find_pack [OF d(6), of "[]" m] m by (simp add: listpackIndex_def d(2))
  show ?thesis
  proof (cases "gs_n s + 1 > 128 \<or> length m > 64")
    case True
    have f0: "fits 0 0 ms" using short_fits [OF d(6)] f w by simp
    have n: "nat (gs_n s + 1) \<le> 7 * 2 ^ 26" using d(3,5) by simp
    obtain h h' where h: "newHashtable (nat (gs_n s + 1)) = ret h" "add_all h ms = ret h'" "ht_inv h'" "contents h' = ms"
        "slab_w h' \<le> length (concat ms)" "recs_w h' \<le> length ms"
      by (rule fresh_table [OF d(4) f0 n])
    have e: "set_each s = Inr ms" using set_each_spec [OF set_invI(2) [OF ok]] members_listpack [OF ok] by simp
    let ?s1 = "s\<lparr>gs_ht := Some h', gs_data := [], gs_n := 0, gs_enc := encHashtable\<rparr>"
    have "listpackToHashtable s = ret ?s1" by (simp add: listpackToHashtable_def h(1,2) e)
    then have "addListpack s m = native_add ?s1 m" using True miss by (simp add: addListpack_def)
    then show ?thesis using convert_add [OF refl h(3), of s m 0 th] h(4-6) d(1) m f w members_listpack [OF ok] by auto
  next
    case False
    let ?s = "appendListpack s m"
    have ok': "listpack_ok ?s (ms @ [m])" using False d m by (simp add: listpack_ok_def appendListpack_def lp_entry_def)
    have "set_step th m s (insert m (set ms)) (length m) 1 ?s"
      unfolding set_step_def members_listpack [OF ok'] weights_listpack [OF ok'] w
      using set_invI(2) [OF ok'] d(1) by (auto simp: band_step_def appendListpack_def)
    then show ?thesis using False miss by (auto simp: addListpack_def)
  qed
qed

lemma addListpack_present: "listpack_ok s ms \<Longrightarrow> m \<in> set ms \<Longrightarrow> addListpack s m = ret (s, False)"
  using lp_find_pack [of ms "[]" m] by (simp add: addListpack_def listpackIndex_def listpack_ok_def)

lemma fold_appendListpack:
  "gs_data (fold (\<lambda>v s. appendListpack s (f v)) vs s) = gs_data s @ lp_pack (map f vs)
   \<and> gs_n (fold (\<lambda>v s. appendListpack s (f v)) vs s) = gs_n s + int (length vs)
   \<and> gs_enc (fold (\<lambda>v s. appendListpack s (f v)) vs s) = gs_enc s
   \<and> gs_expireAt (fold (\<lambda>v s. appendListpack s (f v)) vs s) = gs_expireAt s"
  by (induction vs arbitrary: s) (simp_all add: appendListpack_def lp_entry_def)

lemma intsetToListpack_ok:
  assumes "intset_ok s vs" "length vs \<le> 128"
  shows "listpack_ok (intsetToListpack s) (render vs)" "gs_expireAt (intsetToListpack s) = gs_expireAt s"
proof -
  have "lanes (gs_data s) = vs" "gs_n s = 0" "ints_sorted vs" using assms(1) by (simp_all add: intset_ok_def)
  then show "listpack_ok (intsetToListpack s) (render vs)" "gs_expireAt (intsetToListpack s) = gs_expireAt s"
    using fold_appendListpack [of "\<lambda>v. itoa (sint v)" vs "s\<lparr>gs_data := [], gs_enc := encListpack\<rparr>"] assms(2) render_distinct [of vs]
      order.trans [OF itoa_length, of 64]
    by (auto simp: listpack_ok_def intsetToListpack_def)
qed

lemma intset_convert_add:
  assumes ok: "intset_ok s vs" and m: "m \<notin> set (render vs)" and f: "fits (set_wb s) (set_wr s) [m]"
  shows "\<exists>s'. bindO (intsetToHashtable s) (\<lambda>s. native_add s m) = ret (s', True) \<and> set_step th m s (insert m (set (render vs))) (length m) 1 s'"
proof -
  have d: "gs_enc s = encIntset" "gs_data s = pack_lanes vs" "ints_sorted vs" "length vs \<le> 512" "gs_n s = 0"
    using ok by (simp_all add: intset_ok_def)
  note w = weights_intset [OF ok]
  have f0: "fits 0 0 (render vs)" using short_fits [of "render vs" m] f w order.trans [OF itoa_length, of 64] by auto
  have n: "intsetLen s + 1 \<le> 7 * 2 ^ 26" using d(2,4) by (simp add: intsetLen_def)
  obtain h h' where h: "newHashtable (intsetLen s + 1) = ret h" "add_all h (render vs) = ret h'" "ht_inv h'" "contents h' = render vs"
      "slab_w h' \<le> length (concat (render vs))" "recs_w h' \<le> length (render vs)"
    by (rule fresh_table [OF render_distinct [OF d(3)] f0 n])
  let ?s1 = "s\<lparr>gs_ht := Some h', gs_data := [], gs_n := gs_n s, gs_enc := encHashtable\<rparr>"
  have "intsetToHashtable s = ret ?s1" using h(1,2) by (simp add: intsetToHashtable_def d(2))
  then show ?thesis using convert_add [OF refl h(3), of s m "gs_n s" th] h(4-6) d(1) m f w members_intset [OF ok] by auto
qed

lemma addIntset_absent:
  assumes ok: "intset_ok s vs" and m: "m \<notin> set (render vs)" and f: "fits (set_wb s) (set_wr s) [m]"
  shows "\<exists>s'. addIntset s m = ret (s', True) \<and> set_step th m s (insert m (set (render vs))) (length m) 1 s'"
proof -
  have d: "gs_enc s = encIntset" "gs_data s = pack_lanes vs" "ints_sorted vs" "length vs \<le> 512" "gs_n s = 0"
    using ok by (simp_all add: intset_ok_def)
  note w = weights_intset [OF ok]
  have n: "intsetLen s = length vs" by (simp add: intsetLen_def d(2))
  note conv = intset_convert_add [OF ok m f]
  show ?thesis
  proof (cases "ParseInt m")
    case None
    show ?thesis
    proof (cases "int (intsetLen s) + 1 \<le> 128 \<and> length m \<le> 64")
      case True
      let ?s = "intsetToListpack s"
      have ok': "listpack_ok ?s (render vs)" "gs_expireAt ?s = gs_expireAt s"
        using intsetToListpack_ok [OF ok] True n by simp_all
      have f': "fits (set_wb ?s) (set_wr ?s) [m]" using f w weights_listpack [OF ok'(1)] by simp
      obtain s' where "addListpack ?s m = ret (s', True)" "set_step th m ?s (insert m (set (render vs))) (length m) 1 s'"
        using addListpack_absent [OF ok'(1) m f'] by blast
      moreover have "set_step th m s M k c s'" if "set_step th m ?s M k c s'" for M k c
        using that ok'(2) w weights_listpack [OF ok'(1)] d(1) by (simp add: set_step_def band_step_def)
      ultimately show ?thesis using None True by (auto simp: addIntset_def)
    next
      case False
      then have "addIntset s m = bindO (intsetToHashtable s) (\<lambda>s. native_add s m)" by (simp only: addIntset_def None option.case if_False)
      then show ?thesis using conv by simp
    qed
  next
    case (Some v)
    let ?r = "lane_search s v"
    have v: "v \<notin> set vs" using m Some unfolding render_mem by simp
    have "\<not> (?r < intsetLen s \<and> intLaneAt (gs_data s) ?r = v)"
      using lane_search_spec(4) [OF d(2,3), of v] v n d(2) by auto
    then have a: "addIntset s m = (if length vs + 1 > 512 then bindO (intsetToHashtable s) (\<lambda>s. native_add s m)
        else ret (s\<lparr>gs_data := insert_lane (gs_data s) ?r v\<rparr>, True))"
      by (simp only: addIntset_def Some option.case Let_def n if_False)
    show ?thesis
    proof (cases "length vs + 1 > 512")
      case True
      then show ?thesis using conv by (simp only: a if_True)
    next
      case False
      let ?vs = "take ?r vs @ v # drop ?r vs" let ?s = "s\<lparr>gs_data := insert_lane (gs_data s) ?r v\<rparr>"
      have ok': "intset_ok ?s ?vs"
        using insert_lane_pack [OF lane_search_spec(1) [OF d(2,3), of v], of v] ints_sorted_insert [OF d(2,3) v] False d
        by (simp add: intset_ok_def)
      have m': "m = itoa (sint v)" using Some by (simp add: ParseInt_iff)
      have "set ?vs = insert v (set vs)" by (metis append_take_drop_id list.set(2) set_append Un_insert_right)
      then have "set (render ?vs) = insert m (set (render vs))" using m' by (simp only: set_map image_insert)
      moreover have "length (concat (render ?vs)) = length (concat (render vs)) + length m"
      proof -
        have "length (concat (render vs)) = length (concat (render (take ?r vs @ drop ?r vs)))" by simp
        then show ?thesis by (simp only: map_append concat_append length_append list.map concat.simps m')
      qed
      moreover have "length ?vs = length vs + 1" by simp
      ultimately have "set_step th m s (insert m (set (render vs))) (length m) 1 ?s"
        unfolding set_step_def members_intset [OF ok'] weights_intset [OF ok'] w
        using set_invI(1) [OF ok'] d(1) by (simp add: band_step_def)
      then show ?thesis using False by (simp only: a if_False) blast
    qed
  qed
qed

lemma addIntset_present:
  assumes ok: "intset_ok s vs" and m: "m \<in> set (render vs)" shows "addIntset s m = ret (s, False)"
proof -
  have d: "gs_data s = pack_lanes vs" "ints_sorted vs" using ok by (simp_all add: intset_ok_def)
  obtain v where v: "ParseInt m = Some v" "v \<in> set vs" using m unfolding render_mem by blast
  then have "lane_search s v < intsetLen s \<and> intLaneAt (gs_data s) (lane_search s v) = v"
    using lane_search_spec(4) [OF d, of v] by (auto simp: intsetLen_def d(1))
  then show ?thesis by (simp add: addIntset_def v(1) Let_def)
qed

lemma set_add_present: 
  assumes "set_inv th s" "m \<in> set (members s)" shows "set_add th s m = ret (s, False)"
  using assms(1)
proof (cases rule: set_inv_cases)
  case (intset vs)
  then show ?thesis using assms(2) unfolding members_intset [OF intset]
    by (simp add: set_add_def addIntset_present [OF intset] intset_ok_def)
next
  case (listpack ms)
  then show ?thesis using assms(2) unfolding members_listpack [OF listpack]
    by (simp add: set_add_def addListpack_present [OF listpack] listpack_ok_def)
next
  case (native h)
  then have "ht_add h m = ret (h, False)" using assms(2) unfolding members_native [OF native] by (intro add_present) (simp_all add: native_ok_def)
  then show ?thesis using native by (simp add: set_add_def native_ok_def native_add_def ht_of_def)
next
  case (part pt)
  then have "part_add th pt m = ret (pt, False)"
    using assms(2) unfolding members_part [OF part] by (intro part_add_present) (simp_all add: part_set_ok_def part_inv_def)
  then show ?thesis using part by (simp add: set_add_def part_set_ok_def part_of_def)
qed

lemma native_set_add:
  assumes ok: "native_ok s h" and th: "0 < th" and m: "m \<notin> set (contents h)" and f: "fits (slab_w h) (recs_w h) [m]"
  shows "\<exists>s'. set_add th s m = ret (s', True) \<and> set_step th m s (insert m (set (contents h))) (length m) 1 s'"
proof -
  obtain h' where h': "native_add s m = ret (s\<lparr>gs_ht := Some h'\<rparr>, True)" "native_ok (s\<lparr>gs_ht := Some h'\<rparr>) h'"
    "contents h' = contents h @ [m]" "slab_w h' \<le> slab_w h + length m" "recs_w h' \<le> recs_w h + 1"
    by (rule native_add_spec [OF ok m f])
  let ?s1 = "s\<lparr>gs_ht := Some h'\<rparr>"
  have e: "gs_enc s = encHashtable" "gs_ht s = Some h" using ok by (simp_all add: native_ok_def)
  have inv': "ht_inv h'" using h'(2) by (simp add: native_ok_def)
  show ?thesis
  proof (cases "ht_card h' \<ge> th")
    case True
    have "fits (slab_w h') (recs_w h') []" by (rule fits_tl [OF f h'(4,5)])
    then obtain pt where pt: "partitionedSet th h' = ret ((zero_set encPartitioned)\<lparr>gs_part := Some pt\<rparr>)" "part_inv th pt"
        "set (part_members pt) = set (contents h')" "parts_w slab_w pt \<le> slab_w h'" "parts_w recs_w pt \<le> recs_w h'" "pt_pgen pt = 1"
      by (rule partitionedSet_spec [OF inv' th])
    let ?s = "?s1\<lparr>gs_part := Some pt, gs_ht := None, gs_enc := encPartitioned\<rparr>"
    have ok': "part_set_ok th ?s pt" using pt(2) by (simp add: part_set_ok_def)
    have "set_add th s m = ret (?s, True)"
      using True h'(1) e(1) pt(1) by (simp add: set_add_def ht_of_def nativeToPartitioned_def)
    moreover have "set_step th m s (insert m (set (contents h))) (length m) 1 ?s"
      unfolding set_step_def members_part [OF ok'] weights_part [OF ok'] weights_native [OF ok]
      using set_invI(4) [OF ok'] pt(3-6) h'(3-5) e(1) by (simp add: band_step_def)
    ultimately show ?thesis by blast
  next
    case False
    have "set_add th s m = ret (?s1, True)" using False h'(1) e(1) by (simp add: set_add_def ht_of_def)
    moreover have "set_step th m s (insert m (set (contents h))) (length m) 1 ?s1"
      unfolding set_step_def members_native [OF h'(2)] weights_native [OF h'(2)] weights_native [OF ok]
      using set_invI(3) [OF h'(2)] h'(3-5) e by (simp add: band_step_def vec_keeps_append)
    ultimately show ?thesis by blast
  qed
qed

lemma part_set_add:
  assumes ok: "part_set_ok th s pt" and th: "0 < th" and m: "m \<notin> set (part_members pt)"
    and f: "fits (parts_w slab_w pt) (parts_w recs_w pt) [m]"
  shows "\<exists>s'. set_add th s m = ret (s', True) \<and> set_step th m s (insert m (set (part_members pt))) (length m) 1 s'"
proof -
  have e: "gs_enc s = encPartitioned" "gs_part s = Some pt" and inv: "part_inv th pt" using ok by (simp_all add: part_set_ok_def)
  obtain pt' where pt': "part_add th pt m = ret (pt', True)" "part_inv th pt'"
    "set (part_members pt') = insert m (set (part_members pt))"
    "parts_w slab_w pt' \<le> parts_w slab_w pt + length m" "parts_w recs_w pt' \<le> parts_w recs_w pt + 1"
    "pt_pgen pt' = pt_pgen pt + 1 \<or> pt_pgen pt' = pt_pgen pt \<and> length (pt_parts pt') = length (pt_parts pt)
       \<and> (\<forall>i < length (pt_parts pt). \<exists>ys. contents (pt_parts pt' ! i) = contents (pt_parts pt ! i) @ ys)"
    by (rule part_add_absent [OF inv th m f])
  let ?s = "s\<lparr>gs_part := Some pt'\<rparr>"
  have ok': "part_set_ok th ?s pt'" using e pt'(2) by (simp add: part_set_ok_def)
  have "pt_pgen pt' = pt_pgen pt + 1 \<or> pt_pgen pt' = pt_pgen pt \<and> length (pt_parts pt') = length (pt_parts pt)
       \<and> (\<forall>i < length (pt_parts pt). vec_keeps m (contents (pt_parts pt ! i)) (contents (pt_parts pt' ! i)))"
    using pt'(6) vec_keeps_append by metis
  then have "band_step m s ?s" using e by (simp add: band_step_def)
  then have "set_step th m s (insert m (set (part_members pt))) (length m) 1 ?s"
    unfolding set_step_def members_part [OF ok'] weights_part [OF ok'] weights_part [OF ok]
    using set_invI(4) [OF ok'] pt'(3-5) by simp
  moreover have "set_add th s m = ret (?s, True)" using pt'(1) e by (simp add: set_add_def part_of_def)
  ultimately show ?thesis by blast
qed

lemma set_add_absent:
  assumes "set_inv th s" "0 < th" "m \<notin> set (members s)" "fits (set_wb s) (set_wr s) [m]"
  obtains s' where "set_add th s m = ret (s', True)" "set_step th m s (insert m (set (members s))) (length m) 1 s'"
proof -
  have "\<exists>s'. set_add th s m = ret (s', True) \<and> set_step th m s (insert m (set (members s))) (length m) 1 s'"
    using assms(1)
  proof (cases rule: set_inv_cases)
    case (intset vs)
    have "set_add th s m = addIntset s m" using intset by (simp add: set_add_def intset_ok_def)
    then show ?thesis using addIntset_absent [OF intset, of m th] assms(3,4) unfolding members_intset [OF intset] by simp
  next
    case (listpack ms)
    have "set_add th s m = addListpack s m" using listpack by (simp add: set_add_def listpack_ok_def)
    then show ?thesis using addListpack_absent [OF listpack, of m th] assms(3,4) unfolding members_listpack [OF listpack] by simp
  next
    case (native h)
    then show ?thesis using native_set_add [OF native assms(2), of m] assms(3,4)
      unfolding members_native [OF native] weights_native [OF native] by simp
  next
    case (part pt)
    then show ?thesis using part_set_add [OF part assms(2), of m] assms(3,4)
      unfolding members_part [OF part] weights_part [OF part] by simp
  qed
  then show ?thesis using that by blast
qed

section \<open>Removal\<close>

definition cutAt :: "nat \<Rightarrow> 'a list \<Rightarrow> 'a list" where
  "cutAt i xs = take i xs @ drop (Suc i) xs"

lemma cut_map: "map f (cutAt i xs) = cutAt i (map f xs)"
  by (simp add: cutAt_def take_map drop_map)

lemma cut_set:
  assumes "distinct xs" "i < length xs" shows "set (cutAt i xs) = set xs - {xs ! i}" "distinct (cutAt i xs)"
proof -
  have e: "xs = take i xs @ xs ! i # drop (Suc i) xs" using assms(2) by (rule id_take_nth_drop)
  have d: "distinct (take i xs @ xs ! i # drop (Suc i) xs)" using assms(1) e by simp
  have "set xs = set (take i xs) \<union> {xs ! i} \<union> set (drop (Suc i) xs)" by (subst e) auto
  then show "set (cutAt i xs) = set xs - {xs ! i}" using d by (auto simp: cutAt_def)
  show "distinct (cutAt i xs)" using d by (auto simp: cutAt_def)
qed

lemma cut_length: "length (cutAt i xs) \<le> length xs"
  by (simp add: cutAt_def)

lemma cut_weight: "i < length xs \<Longrightarrow> length (concat (cutAt i xs)) \<le> length (concat xs)"
proof -
  assume i: "i < length xs"
  have "length (concat (take i xs @ xs ! i # drop (Suc i) xs)) = length (concat xs)" by (simp only: id_take_nth_drop [OF i, symmetric])
  then show "length (concat (cutAt i xs)) \<le> length (concat xs)" by (simp add: cutAt_def)
qed

lemma intset_cut:
  assumes ok: "intset_ok s vs" and i: "i < length vs"
  shows "set_step th (render vs ! i) s (set (render vs) - {render vs ! i}) 0 0 (s\<lparr>gs_data := remove_lane (gs_data s) i\<rparr>)"
proof -
  have d: "gs_enc s = encIntset" "gs_data s = pack_lanes vs" "ints_sorted vs" "length vs \<le> 512" "gs_n s = 0"
    using ok by (simp_all add: intset_ok_def)
  let ?s = "s\<lparr>gs_data := remove_lane (gs_data s) i\<rparr>"
  have ok': "intset_ok ?s (cutAt i vs)"
    using d i remove_lane_pack [OF i] ints_sorted_remove [OF d(3), of i] by (simp add: intset_ok_def cutAt_def)
  have i': "i < length (render vs)" using i by simp
  have "length (concat (render (cutAt i vs))) \<le> length (concat (render vs))" "length (cutAt i vs) \<le> length vs"
    using cut_weight [OF i'] cut_length [of i vs] unfolding cut_map by simp_all
  moreover have "set (render (cutAt i vs)) = set (render vs) - {render vs ! i}"
    unfolding cut_map by (rule cut_set(1) [OF render_distinct [OF d(3)] i'])
  ultimately show ?thesis
    unfolding set_step_def members_intset [OF ok'] weights_intset [OF ok'] weights_intset [OF ok]
    using set_invI(1) [OF ok'] d(1) by (simp add: band_step_def)
qed

lemma listpack_cut:
  assumes ok: "listpack_ok s ms" and i: "i < length ms"
  shows "set_step th (ms ! i) s (set ms - {ms ! i}) 0 0 (s\<lparr>gs_data := lp_pack (cutAt i ms), gs_n := gs_n s - 1\<rparr>)"
proof -
  have d: "gs_enc s = encListpack" "gs_n s = int (length ms)" "distinct ms" "length ms \<le> 128" "short ms"
    using ok by (simp_all add: listpack_ok_def)
  let ?s = "s\<lparr>gs_data := lp_pack (cutAt i ms), gs_n := gs_n s - 1\<rparr>"
  have "length (cutAt i ms) = length ms - 1" using i by (simp add: cutAt_def)
  then have ok': "listpack_ok ?s (cutAt i ms)"
    using d i cut_set [OF d(3) i] by (auto simp: listpack_ok_def)
  show ?thesis
    unfolding set_step_def members_listpack [OF ok'] weights_listpack [OF ok'] weights_listpack [OF ok]
    using set_invI(2) [OF ok'] d(1) cut_set(1) [OF d(3) i] cut_weight [OF i] cut_length [of i ms] by (simp add: band_step_def)
qed

lemma native_set_rem:
  assumes ok: "native_ok s h" and m: "m \<in> set (contents h)"
  shows "\<exists>s'. set_rem s m = ret (s', True) \<and> set_step th m s (set (contents h) - {m}) 0 0 s'"
proof -
  have e: "gs_enc s = encHashtable" "gs_ht s = Some h" and inv: "ht_inv h" using ok by (simp_all add: native_ok_def)
  obtain h' i where h': "ht_rem h m = ret (h', True)" "ht_inv h'" "i < length (contents h)" "contents h ! i = m"
    "contents h' = swap_remove i (contents h)" "slab_w h' \<le> slab_w h" "recs_w h' = recs_w h"
    by (rule rem_present [OF inv m])
  let ?s = "s\<lparr>gs_ht := Some h'\<rparr>"
  have ok': "native_ok ?s h'" using e h'(2) by (simp add: native_ok_def)
  have "set_rem s m = ret (?s, True)" using h'(1) e by (simp add: set_rem_def ht_of_def)
  moreover have "set_step th m s (set (contents h) - {m}) 0 0 ?s"
    unfolding set_step_def members_native [OF ok'] weights_native [OF ok'] weights_native [OF ok]
    using set_invI(3) [OF ok'] h'(3-7) e swap_remove_distinct(1) [OF inv_contents(1) [OF inv] h'(3)] vec_keeps_swap_remove [OF h'(3,4)]
    by (simp add: band_step_def)
  ultimately show ?thesis by blast
qed

lemma part_set_rem:
  assumes ok: "part_set_ok th s pt" and m: "m \<in> set (part_members pt)"
  shows "\<exists>s'. set_rem s m = ret (s', True) \<and> set_step th m s (set (part_members pt) - {m}) 0 0 s'"
proof -
  have e: "gs_enc s = encPartitioned" "gs_part s = Some pt" and inv: "part_inv th pt" using ok by (simp_all add: part_set_ok_def)
  obtain pt' i j where pt': "part_rem pt m = ret (pt', True)" "part_inv th pt'"
    "set (part_members pt') = set (part_members pt) - {m}"
    "parts_w slab_w pt' \<le> parts_w slab_w pt" "parts_w recs_w pt' \<le> parts_w recs_w pt"
    "pt_pgen pt' = pt_pgen pt" "length (pt_parts pt') = length (pt_parts pt)"
    "i < length (pt_parts pt)" "j < length (contents (pt_parts pt ! i))" "contents (pt_parts pt ! i) ! j = m"
    "contents (pt_parts pt' ! i) = swap_remove j (contents (pt_parts pt ! i))" "\<forall>l. l \<noteq> i \<longrightarrow> pt_parts pt' ! l = pt_parts pt ! l"
    by (rule part_rem_present [OF inv m])
  let ?s = "s\<lparr>gs_part := Some pt'\<rparr>"
  have ok': "part_set_ok th ?s pt'" using e pt'(2) by (simp add: part_set_ok_def)
  have "vec_keeps m (contents (pt_parts pt ! l)) (contents (pt_parts pt' ! l))" for l
    using vec_keeps_swap_remove [OF pt'(9,10)] pt'(11,12) vec_keeps_refl by (cases "l = i") auto
  then have "band_step m s ?s" using e pt'(6,7) by (simp add: band_step_def)
  then have "set_step th m s (set (part_members pt) - {m}) 0 0 ?s"
    unfolding set_step_def members_part [OF ok'] weights_part [OF ok'] weights_part [OF ok]
    using set_invI(4) [OF ok'] pt'(3-5) by simp
  moreover have "set_rem s m = ret (?s, True)" using pt'(1) e by (simp add: set_rem_def part_of_def)
  ultimately show ?thesis by blast
qed

lemma set_rem_present:
  assumes "set_inv th s" "m \<in> set (members s)"
  obtains s' where "set_rem s m = ret (s', True)" "set_step th m s (set (members s) - {m}) 0 0 s'"
proof -
  have "\<exists>s'. set_rem s m = ret (s', True) \<and> set_step th m s (set (members s) - {m}) 0 0 s'"
    using assms(1)
  proof (cases rule: set_inv_cases)
    case (intset vs)
    then have d: "gs_enc s = encIntset" "gs_data s = pack_lanes vs" "ints_sorted vs" by (simp_all add: intset_ok_def)
    obtain v where v: "ParseInt m = Some v" "v \<in> set vs" using assms(2) unfolding members_intset [OF intset] render_mem by blast
    let ?r = "lane_search s v"
    have r: "?r < length vs" "vs ! ?r = v" using lane_search_spec(4) [OF d(2,3), of v] v(2) by auto
    then have "m = render vs ! ?r" using v(1) by (simp add: ParseInt_iff)
    moreover have "set_rem s m = ret (s\<lparr>gs_data := remove_lane (gs_data s) ?r\<rparr>, True)"
      using r d(1,2) v(1) by (simp add: set_rem_def Let_def intsetLen_def)
    ultimately show ?thesis using intset_cut [OF intset r(1), of th] unfolding members_intset [OF intset] by blast
  next
    case (listpack ms)
    then have d: "gs_enc s = encListpack" "gs_data s = lp_pack ms" "short ms" by (simp_all add: listpack_ok_def)
    have m: "m \<in> set ms" using assms(2) unfolding members_listpack [OF listpack] .
    obtain k where k: "k < length ms" "ms ! k = m" "takeWhile (\<lambda>e. e \<noteq> m) ms = take k ms" by (rule takeWhile_take [OF m])
    have "set_rem s m = ret (s\<lparr>gs_data := lp_pack (cutAt k ms), gs_n := gs_n s - 1\<rparr>, True)"
      using lp_find_pack [OF d(3), of "[]" m] m k(3) lp_entry_at(4) [OF d(3) k(1)]
      by (simp add: set_rem_def d(1,2) listpackIndex_def cutAt_def)
    then show ?thesis using listpack_cut [OF listpack k(1), of th] k(2) unfolding members_listpack [OF listpack] by blast
  next
    case (native h)
    then show ?thesis using native_set_rem [OF native, of m th] assms(2) unfolding members_native [OF native] by simp
  next
    case (part pt)
    then show ?thesis using part_set_rem [OF part, of m] assms(2) unfolding members_part [OF part] by simp
  qed
  then show ?thesis using that by blast
qed

lemma set_rem_absent:
  assumes "set_inv th s" "m \<notin> set (members s)" shows "set_rem s m = ret (s, False)"
  using assms(1)
proof (cases rule: set_inv_cases)
  case (intset vs)
  then have d: "gs_enc s = encIntset" "gs_data s = pack_lanes vs" "ints_sorted vs" by (simp_all add: intset_ok_def)
  have n: "intsetLen s = length vs" by (simp add: intsetLen_def d(2))
  have "intsetLen s \<le> lane_search s v \<or> intLaneAt (gs_data s) (lane_search s v) \<noteq> v" if "ParseInt m = Some v" for v
    using that assms(2) lane_search_spec(4) [OF d(2,3), of v] unfolding members_intset [OF intset] render_mem n d(2)
    by (cases "lane_search s v < length vs") auto
  then show ?thesis by (simp add: set_rem_def d(1) Let_def split: option.splits)
next
  case (listpack ms)
  then show ?thesis using assms(2) lp_find_pack [of ms "[]" m] unfolding members_listpack [OF listpack]
    by (simp add: set_rem_def listpackIndex_def listpack_ok_def)
next
  case (native h)
  then show ?thesis using assms(2) unfolding members_native [OF native] by (simp add: set_rem_def native_ok_def ht_of_def rem_absent)
next
  case (part pt)
  then show ?thesis using assms(2) unfolding members_part [OF part]
    by (simp add: set_rem_def part_set_ok_def part_of_def part_rem_absent part_inv_def)
qed

text \<open>The removal at a drawn index is the removal of the member there.\<close>

lemma remAt_spec:
  assumes "set_inv th s" "i < length (members s)"
  obtains s' where "remAt s i (members s ! i) = ret s'" "set_step th (members s ! i) s (set (members s) - {members s ! i}) 0 0 s'"
proof -
  have fallback: "\<exists>s'. remAt s i (members s ! i) = ret s' \<and> set_step th (members s ! i) s (set (members s) - {members s ! i}) 0 0 s'"
    if "gs_enc s = encHashtable \<or> gs_enc s = encPartitioned"
    using set_rem_present [OF assms(1) nth_mem [OF assms(2)]] that by (fastforce simp: remAt_def)
  have "\<exists>s'. remAt s i (members s ! i) = ret s' \<and> set_step th (members s ! i) s (set (members s) - {members s ! i}) 0 0 s'"
    using assms(1)
  proof (cases rule: set_inv_cases)
    case (intset vs)
    then have i: "i < length vs" using assms(2) unfolding members_intset [OF intset] by simp
    then show ?thesis using intset intset_cut [OF intset i, of th] unfolding members_intset [OF intset] by (auto simp: remAt_def intset_ok_def)
  next
    case (listpack ms)
    then have d: "gs_enc s = encListpack" "gs_data s = lp_pack ms" "short ms" by (simp_all add: listpack_ok_def)
    have i: "i < length ms" using assms(2) unfolding members_listpack [OF listpack] .
    have "remAt s i (ms ! i) = ret (s\<lparr>gs_data := lp_pack (cutAt i ms), gs_n := gs_n s - 1\<rparr>)"
      using lp_skip_pack [OF d(3), of i "[]"] lp_entry_at(4) [OF d(3) i] i by (simp add: remAt_def d(1,2) cutAt_def)
    then show ?thesis using listpack_cut [OF listpack i, of th] unfolding members_listpack [OF listpack] by blast
  qed (use fallback in \<open>auto simp: native_ok_def part_set_ok_def\<close>)
  then show ?thesis using that by blast
qed

end
