(* ===== verification/SetContract.thy ===== *)
theory SetContract
  imports SetSteps
begin

text \<open>
  The contract a band of a set gives its callers: it is a finite set of byte strings under lookup,
  insertion and removal, within the room its fields have.  The native table, the partitioned band
  and the set over its bands provide it; the multi-member commands are proved once against it.
\<close>

section \<open>The member loop of a command\<close>

text \<open>The loop of SADD and SREM over their arguments, with the members that changed the set.\<close>

fun change_loop :: "('s \<Rightarrow> bytes \<Rightarrow> ('s \<times> bool) outcome) \<Rightarrow> 's \<Rightarrow> bytes list \<Rightarrow> ('s \<times> bytes list) outcome" where
  "change_loop step s [] = ret (s, [])"
| "change_loop step s (m # ms) =
    bindO (step s m) (\<lambda>(s, changed).
      bindO (change_loop step s ms) (\<lambda>(s, ch). ret (s, if changed then m # ch else ch)))"

section \<open>Contract\<close>

locale set_band =
  fixes inv :: "'s \<Rightarrow> bool"
    and elems :: "'s \<Rightarrow> bytes list"
    and wb wr :: "'s \<Rightarrow> nat"
    and has :: "'s \<Rightarrow> bytes \<Rightarrow> bool outcome"
    and add rem :: "'s \<Rightarrow> bytes \<Rightarrow> ('s \<times> bool) outcome"
  assumes has_law: "inv s \<Longrightarrow> has s m = ret (m \<in> set (elems s))"
    and elems_distinct: "inv s \<Longrightarrow> distinct (elems s)"
    and add_old: "inv s \<Longrightarrow> m \<in> set (elems s) \<Longrightarrow> add s m = ret (s, False)"
    and add_new: "inv s \<Longrightarrow> m \<notin> set (elems s) \<Longrightarrow> fits (wb s) (wr s) [m] \<Longrightarrow>
      \<exists>s'. add s m = ret (s', True) \<and> inv s' \<and> set (elems s') = insert m (set (elems s))
        \<and> wb s' \<le> wb s + length m \<and> wr s' \<le> wr s + 1"
    and rem_old: "inv s \<Longrightarrow> m \<notin> set (elems s) \<Longrightarrow> rem s m = ret (s, False)"
    and rem_new: "inv s \<Longrightarrow> m \<in> set (elems s) \<Longrightarrow>
      \<exists>s'. rem s m = ret (s', True) \<and> inv s' \<and> set (elems s') = set (elems s) - {m} \<and> wb s' \<le> wb s \<and> wr s' \<le> wr s"
begin

lemma add_loop:
  assumes "inv s" "fits (wb s) (wr s) ms"
  shows "\<exists>s' ch. change_loop add s ms = ret (s', ch) \<and> inv s' \<and> set (elems s') = set (elems s) \<union> set ms
    \<and> set ch = set ms - set (elems s) \<and> distinct ch \<and> wb s' \<le> wb s + length (concat ms) \<and> wr s' \<le> wr s + length ms"
  using assms
proof (induction ms arbitrary: s)
  case (Cons m ms)
  show ?case
  proof (cases "m \<in> set (elems s)")
    case True
    have "fits (wb s) (wr s) ms" by (rule fits_tl [OF Cons.prems(2)]) simp_all
    from Cons.IH [OF Cons.prems(1) this] show ?thesis
      using True by (auto simp: add_old [OF Cons.prems(1) True])
  next
    case False
    obtain s1 where s1: "add s m = ret (s1, True)" "inv s1" "set (elems s1) = insert m (set (elems s))"
      "wb s1 \<le> wb s + length m" "wr s1 \<le> wr s + 1"
      using add_new [OF Cons.prems(1) False fits_hd [OF Cons.prems(2)]] by blast
    obtain s2 ch where s2: "change_loop add s1 ms = ret (s2, ch)" "inv s2" "set (elems s2) = set (elems s1) \<union> set ms"
      "set ch = set ms - set (elems s1)" "distinct ch" "wb s2 \<le> wb s1 + length (concat ms)" "wr s2 \<le> wr s1 + length ms"
      using Cons.IH [OF s1(2) fits_tl [OF Cons.prems(2) s1(4,5)]] by blast
    have "set (m # ch) = set (m # ms) - set (elems s)" "distinct (m # ch)" using s2(4,5) s1(3) False by auto
    then show ?thesis using s1 s2 by (intro exI [of _ s2] exI [of _ "m # ch"]) auto
  qed
qed simp

lemma rem_loop:
  assumes "inv s"
  shows "\<exists>s' ch. change_loop rem s ms = ret (s', ch) \<and> inv s' \<and> set (elems s') = set (elems s) - set ms
    \<and> set ch = set ms \<inter> set (elems s) \<and> distinct ch \<and> wb s' \<le> wb s \<and> wr s' \<le> wr s"
  using assms
proof (induction ms arbitrary: s)
  case (Cons m ms)
  show ?case
  proof (cases "m \<in> set (elems s)")
    case False
    from Cons.IH [OF Cons.prems] show ?thesis using False by (auto simp: rem_old [OF Cons.prems False])
  next
    case True
    obtain s1 where s1: "rem s m = ret (s1, True)" "inv s1" "set (elems s1) = set (elems s) - {m}" "wb s1 \<le> wb s" "wr s1 \<le> wr s"
      using rem_new [OF Cons.prems True] by blast
    obtain s2 ch where s2: "change_loop rem s1 ms = ret (s2, ch)" "inv s2" "set (elems s2) = set (elems s1) - set ms"
      "set ch = set ms \<inter> set (elems s1)" "distinct ch" "wb s2 \<le> wb s1" "wr s2 \<le> wr s1"
      using Cons.IH [OF s1(2)] by blast
    have "set (m # ch) = set (m # ms) \<inter> set (elems s)" "distinct (m # ch)" using s2(4,5) s1(3) True by auto
    then show ?thesis using s1 s2 by (intro exI [of _ s2] exI [of _ "m # ch"]) auto
  qed
qed simp

text \<open>A member added and then removed leaves the set as it was.\<close>

lemma add_then_rem:
  assumes "inv s" "m \<notin> set (elems s)" "fits (wb s) (wr s) [m]"
  shows "\<exists>s1 s2. add s m = ret (s1, True) \<and> has s1 m = ret True \<and> rem s1 m = ret (s2, True)
    \<and> inv s2 \<and> set (elems s2) = set (elems s) \<and> has s2 m = ret False"
proof -
  obtain s1 where s1: "add s m = ret (s1, True)" "inv s1" "set (elems s1) = insert m (set (elems s))"
    using add_new [OF assms] by blast
  then obtain s2 where s2: "rem s1 m = ret (s2, True)" "inv s2" "set (elems s2) = set (elems s1) - {m}"
    using rem_new [of s1 m] by auto
  then show ?thesis using s1 assms(2) by (auto simp: has_law)
qed

end

section \<open>The bands provide it\<close>

interpretation nat_band: set_band ht_inv contents slab_w recs_w ht_has ht_add ht_rem
proof unfold_locales
  fix h m assume h: "ht_inv h"
  show "ht_has h m = ret (m \<in> set (contents h))" by (rule has_spec [OF h])
  show "distinct (contents h)" by (rule inv_contents(1) [OF h])
  show "m \<in> set (contents h) \<Longrightarrow> ht_add h m = ret (h, False)" by (rule add_present [OF h])
  show "m \<notin> set (contents h) \<Longrightarrow> ht_rem h m = ret (h, False)" by (rule rem_absent [OF h])
  {
    assume m: "m \<notin> set (contents h)" and f: "fits (slab_w h) (recs_w h) [m]"
    obtain h' where h': "ht_add h m = ret (h', True)" "ht_inv h'" "contents h' = contents h @ [m]"
      by (rule add_absent [OF h fits_room [OF h f] m])
    then show "\<exists>h'. ht_add h m = ret (h', True) \<and> ht_inv h' \<and> set (contents h') = insert m (set (contents h))
        \<and> slab_w h' \<le> slab_w h + length m \<and> recs_w h' \<le> recs_w h + 1"
      using add_size [OF h'(1)] by auto
  }
  {
    assume m: "m \<in> set (contents h)"
    obtain h' i where h': "ht_rem h m = ret (h', True)" "ht_inv h'" "i < length (contents h)" "contents h ! i = m"
        "contents h' = swap_remove i (contents h)" "slab_w h' \<le> slab_w h" "recs_w h' = recs_w h"
      by (rule rem_present [OF h m])
    then show "\<exists>h'. ht_rem h m = ret (h', True) \<and> ht_inv h' \<and> set (contents h') = set (contents h) - {m}
        \<and> slab_w h' \<le> slab_w h \<and> recs_w h' \<le> recs_w h"
      using swap_remove_distinct(1) [OF inv_contents(1) [OF h] h'(3)] by (intro exI [of _ h']) simp
  }
qed

interpretation part_band: set_band "\<lambda>pt. 0 < th \<and> part_inv th pt" part_members "parts_w slab_w" "parts_w recs_w" part_has "part_add th" part_rem
  for th
proof unfold_locales
  fix pt m assume pt: "0 < th \<and> part_inv th pt"
  then have c: "part_core pt" and inv: "part_inv th pt" and th: "0 < th" by (simp_all add: part_inv_def)
  show "part_has pt m = ret (m \<in> set (part_members pt))" by (rule part_has_spec [OF c])
  show "distinct (part_members pt)" by (rule part_distinct [OF c])
  show "m \<in> set (part_members pt) \<Longrightarrow> part_add th pt m = ret (pt, False)" by (rule part_add_present [OF c])
  show "m \<notin> set (part_members pt) \<Longrightarrow> part_rem pt m = ret (pt, False)" by (rule part_rem_absent [OF c])
  show "\<exists>pt'. part_add th pt m = ret (pt', True) \<and> (0 < th \<and> part_inv th pt') \<and> set (part_members pt') = insert m (set (part_members pt))
      \<and> parts_w slab_w pt' \<le> parts_w slab_w pt + length m \<and> parts_w recs_w pt' \<le> parts_w recs_w pt + 1"
    if "m \<notin> set (part_members pt)" "fits (parts_w slab_w pt) (parts_w recs_w pt) [m]"
    by (rule part_add_absent [OF inv th that]) (use th in blast)
  show "\<exists>pt'. part_rem pt m = ret (pt', True) \<and> (0 < th \<and> part_inv th pt') \<and> set (part_members pt') = set (part_members pt) - {m}
      \<and> parts_w slab_w pt' \<le> parts_w slab_w pt \<and> parts_w recs_w pt' \<le> parts_w recs_w pt"
    if "m \<in> set (part_members pt)"
    by (rule part_rem_present [OF inv that]) (use th in blast)
qed

interpretation gs: set_band "\<lambda>s. 0 < th \<and> set_inv th s" members set_wb set_wr set_has "set_add th" set_rem for th
proof unfold_locales
  fix s m assume s: "0 < th \<and> set_inv th s"
  then have inv: "set_inv th s" and th: "0 < th" by simp_all
  show "set_has s m = ret (m \<in> set (members s))" by (rule set_has_spec [OF inv])
  show "distinct (members s)" by (rule members_distinct [OF inv])
  show "m \<in> set (members s) \<Longrightarrow> set_add th s m = ret (s, False)" by (rule set_add_present [OF inv])
  show "m \<notin> set (members s) \<Longrightarrow> set_rem s m = ret (s, False)" by (rule set_rem_absent [OF inv])
  show "\<exists>s'. set_add th s m = ret (s', True) \<and> (0 < th \<and> set_inv th s') \<and> set (members s') = insert m (set (members s))
      \<and> set_wb s' \<le> set_wb s + length m \<and> set_wr s' \<le> set_wr s + 1"
    if "m \<notin> set (members s)" "fits (set_wb s) (set_wr s) [m]"
    by (rule set_add_absent [OF inv th that]) (use th in \<open>auto simp: set_step_def\<close>)
  show "\<exists>s'. set_rem s m = ret (s', True) \<and> (0 < th \<and> set_inv th s') \<and> set (members s') = set (members s) - {m}
      \<and> set_wb s' \<le> set_wb s \<and> set_wr s' \<le> set_wr s"
    if "m \<in> set (members s)"
    by (rule set_rem_present [OF inv that]) (use th in \<open>auto simp: set_step_def\<close>)
qed

end
