(* ===== verification/SetScan.thy ===== *)
theory SetScan
  imports SetContract
begin

unbundle bit_operations_syntax

text \<open>
  SSCAN (engine/f3/set/scan.go and the partitioned scan of partition.go): the glob filter, the
  downward cursor over the draw vector and the packed cursor over the partitions.  A page is the
  next cursor with the members it emits, in order.
\<close>

section \<open>The glob filter\<close>

text \<open>The body of a character class, up to its closing bracket or the end of the pattern.\<close>

function class_loop :: "byte \<Rightarrow> bytes \<Rightarrow> bool \<Rightarrow> bool \<times> bytes" where
  "class_loop c p acc =
    (case p of [] \<Rightarrow> (acc, [])
     | x # r \<Rightarrow>
         if x = 93 then (acc, p)
         else if x = 92 \<and> r \<noteq> [] then class_loop c (tl r) (acc \<or> hd r = c)
         else if length r \<ge> 2 \<and> r ! 0 = 45 \<and> r ! 1 \<noteq> 93 then
           class_loop c (drop 2 r) (acc \<or> (min x (r ! 1) \<le> c \<and> c \<le> max x (r ! 1)))
         else class_loop c r (acc \<or> x = c))"
  by pat_completeness auto
termination by (relation "measure (\<lambda>(c, p, acc). length p)") auto

declare class_loop.simps [simp del]

lemma class_loop_length: "length (snd (class_loop c p acc)) \<le> length p"
proof (induction c p acc rule: class_loop.induct)
  case (1 c p acc)
  show ?case
  proof (cases p)
    case (Cons x r)
    show ?thesis using "1.IH" [OF Cons] Cons by (subst class_loop.simps) (auto simp: Let_def)
  qed (simp add: class_loop.simps)
qed

function globMatch :: "bytes \<Rightarrow> bytes \<Rightarrow> bool" where
  "globMatch p s =
    (case p of [] \<Rightarrow> s = []
     | x # r \<Rightarrow>
         if x = 42 then
           (let r = dropWhile (\<lambda>y. y = 42) r in
            if r = [] then True else list_ex (\<lambda>i. globMatch r (drop i s)) [0..<length s + 1])
         else if x = 63 then (case s of [] \<Rightarrow> False | c # s' \<Rightarrow> globMatch r s')
         else if x = 91 then
           (case s of [] \<Rightarrow> False
            | c # s' \<Rightarrow>
                (let neg = (r \<noteq> [] \<and> hd r = 94); (matched, q) = class_loop c (if neg then tl r else r) False in
                 if matched = neg then False else globMatch (tl q) s'))
         else if x = 92 then
           (let r = (if r \<noteq> [] then r else p) in
            case s of [] \<Rightarrow> False | c # s' \<Rightarrow> hd r = c \<and> globMatch (tl r) s')
         else (case s of [] \<Rightarrow> False | c # s' \<Rightarrow> x = c \<and> globMatch r s'))"
  by pat_completeness auto
termination
proof (relation "measure (\<lambda>(p, s). length p)", goal_cases)
  case (2 p s x r r' i)
  then show ?case using length_dropWhile_le [of "\<lambda>y. y = 42" r] by simp
next
  case (4 p s x r c s' neg z matched q)
  have "length q \<le> length (if neg then tl r else r)"
    using class_loop_length [of c "if neg then tl r else r" False] 4 by (metis snd_conv)
  then show ?case using 4(1) by (auto split: if_splits)
qed auto

declare globMatch.simps [simp del]

section \<open>Pages\<close>

text \<open>match == nil || globMatch(match, m)\<close>

definition keep :: "bytes option \<Rightarrow> bytes \<Rightarrow> bool" where
  "keep pat m = (case pat of None \<Rightarrow> True | Some p \<Rightarrow> globMatch p m)"

text \<open>The draw slots [lo, b) of a table, from the top down, through the filter.\<close>

definition slots_down :: "htable \<Rightarrow> bytes option \<Rightarrow> nat \<Rightarrow> nat \<Rightarrow> err + bytes list" where
  "slots_down h pat lo b = bindE (members_of h (rev (map ((!) (ht_vec h)) [lo..<b]))) (\<lambda>ms. Inr (filter (keep pat) ms))"

definition ht_scanPage :: "htable \<Rightarrow> u64 \<Rightarrow> nat \<Rightarrow> bytes option \<Rightarrow> err + u64 \<times> bytes list" where
  "ht_scanPage h cursor count pat =
    (let n = length (ht_vec h) in
     if n = 0 then Inr (0, [])
     else let b = (if cursor \<noteq> 0 \<and> unat cursor < n then unat cursor else n);
              lo = (if b > count then b - count else 0)
          in bindE (slots_down h pat lo b) (\<lambda>ms. Inr (of_nat lo, ms)))"

definition packCursor :: "u32 \<Rightarrow> nat \<Rightarrow> int \<Rightarrow> u64" where
  "packCursor pgen part b = push_bit 52 (ucast pgen) OR push_bit 40 (of_nat part) OR of_int (b + 1)"

text \<open>The loop over the partitions: from boundary b of partition part, with remaining slots to examine.\<close>

function part_page :: "partitioned \<Rightarrow> bytes option \<Rightarrow> nat \<Rightarrow> int \<Rightarrow> nat \<Rightarrow> err + u64 \<times> bytes list" where
  "part_page pt pat part b remaining =
    (if part < length (pt_parts pt) then
       (let h = pt_parts pt ! part; b = min b (int (vlen h)); k = min (nat b) remaining; b' = b - int k; rem = remaining - k in
        bindE (slots_down h pat (nat b - k) (nat b)) (\<lambda>ms.
          if b' > 0 then Inr (packCursor (pt_pgen pt) part b', ms)
          else if rem = 0 then
            (if part + 1 < length (pt_parts pt)
             then Inr (packCursor (pt_pgen pt) (part + 1) (int (vlen (pt_parts pt ! (part + 1)))), ms) else Inr (0, ms))
          else if part + 1 < length (pt_parts pt) then
            bindE (part_page pt pat (part + 1) (int (vlen (pt_parts pt ! (part + 1)))) rem) (\<lambda>(next, ms'). Inr (next, ms @ ms'))
          else Inr (0, ms)))
     else Inr (0, []))"
  by pat_completeness auto
termination by (relation "measure (\<lambda>(pt, pat, part, b, remaining). length (pt_parts pt) - part)") auto

declare part_page.simps [simp del]

definition part_scanPage :: "partitioned \<Rightarrow> u64 \<Rightarrow> nat \<Rightarrow> bytes option \<Rightarrow> err + u64 \<times> bytes list" where
  "part_scanPage pt cursor count pat =
    (let restart = (if pt_parts pt = [] then Inl Panic else part_page pt pat 0 (int (vlen (pt_parts pt ! 0))) count) in
     if cursor = 0 then restart
     else if (ucast (drop_bit 52 cursor) :: u32) \<noteq> pt_pgen pt then restart
     else part_page pt pat (unat (drop_bit 40 cursor AND 0xfff)) (int (unat (cursor AND 0xffffffffff)) - 1) count)"

definition set_scanPage :: "goset \<Rightarrow> u64 \<Rightarrow> nat \<Rightarrow> bytes option \<Rightarrow> err + u64 \<times> bytes list" where
  "set_scanPage s cursor count pat = (case gs_enc s of
      encPartitioned \<Rightarrow> bindE (part_of s) (\<lambda>pt. part_scanPage pt cursor count pat)
    | encHashtable \<Rightarrow> bindE (ht_of s) (\<lambda>h. ht_scanPage h cursor count pat)
    | _ \<Rightarrow> if cursor \<noteq> 0 then Inr (0, []) else bindE (set_each s) (\<lambda>ms. Inr (0, filter (keep pat) ms)))"

end
