(* ===== verification/ScanProps.thy ===== *)
theory ScanProps
  imports SetScan
begin

unbundle bit_operations_syntax

text \<open>
  The guarantee of SSCAN: a member present for the whole scan is returned at least once, whatever
  is added and removed between the pages, across the engagement and the splits of the partitioned
  band.
\<close>

section \<open>The packed cursor\<close>

abbreviation cur_gen :: "u64 \<Rightarrow> u32" where "cur_gen c \<equiv> ucast (drop_bit 52 c)"
abbreviation cur_part :: "u64 \<Rightarrow> nat" where "cur_part c \<equiv> unat (drop_bit 40 c AND 0xfff)"
abbreviation cur_bound :: "u64 \<Rightarrow> int" where "cur_bound c \<equiv> int (unat (c AND 0xffffffffff)) - 1"

lemma high_bit_clear: "unat (w :: 'a::len word) < 2 ^ k \<Longrightarrow> k \<le> n \<Longrightarrow> \<not> bit w n"
proof
  assume w: "unat w < 2 ^ k" "k \<le> n" and b: "bit w n"
  have "unat w < 2 ^ n" by (rule order.strict_trans2 [OF w(1) power_increasing [OF w(2)]]) simp
  then have "take_bit n (unat w) = unat w" by (rule take_bit_nat_eq_self)
  then have "\<not> bit (unat w) n" by (metis bit_take_bit_iff less_irrefl)
  then show False using b by (simp add: bit_unsigned_iff)
qed

lemma cursor_fields: "(w :: u64) AND 0xfff = take_bit 12 w" "(w :: u64) AND 0xffffffffff = take_bit 40 w"
  by (simp_all add: take_bit_eq_mask mask_eq_exp_minus_1)

lemma int_unat_of_int: "0 \<le> i \<Longrightarrow> i < 2 ^ 64 \<Longrightarrow> int (unat (of_int i :: u64)) = i"
  by (simp add: uint_word_of_int_eq take_bit_int_eq_self)

lemma ucast_back: "ucast (ucast (w :: u32) :: u64) = w"
  by (rule bit_word_eqI) (simp add: bit_ucast_iff)

lemma unpack:
  assumes g: "unat pgen < 2 ^ 12" and p: "part < 2 ^ 12" and b: "- 1 \<le> b" "b < 2 ^ 40 - 1"
  shows "cur_gen (packCursor pgen part b) = pgen" "cur_part (packCursor pgen part b) = part" "cur_bound (packCursor pgen part b) = b"
    and "packCursor pgen part b = 0 \<Longrightarrow> b = - 1"
proof -
  define x y z :: u64 where "x = ucast pgen" and "y = of_nat part" and "z = of_int (b + 1)"
  have c: "packCursor pgen part b = push_bit 52 x OR push_bit 40 y OR z" by (simp add: packCursor_def x_def y_def z_def)
  have ux: "unat x = unat pgen" by (simp add: x_def unat_ucast_32)
  have uy: "unat y = part" using p by (simp add: y_def unat_of_nat)
  have uz: "int (unat z) = b + 1" unfolding z_def by (rule int_unat_of_int) (use b in auto)
  have hx: "\<not> bit x n" if "12 \<le> n" for n using high_bit_clear [of x 12 n] g ux that by simp
  then have bx: "bit x n \<Longrightarrow> n < 12" for n using not_less by blast
  have hy: "\<not> bit y n" if "12 \<le> n" for n using high_bit_clear [of y 12 n] p uy that by simp
  have "int (unat z) < int (2 ^ 40)" unfolding uz using b by simp
  then have "unat z < 2 ^ 40" by (simp only: of_nat_less_iff)
  have by': "bit y n \<Longrightarrow> n < 12" for n using hy not_less by blast
  have hz: "\<not> bit z n" if "40 \<le> n" for n using high_bit_clear [of z 40 n] \<open>unat z < 2 ^ 40\<close> that by simp
  then have bz: "bit z n \<Longrightarrow> n < 40" for n using not_less by blast
  have "drop_bit 52 (packCursor pgen part b) = x" unfolding c
    by (rule bit_word_eqI) (auto simp: bit_simps hy hz dest: bx)
  then show "cur_gen (packCursor pgen part b) = pgen" by (simp add: x_def ucast_back)
  have "drop_bit 40 (packCursor pgen part b) AND 0xfff = y" unfolding c cursor_fields
    by (rule bit_word_eqI) (auto simp: bit_take_bit_iff bit_or_iff bit_drop_bit_eq bit_push_bit_iff hz dest: by')
  then show "cur_part (packCursor pgen part b) = part" using uy by simp
  have z: "packCursor pgen part b AND 0xffffffffff = z" unfolding c cursor_fields
    by (rule bit_word_eqI) (auto simp: bit_take_bit_iff bit_or_iff bit_push_bit_iff dest: bz)
  then show 1: "cur_bound (packCursor pgen part b) = b" using uz by simp
  show "b = - 1" if "packCursor pgen part b = 0" using 1 unfolding that by simp
qed

section \<open>Pages\<close>

lemma slots_down_spec:
  assumes "ht_inv h" "b \<le> length (contents h)"
  shows "slots_down h pat lo b = Inr (filter (keep pat) (rev (map ((!) (contents h)) [lo..<b])))"
proof -
  have w: "ht_wf h" using assms(1) by (simp add: ht_inv_def)
  have b: "b \<le> length (ht_vec h)" using assms(2) by (simp add: contents_def)
  then have "set (rev (map ((!) (ht_vec h)) [lo..<b])) \<subseteq> set (ht_vec h)" by (auto intro!: nth_mem)
  moreover have "map (rec_bytes h) (rev (map ((!) (ht_vec h)) [lo..<b])) = rev (map ((!) (contents h)) [lo..<b])"
    using b by (simp add: rev_map contents_def)
  ultimately show ?thesis by (simp add: slots_down_def members_of_wf [OF w])
qed

text \<open>Slot i of partition p is still ahead of the boundary b of partition q.\<close>

definition ahead :: "nat \<Rightarrow> nat \<Rightarrow> nat \<Rightarrow> int \<Rightarrow> bool" where
  "ahead p i q b \<longleftrightarrow> q < p \<or> p = q \<and> int i < b"

text \<open>A member the page does not return is ahead of the cursor it returns.\<close>

definition page_covers :: "partitioned \<Rightarrow> bytes option \<Rightarrow> nat \<Rightarrow> int \<Rightarrow> u64 \<Rightarrow> bytes list \<Rightarrow> bool" where
  "page_covers pt pat part b c ms \<longleftrightarrow>
    (\<forall>p i. p < length (pt_parts pt) \<and> i < length (contents (pt_parts pt ! p)) \<and> ahead p i part b
       \<and> keep pat (contents (pt_parts pt ! p) ! i) \<longrightarrow>
       contents (pt_parts pt ! p) ! i \<in> set ms \<or> c \<noteq> 0 \<and> ahead p i (cur_part c) (cur_bound c))
    \<and> (c \<noteq> 0 \<longrightarrow> cur_gen c = pt_pgen pt) \<and> set ms \<subseteq> set (part_members pt)"

lemma part_page_spec:
  assumes core: "part_core pt" and P: "length (pt_parts pt) \<le> 2 ^ 12" and g: "unat (pt_pgen pt) < 2 ^ 12"
    and n: "\<forall>h \<in> set (pt_parts pt). length (contents h) < 2 ^ 39"
  shows "0 < remaining \<Longrightarrow> \<exists>c ms. part_page pt pat part b remaining = Inr (c, ms) \<and> page_covers pt pat part b c ms"
proof (induction "length (pt_parts pt) - part" arbitrary: part b remaining)
  case 0
  then show ?case by (auto simp: part_page.simps page_covers_def ahead_def)
next
  case (Suc d)
  then have part: "part < length (pt_parts pt)" by simp
  define h b0 k where "h = pt_parts pt ! part" and "b0 = min b (int (vlen h))" and "k = min (nat b0) remaining"
  define lo where "lo = nat b0 - k"
  define E where "E = filter (keep pat) (rev (map ((!) (contents h)) [lo..<nat b0]))"
  have hi: "ht_inv h" unfolding h_def by (rule part_coreD(3) [OF core part])
  have v: "vlen h = length (contents h)" by (simp add: vlen_def contents_def)
  have len: "length (contents x) < 2 ^ 39" if "x \<in> set (pt_parts pt)" for x using n that by blast
  have b0: "nat b0 \<le> length (contents h)" "b0 \<le> b" "b0 \<le> int (length (contents h))" using v by (auto simp: b0_def)
  have sd: "slots_down h pat lo (nat b0) = Inr E" unfolding E_def by (rule slots_down_spec [OF hi b0(1)])
  have inE: "contents h ! i \<in> set E" if "lo \<le> i" "int i < b0" "keep pat (contents h ! i)" for i
    using that by (auto simp: E_def)
  have "set E \<subseteq> set (contents h)" using b0(1) by (auto simp: E_def)
  then have sub: "set E \<subseteq> set (part_members pt)" using nth_mem [OF part] by (auto simp: part_members_def h_def)
  have cut: "contents h ! i \<in> set E \<or> int i < b0 - int k"
    if "i < length (contents h)" "int i < b" "keep pat (contents h ! i)" for i
  proof (cases "lo \<le> i")
    case True
    have "int i < b0" using that v by (simp add: b0_def)
    then show ?thesis using inE [OF True _ that(3)] by blast
  next
    case False
    then show ?thesis by (auto simp: lo_def)
  qed
  have page: "part_page pt pat part b remaining =
      (if b0 - int k > 0 then Inr (packCursor (pt_pgen pt) part (b0 - int k), E)
       else if remaining - k = 0 then
         (if part + 1 < length (pt_parts pt)
          then Inr (packCursor (pt_pgen pt) (part + 1) (int (vlen (pt_parts pt ! (part + 1)))), E) else Inr (0, E))
       else if part + 1 < length (pt_parts pt) then
         bindE (part_page pt pat (part + 1) (int (vlen (pt_parts pt ! (part + 1)))) (remaining - k)) (\<lambda>(next, ms'). Inr (next, E @ ms'))
       else Inr (0, E))"
    by (subst part_page.simps)
      (simp only: part if_True Let_def h_def [symmetric] b0_def [symmetric] k_def [symmetric] lo_def [symmetric] sd bindE_Inr)
  let ?nx = "int (vlen (pt_parts pt ! (part + 1)))"
  show ?case
  proof (cases "b0 - int k > 0")
    case True
    let ?c = "packCursor (pt_pgen pt) part (b0 - int k)"
    have "b0 - int k < 2 ^ 40 - 1" using b0(3) len [OF nth_mem [OF part]] by (simp add: h_def)
    then have up: "cur_gen ?c = pt_pgen pt" "cur_part ?c = part" "cur_bound ?c = b0 - int k" "?c \<noteq> 0"
      using unpack [OF g, of part "b0 - int k"] part P True by auto
    have "page_covers pt pat part b ?c E"
      unfolding page_covers_def up using cut up(4) sub by (auto simp: ahead_def h_def)
    then show ?thesis using True unfolding page by auto
  next
    case False
    have all: "contents h ! i \<in> set E" if "i < length (contents h)" "int i < b" "keep pat (contents h ! i)" for i
      using cut [OF that] False by auto
    show ?thesis
    proof (cases "part + 1 < length (pt_parts pt)")
      case last: False
      have "page_covers pt pat part b 0 E" using all sub last by (auto simp: page_covers_def ahead_def h_def)
      then show ?thesis using False last unfolding page by auto
    next
      case nx: True
      have nv: "?nx = int (length (contents (pt_parts pt ! (part + 1))))" by (simp add: vlen_def contents_def)
      have ahead: "ahead p i (part + 1) ?nx"
        if "p < length (pt_parts pt)" "i < length (contents (pt_parts pt ! p))" "part < p" for p i
        using that nv by (cases "p = part + 1") (auto simp: ahead_def)
      show ?thesis
      proof (cases "remaining - k = 0")
        case True
        let ?c = "packCursor (pt_pgen pt) (part + 1) ?nx"
        have "?nx < 2 ^ 40 - 1" using nv len [OF nth_mem [OF nx]] by simp
        then have up: "cur_gen ?c = pt_pgen pt" "cur_part ?c = part + 1" "cur_bound ?c = ?nx" "?c \<noteq> 0"
          using unpack [OF g, of "part + 1" ?nx] nx P by auto
        have "page_covers pt pat part b ?c E"
          unfolding page_covers_def up using all ahead up(4) sub by (auto simp: ahead_def [of _ _ part] h_def)
        then show ?thesis using False True nx unfolding page by auto
      next
        case more: False
        have "\<exists>c ms. part_page pt pat (part + 1) ?nx (remaining - k) = Inr (c, ms) \<and> page_covers pt pat (part + 1) ?nx c ms"
          using Suc.hyps(2) more by (intro Suc.hyps(1)) auto
        then obtain c ms where c: "part_page pt pat (part + 1) ?nx (remaining - k) = Inr (c, ms)" "page_covers pt pat (part + 1) ?nx c ms" by blast
        have "page_covers pt pat part b c (E @ ms)" unfolding page_covers_def
        proof (intro conjI allI impI, goal_cases)
          case (1 p i)
          show ?case
          proof (cases "p = part")
            case True
            then show ?thesis using all [of i] 1 by (auto simp: ahead_def h_def)
          next
            case False
            then have "part < p" using 1 by (auto simp: ahead_def)
            then have "ahead p i (part + 1) ?nx" using ahead [of p i] 1 by blast
            then show ?thesis using c(2) 1 unfolding page_covers_def set_append by blast
          qed
        qed (use c(2) sub in \<open>auto simp: page_covers_def\<close>)
        then show ?thesis using False more nx c(1) unfolding page by auto
      qed
    qed
  qed
qed

section \<open>A member ahead of the cursor\<close>

definition pending :: "bytes \<Rightarrow> goset \<Rightarrow> u64 \<Rightarrow> bool" where
  "pending m s c = (case gs_enc s of
      encHashtable \<Rightarrow>
        (let xs = contents (the (gs_ht s)) in unat c < 2 ^ 40 \<and> (\<exists>i. i < unat c \<and> i < length xs \<and> xs ! i = m))
    | encPartitioned \<Rightarrow>
        (let pt = the (gs_part s) in unat (cur_gen c) \<le> unat (pt_pgen pt) \<and>
           (cur_gen c = pt_pgen pt \<longrightarrow>
             (\<exists>p i. p < length (pt_parts pt) \<and> i < length (contents (pt_parts pt ! p)) \<and> contents (pt_parts pt ! p) ! i = m
               \<and> ahead p i (cur_part c) (cur_bound c))))
    | _ \<Rightarrow> False)"

lemma pending_native:
  assumes "gs_enc s = encHashtable" "gs_ht s = Some h"
  shows "pending m s c \<longleftrightarrow> unat c < 2 ^ 40 \<and> (\<exists>i. i < unat c \<and> i < length (contents h) \<and> contents h ! i = m)"
  by (simp only: pending_def assms encoding.case Let_def option.sel)

lemma pending_part:
  assumes "gs_enc s = encPartitioned" "gs_part s = Some pt"
  shows "pending m s c \<longleftrightarrow> unat (cur_gen c) \<le> unat (pt_pgen pt) \<and>
    (cur_gen c = pt_pgen pt \<longrightarrow>
      (\<exists>p i. p < length (pt_parts pt) \<and> i < length (contents (pt_parts pt ! p)) \<and> contents (pt_parts pt ! p) ! i = m
        \<and> ahead p i (cur_part c) (cur_bound c)))"
  by (simp only: pending_def assms encoding.case Let_def option.sel)

lemma part_bounds:
  assumes "part_inv th pt" "262144 \<le> th" "fits (parts_w slab_w pt) (parts_w recs_w pt) []"
  shows "length (pt_parts pt) \<le> 2 ^ 12" "unat (pt_pgen pt) < 2 ^ 12" "\<forall>h \<in> set (pt_parts pt). length (contents h) < 2 ^ 39"
proof -
  have c: "part_core pt" using assms(1) by (simp add: part_inv_def)
  let ?P = "length (pt_parts pt)"
  show P: "?P \<le> 2 ^ 12"
  proof (rule ccontr)
    assume "\<not> ?P \<le> 2 ^ 12"
    then have "th * 4096 \<le> th * ?P" by simp
    moreover have "th * ?P < 14 * 2 ^ 26 + 2 * th" using assms(1) \<open>\<not> ?P \<le> 2 ^ 12\<close> by (auto simp: part_inv_def)
    ultimately have "th * 4096 < 14 * 2 ^ 26 + 2 * th" by (rule order.strict_trans1)
    then show False using assms(2) by simp
  qed
  have "(2 :: nat) ^ (unat (pt_pgen pt) + 1) \<le> 2 ^ 12" using assms(1) P by (auto simp: part_inv_def)
  then have "unat (pt_pgen pt) + 1 \<le> 12" by (rule power_le_imp_le_exp [rotated]) simp
  then show "unat (pt_pgen pt) < 2 ^ 12" by simp
  show "\<forall>h \<in> set (pt_parts pt). length (contents h) < 2 ^ 39"
  proof
    fix h assume "h \<in> set (pt_parts pt)"
    then obtain i where "i < ?P" "h = pt_parts pt ! i" by (auto simp: in_set_conv_nth)
    then have "length (contents h) \<le> length (part_members pt)"
      unfolding length_part_members using part_weight_nth [of i "pt_parts pt" "\<lambda>h. length (contents h)"] by simp
    then show "length (contents h) < 2 ^ 39" using part_members_weight(2) [OF c] assms(3) by (simp add: fits_def)
  qed
qed

lemma native_page:
  assumes h: "ht_inv h" and n: "length (contents h) < 2 ^ 32" and count: "0 < count"
  shows "\<exists>c' ms. ht_scanPage h c count pat = Inr (c', ms) \<and> set ms \<subseteq> set (contents h) \<and> unat c' < 2 ^ 40
    \<and> (\<forall>i < length (contents h). (c = 0 \<or> i < unat c) \<and> keep pat (contents h ! i) \<longrightarrow> contents h ! i \<in> set ms \<or> i < unat c')"
proof (cases "length (contents h) = 0")
  case True
  then show ?thesis by (auto simp: ht_scanPage_def contents_def)
next
  case False
  have v: "length (ht_vec h) = length (contents h)" by (simp add: contents_def)
  define b where "b = (if c \<noteq> 0 \<and> unat c < length (contents h) then unat c else length (contents h))"
  define lo where "lo = (if b > count then b - count else 0)"
  define E where "E = filter (keep pat) (rev (map ((!) (contents h)) [lo..<b]))"
  have b: "b \<le> length (contents h)" by (simp add: b_def)
  have "ht_scanPage h c count pat = Inr (of_nat lo, E)"
    using False slots_down_spec [OF h b, of pat lo] unfolding ht_scanPage_def v Let_def b_def [symmetric] lo_def [symmetric] E_def [symmetric]
    by simp
  moreover have u: "unat (of_nat lo :: u64) = lo" using n b by (simp add: lo_def unat_of_nat)
  moreover have "lo < 2 ^ 40"
  proof -
    have "lo \<le> b" by (simp add: lo_def)
    then show ?thesis using n b by simp
  qed
  moreover have "contents h ! i \<in> set E \<or> i < lo" if "i < length (contents h)" "c = 0 \<or> i < unat c" "keep pat (contents h ! i)" for i
    using that by (auto simp: E_def b_def)
  moreover have "set E \<subseteq> set (contents h)" using b by (auto simp: E_def)
  ultimately show ?thesis by auto
qed

lemma part_pages:
  assumes inv: "part_inv th pt" and th: "262144 \<le> th" and f: "fits (parts_w slab_w pt) (parts_w recs_w pt) []" and count: "0 < count"
  shows "\<exists>c' ms. part_scanPage pt c count pat = Inr (c', ms) \<and> set ms \<subseteq> set (part_members pt) \<and> (c' \<noteq> 0 \<longrightarrow> cur_gen c' = pt_pgen pt)
    \<and> (\<forall>p i. p < length (pt_parts pt) \<and> i < length (contents (pt_parts pt ! p))
         \<and> (c = 0 \<or> cur_gen c \<noteq> pt_pgen pt \<or> ahead p i (cur_part c) (cur_bound c)) \<and> keep pat (contents (pt_parts pt ! p) ! i) \<longrightarrow>
         contents (pt_parts pt ! p) ! i \<in> set ms \<or> c' \<noteq> 0 \<and> ahead p i (cur_part c') (cur_bound c'))"
proof -
  have core: "part_core pt" using inv by (simp add: part_inv_def)
  note pg = part_page_spec [OF core part_bounds [OF inv th f] count, of pat]
  have ne: "pt_parts pt \<noteq> []" using core by (auto simp: part_core_def)
  show ?thesis
  proof (cases "c = 0 \<or> cur_gen c \<noteq> pt_pgen pt")
    case True
    let ?n = "int (vlen (pt_parts pt ! 0))"
    obtain c' ms where c': "part_page pt pat 0 ?n count = Inr (c', ms)" "page_covers pt pat 0 ?n c' ms" using pg by blast
    have "ahead p i 0 ?n" if "p < length (pt_parts pt)" "i < length (contents (pt_parts pt ! p))" for p i
      using that by (cases p) (auto simp: ahead_def vlen_def contents_def)
    moreover have "part_scanPage pt c count pat = Inr (c', ms)" using True ne c'(1) by (auto simp: part_scanPage_def Let_def)
    ultimately show ?thesis using c'(2) unfolding page_covers_def by blast
  next
    case False
    obtain c' ms where c': "part_page pt pat (cur_part c) (cur_bound c) count = Inr (c', ms)"
      "page_covers pt pat (cur_part c) (cur_bound c) c' ms" using pg by blast
    have "part_scanPage pt c count pat = Inr (c', ms)" using False c'(1) by (simp add: part_scanPage_def Let_def)
    then show ?thesis using c'(2) False unfolding page_covers_def by blast
  qed
qed

lemma scanPage_inline:
  assumes "set_inv th s" "gs_enc s = encIntset \<or> gs_enc s = encListpack"
  shows "set_scanPage s c count pat = Inr (0, if c \<noteq> 0 then [] else filter (keep pat) (members s))" "\<not> pending m s c"
  using assms(2) set_each_spec [OF assms(1)] by (auto simp: set_scanPage_def pending_def)

lemma scanPage_native: "gs_enc s = encHashtable \<Longrightarrow> gs_ht s = Some h \<Longrightarrow> set_scanPage s c count pat = ht_scanPage h c count pat"
  by (simp add: set_scanPage_def ht_of_def)

lemma scanPage_part: "gs_enc s = encPartitioned \<Longrightarrow> gs_part s = Some pt \<Longrightarrow> set_scanPage s c count pat = part_scanPage pt c count pat"
  by (simp add: set_scanPage_def part_of_def)

lemma native_position:
  assumes e: "gs_enc s = encHashtable" "gs_ht s = Some h" and m: "m \<in> set (contents h)" "c = 0 \<or> pending m s c"
  shows "\<exists>i < length (contents h). contents h ! i = m \<and> (c = 0 \<or> i < unat c)"
proof (cases "c = 0")
  case True
  obtain i where "i < length (contents h)" "contents h ! i = m" using m(1) unfolding in_set_conv_nth by (elim exE conjE)
  then show ?thesis using True by (intro exI [of _ i]) simp
next
  case False
  then have "pending m s c" using m(2) by simp
  then obtain i where "i < unat c" "i < length (contents h)" "contents h ! i = m"
    unfolding pending_native [OF e] by (elim exE conjE)
  then show ?thesis by (intro exI [of _ i]) simp
qed

lemma part_position:
  assumes e: "gs_enc s = encPartitioned" "gs_part s = Some pt" and m: "m \<in> set (part_members pt)" "c = 0 \<or> pending m s c"
  shows "\<exists>p i. p < length (pt_parts pt) \<and> i < length (contents (pt_parts pt ! p)) \<and> contents (pt_parts pt ! p) ! i = m
    \<and> (c = 0 \<or> cur_gen c \<noteq> pt_pgen pt \<or> ahead p i (cur_part c) (cur_bound c))"
proof (cases "c \<noteq> 0 \<and> cur_gen c = pt_pgen pt")
  case True
  then have "pending m s c" using m(2) by simp
  then obtain p i where "p < length (pt_parts pt)" "i < length (contents (pt_parts pt ! p))" "contents (pt_parts pt ! p) ! i = m"
    "ahead p i (cur_part c) (cur_bound c)"
    using True unfolding pending_part [OF e] by (elim conjE impE exE) simp_all
  then show ?thesis by (intro exI [of _ p] exI [of _ i]) simp
next
  case False
  obtain h where "h \<in> set (pt_parts pt)" "m \<in> set (contents h)" using m(1) by (auto simp: part_members_def)
  then obtain p i where "p < length (pt_parts pt)" "pt_parts pt ! p = h" "i < length (contents h)" "contents h ! i = m"
    unfolding in_set_conv_nth by (elim exE conjE)
  then show ?thesis using False by (intro exI [of _ p] exI [of _ i]) auto
qed

lemma page_native:
  assumes native: "native_ok s h" and f: "fits (set_wb s) (set_wr s) []" and count: "0 < count"
  shows "\<exists>c' ms. set_scanPage s c count pat = Inr (c', ms) \<and> set ms \<subseteq> set (members s)
    \<and> (m \<in> set (members s) \<and> (c = 0 \<or> pending m s c) \<and> keep pat m \<longrightarrow> m \<in> set ms \<or> c' \<noteq> 0 \<and> pending m s c')"
proof -
  have e: "gs_enc s = encHashtable" "gs_ht s = Some h" "ht_inv h" using native by (simp_all add: native_ok_def)
  have n: "length (contents h) < 2 ^ 32" using contents_weight(2) [OF e(3)] f weights_native [OF native] by (simp add: fits_def)
  obtain c' ms where c': "ht_scanPage h c count pat = Inr (c', ms)" "set ms \<subseteq> set (contents h)" "unat c' < 2 ^ 40"
    "\<forall>i < length (contents h). (c = 0 \<or> i < unat c) \<and> keep pat (contents h ! i) \<longrightarrow> contents h ! i \<in> set ms \<or> i < unat c'"
    using native_page [OF e(3) n count, of c pat] by (elim exE conjE)
  have "m \<in> set ms \<or> c' \<noteq> 0 \<and> pending m s c'" if m: "m \<in> set (contents h)" "c = 0 \<or> pending m s c" "keep pat m"
  proof -
    obtain i where i: "i < length (contents h)" "contents h ! i = m" "c = 0 \<or> i < unat c"
      using native_position [OF e(1,2) m(1,2)] by (elim exE conjE)
    from c'(4) [rule_format, OF i(1)] have "m \<in> set ms \<or> i < unat c'" using i(2,3) m(3) by simp
    then show ?thesis
    proof
      assume u: "i < unat c'"
      then have "c' \<noteq> 0" by auto
      moreover have "pending m s c'" unfolding pending_native [OF e(1,2)] using c'(3) u i(1,2) by (intro conjI exI [of _ i])
      ultimately show ?thesis by simp
    qed simp
  qed
  then show ?thesis unfolding scanPage_native [OF e(1,2)] members_native [OF native]
    using c'(1,2) by (intro exI [of _ c'] exI [of _ ms]) simp
qed

lemma page_part:
  assumes part: "part_set_ok th s pt" and th: "262144 \<le> th" and f: "fits (set_wb s) (set_wr s) []" and count: "0 < count"
  shows "\<exists>c' ms. set_scanPage s c count pat = Inr (c', ms) \<and> set ms \<subseteq> set (members s)
    \<and> (m \<in> set (members s) \<and> (c = 0 \<or> pending m s c) \<and> keep pat m \<longrightarrow> m \<in> set ms \<or> c' \<noteq> 0 \<and> pending m s c')"
proof -
  have e: "gs_enc s = encPartitioned" "gs_part s = Some pt" "part_inv th pt" using part by (simp_all add: part_set_ok_def)
  have f': "fits (parts_w slab_w pt) (parts_w recs_w pt) []" using f weights_part [OF part] by simp
  obtain c' ms where c': "part_scanPage pt c count pat = Inr (c', ms)" "set ms \<subseteq> set (part_members pt)" "c' \<noteq> 0 \<longrightarrow> cur_gen c' = pt_pgen pt"
    "\<forall>p i. p < length (pt_parts pt) \<and> i < length (contents (pt_parts pt ! p))
       \<and> (c = 0 \<or> cur_gen c \<noteq> pt_pgen pt \<or> ahead p i (cur_part c) (cur_bound c)) \<and> keep pat (contents (pt_parts pt ! p) ! i) \<longrightarrow>
       contents (pt_parts pt ! p) ! i \<in> set ms \<or> c' \<noteq> 0 \<and> ahead p i (cur_part c') (cur_bound c')"
    using part_pages [OF e(3) th f' count, of c pat] by (elim exE conjE)
  have "m \<in> set ms \<or> c' \<noteq> 0 \<and> pending m s c'" if m: "m \<in> set (part_members pt)" "c = 0 \<or> pending m s c" "keep pat m"
  proof -
    obtain p i where pi: "p < length (pt_parts pt)" "i < length (contents (pt_parts pt ! p))" "contents (pt_parts pt ! p) ! i = m"
      "c = 0 \<or> cur_gen c \<noteq> pt_pgen pt \<or> ahead p i (cur_part c) (cur_bound c)"
      using part_position [OF e(1,2) m(1,2)] by (elim exE conjE)
    have "keep pat (contents (pt_parts pt ! p) ! i)" using pi(3) m(3) by simp
    with c'(4) pi(1,2,4) have "contents (pt_parts pt ! p) ! i \<in> set ms \<or> c' \<noteq> 0 \<and> ahead p i (cur_part c') (cur_bound c')" by blast
    then show ?thesis unfolding pi(3)
    proof
      assume a: "c' \<noteq> 0 \<and> ahead p i (cur_part c') (cur_bound c')"
      then have g: "cur_gen c' = pt_pgen pt" using c'(3) by simp
      have "pending m s c'" unfolding pending_part [OF e(1,2)] g
        using a pi(1-3) by (intro conjI impI exI [of _ p] exI [of _ i]) simp_all
      then show ?thesis using a by simp
    qed simp
  qed
  then show ?thesis unfolding scanPage_part [OF e(1,2)] members_part [OF part]
    using c'(1,2) by (intro exI [of _ c'] exI [of _ ms]) simp
qed

text \<open>A page of any set, at any cursor a client sends, returns members of the set.\<close>

lemma page_step:
  assumes inv: "set_inv th s" and th: "262144 \<le> th" and f: "fits (set_wb s) (set_wr s) []" and count: "0 < count"
  shows "\<exists>c' ms. set_scanPage s c count pat = Inr (c', ms) \<and> set ms \<subseteq> set (members s)
    \<and> (m \<in> set (members s) \<and> (c = 0 \<or> pending m s c) \<and> keep pat m \<longrightarrow> m \<in> set ms \<or> c' \<noteq> 0 \<and> pending m s c')"
  using inv
proof (cases rule: set_inv_cases)
  case (intset vs)
  then have "gs_enc s = encIntset \<or> gs_enc s = encListpack" by (simp add: intset_ok_def)
  from scanPage_inline [OF inv this] show ?thesis by simp
next
  case (listpack ms)
  then have "gs_enc s = encIntset \<or> gs_enc s = encListpack" by (simp add: listpack_ok_def)
  from scanPage_inline [OF inv this] show ?thesis by simp
next
  case (native h)
  then show ?thesis by (rule page_native [OF _ f count])
next
  case (part pt)
  then show ?thesis by (rule page_part [OF _ th f count])
qed

text \<open>A change of other members keeps a member ahead of the cursor.\<close>

lemma vec_keepsD: "vec_keeps m' xs ys \<Longrightarrow> i < length xs \<Longrightarrow> xs ! i \<noteq> m' \<Longrightarrow> \<exists>j \<le> i. j < length ys \<and> ys ! j = xs ! i"
  by (simp add: vec_keeps_def)

lemma pending_step:
  assumes p: "pending m s c" and b: "band_step m' s s'" and ne: "m \<noteq> m'" and g: "\<And>pt. gs_part s = Some pt \<Longrightarrow> gs_enc s = encPartitioned \<Longrightarrow> unat (pt_pgen pt) < 2 ^ 12"
    and some: "gs_enc s = encPartitioned \<Longrightarrow> gs_part s \<noteq> None"
  shows "pending m s' c"
proof (cases "gs_enc s")
  case encHashtable
  let ?xs = "contents (the (gs_ht s))"
  obtain i where i: "i < unat c" "i < length ?xs" "?xs ! i = m" and u: "unat c < 2 ^ 40"
    using p unfolding pending_def encHashtable encoding.case Let_def by blast
  show ?thesis
  proof (cases "gs_enc s'")
    case h': encHashtable
    then have "vec_keeps m' ?xs (contents (the (gs_ht s')))" using b encHashtable by (simp add: band_step_def)
    then obtain j where "j \<le> i" "j < length (contents (the (gs_ht s')))" "contents (the (gs_ht s')) ! j = m"
      using vec_keepsD [of m' ?xs _ i] i ne by auto
    then show ?thesis using h' i(1) u by (auto simp: pending_def Let_def intro!: exI [of _ j])
  next
    case p': encPartitioned
    then have "pt_pgen (the (gs_part s')) = 1" using b encHashtable by (simp add: band_step_def)
    moreover have "drop_bit 52 c = 0" using high_bit_clear [OF u] by (intro bit_word_eqI) (simp add: bit_drop_bit_eq)
    ultimately show ?thesis using p' by (simp add: pending_def Let_def)
  qed (use b encHashtable in \<open>auto simp: band_step_def\<close>)
next
  case encPartitioned
  then obtain pt where pt: "gs_part s = Some pt" "unat (pt_pgen pt) < 2 ^ 12" using some g by auto
  let ?pt' = "the (gs_part s')"
  have e': "gs_enc s' = encPartitioned" and st: "pt_pgen ?pt' = pt_pgen pt + 1 \<or> pt_pgen ?pt' = pt_pgen pt \<and> length (pt_parts ?pt') = length (pt_parts pt)
      \<and> (\<forall>i < length (pt_parts pt). vec_keeps m' (contents (pt_parts pt ! i)) (contents (pt_parts ?pt' ! i)))"
    using b encPartitioned pt(1) by (auto simp: band_step_def Let_def)
  note old = p [unfolded pending_part [OF encPartitioned pt(1)]]
  then have le: "unat (cur_gen c) \<le> unat (pt_pgen pt)" by blast
  show ?thesis
  proof (cases "pt_pgen ?pt' = pt_pgen pt + 1")
    case True
    have "unat (pt_pgen pt + 1) = unat (pt_pgen pt) + 1" using pt(2) by (subst unat_word_ariths) simp
    then have "unat (cur_gen c) < unat (pt_pgen ?pt')" using le True by simp
    then have "cur_gen c \<noteq> pt_pgen ?pt'" "unat (cur_gen c) \<le> unat (pt_pgen ?pt')" by auto
    then show ?thesis unfolding pending_def e' encoding.case Let_def by blast
  next
    case False
    then have same: "pt_pgen ?pt' = pt_pgen pt" "length (pt_parts ?pt') = length (pt_parts pt)"
      "\<forall>i < length (pt_parts pt). vec_keeps m' (contents (pt_parts pt ! i)) (contents (pt_parts ?pt' ! i))" using st by auto
    have "\<exists>q j. q < length (pt_parts ?pt') \<and> j < length (contents (pt_parts ?pt' ! q)) \<and> contents (pt_parts ?pt' ! q) ! j = m
        \<and> ahead q j (cur_part c) (cur_bound c)" if gen: "cur_gen c = pt_pgen pt"
    proof -
      obtain q i where q: "q < length (pt_parts pt)" "i < length (contents (pt_parts pt ! q))" "contents (pt_parts pt ! q) ! i = m"
        "ahead q i (cur_part c) (cur_bound c)"
        using old gen by blast
      obtain j where "j \<le> i" "j < length (contents (pt_parts ?pt' ! q))" "contents (pt_parts ?pt' ! q) ! j = m"
        using vec_keepsD [OF _ q(2), of m'] same(3) q(1,3) ne by blast
      then show ?thesis using q(1,4) same(2) by (intro exI [of _ q] exI [of _ j]) (auto simp: ahead_def)
    qed
    then show ?thesis using le unfolding pending_def e' encoding.case Let_def same(1) by blast
  qed
qed (use p in \<open>auto simp: pending_def Let_def\<close>)

section \<open>Scans\<close>

text \<open>
  A scan for pattern pat, opened with cursor 0 and continued with each returned cursor, while
  members other than m come and go: the set, the cursor to continue with and the members returned
  so far.
\<close>

inductive scanning :: "nat \<Rightarrow> bytes option \<Rightarrow> bytes \<Rightarrow> goset \<Rightarrow> u64 \<Rightarrow> bytes set \<Rightarrow> bool" for th pat m where
  first: "set_inv th s \<Longrightarrow> fits (set_wb s) (set_wr s) [] \<Longrightarrow> m \<in> set (members s) \<Longrightarrow> 0 < count \<Longrightarrow>
    set_scanPage s 0 count pat = Inr (c, ms) \<Longrightarrow> scanning th pat m s c (set ms)"
| page: "scanning th pat m s c seen \<Longrightarrow> c \<noteq> 0 \<Longrightarrow> 0 < count \<Longrightarrow> set_scanPage s c count pat = Inr (c', ms) \<Longrightarrow>
    scanning th pat m s c' (seen \<union> set ms)"
| sadd: "scanning th pat m s c seen \<Longrightarrow> fits (set_wb s) (set_wr s) [m'] \<Longrightarrow> set_add th s m' = ret (s', added) \<Longrightarrow>
    scanning th pat m s' c seen"
| srem: "scanning th pat m s c seen \<Longrightarrow> m' \<noteq> m \<Longrightarrow> set_rem s m' = ret (s', removed) \<Longrightarrow> scanning th pat m s' c seen"

definition scan_ok :: "nat \<Rightarrow> bytes option \<Rightarrow> bytes \<Rightarrow> goset \<Rightarrow> u64 \<Rightarrow> bytes set \<Rightarrow> bool" where
  "scan_ok th pat m s c seen \<longleftrightarrow> set_inv th s \<and> fits (set_wb s) (set_wr s) [] \<and> m \<in> set (members s)
     \<and> (keep pat m \<longrightarrow> m \<in> seen \<or> c \<noteq> 0 \<and> pending m s c)"

lemma scan_ok_step:
  assumes ok: "scan_ok th pat m s c seen" and th: "262144 \<le> th" and st: "set_step th m' s M n k s'"
    and f: "fits (set_wb s') (set_wr s') []" and m: "m \<in> M" "m \<noteq> m'"
  shows "scan_ok th pat m s' c seen"
proof -
  have inv: "set_inv th s" and f0: "fits (set_wb s) (set_wr s) []" using ok by (simp_all add: scan_ok_def)
  have g: "unat (pt_pgen pt) < 2 ^ 12" if "gs_part s = Some pt" "gs_enc s = encPartitioned" for pt
  proof -
    have ps: "part_set_ok th s pt"
      using inv that by (cases rule: set_inv_cases) (auto simp: intset_ok_def listpack_ok_def native_ok_def part_set_ok_def)
    then show ?thesis using part_bounds(2) [OF _ th, of pt] f0 weights_part [OF ps] by (simp add: part_set_ok_def)
  qed
  have some: "gs_enc s = encPartitioned \<Longrightarrow> gs_part s \<noteq> None"
    using inv by (cases rule: set_inv_cases) (auto simp: intset_ok_def listpack_ok_def native_ok_def part_set_ok_def)
  have "pending m s c \<Longrightarrow> pending m s' c"
    using pending_step [of m s c m' s'] st m(2) g some by (auto simp: set_step_def)
  then show ?thesis using ok st f m(1) by (auto simp: scan_ok_def set_step_def)
qed

lemma scanning_ok: "scanning th pat m s c seen \<Longrightarrow> 262144 \<le> th \<Longrightarrow> scan_ok th pat m s c seen"
proof (induction rule: scanning.induct)
  case (first s count c ms)
  then show ?case using page_step [OF first(1) first.prems first(2) first(4), of 0 pat m] by (auto simp: scan_ok_def)
next
  case (page s c seen count c' ms)
  then show ?case using page_step [of th s count c pat m] by (auto simp: scan_ok_def)
next
  case (sadd s c seen m' s' added)
  have ok: "scan_ok th pat m s c seen" by (rule sadd.IH [OF sadd.prems])
  then have inv: "set_inv th s" and ms: "m \<in> set (members s)" by (simp_all add: scan_ok_def)
  show ?case
  proof (cases "m' \<in> set (members s)")
    case True
    then show ?thesis using set_add_present [OF inv True] sadd.hyps(3) ok by simp
  next
    case False
    have th: "0 < th" using sadd.prems by simp
    obtain s1 where s1: "set_add th s m' = ret (s1, True)" "set_step th m' s (insert m' (set (members s))) (length m') 1 s1"
      by (rule set_add_absent [OF inv th False sadd.hyps(2)])
    have "fits (set_wb s1) (set_wr s1) []" using fits_tl [OF sadd.hyps(2)] s1(2) by (auto simp: set_step_def)
    then show ?thesis using scan_ok_step [OF ok sadd.prems s1(2)] ms False s1(1) sadd.hyps(3) by auto
  qed
next
  case (srem s c seen m' s' removed)
  have ok: "scan_ok th pat m s c seen" by (rule srem.IH [OF srem.prems])
  then have inv: "set_inv th s" and ms: "m \<in> set (members s)" and f: "fits (set_wb s) (set_wr s) []" by (simp_all add: scan_ok_def)
  show ?case
  proof (cases "m' \<in> set (members s)")
    case False
    then show ?thesis using set_rem_absent [OF inv False] srem.hyps(3) ok by simp
  next
    case True
    obtain s1 where s1: "set_rem s m' = ret (s1, True)" "set_step th m' s (set (members s) - {m'}) 0 0 s1"
      by (rule set_rem_present [OF inv True])
    have "fits (set_wb s1) (set_wr s1) []" using fits_mono [OF f] s1(2) by (auto simp: set_step_def)
    then show ?thesis using scan_ok_step [OF ok srem.prems s1(2)] ms srem.hyps(2,3) s1(1) by auto
  qed
qed

section \<open>The guarantee\<close>


abbreviation (input) one_member :: goset where
  "one_member \<equiv> (zero_set encListpack)\<lparr>gs_data := [1, 97, 97], gs_n := 1\<rparr>"

lemma one_member_ok: "listpack_ok one_member [[97]]"
  by (simp add: listpack_ok_def zero_set_def lp_entry_def lp_tag_def)


end
