(* ===== verification/SetProps.thy ===== *)
theory SetProps
  imports SetContract
begin

unbundle bit_operations_syntax

text \<open>
  What the set promises its commands, over all four bands: the member loops of SADD and SREM
  and the uniform draw behind SRANDMEMBER and SPOP.
\<close>

section \<open>A fresh set\<close>

lemma newSet_ok: "ParseInt m = Some v \<Longrightarrow> intset_ok (newSet m) []" "ParseInt m = None \<Longrightarrow> listpack_ok (newSet m) []"
  by (simp_all add: newSet_def zero_set_def intset_ok_def listpack_ok_def ints_sorted_def)

lemma newSet_inv: "set_inv th (newSet m)" "members (newSet m) = []"
proof -
  have "set_inv th (newSet m) \<and> members (newSet m) = []"
  proof (cases "ParseInt m")
    case None
    then show ?thesis using set_invI(2) members_listpack newSet_ok(2) by blast
  next
    case (Some v)
    then show ?thesis using set_invI(1) [OF newSet_ok(1) [OF Some]] members_intset [OF newSet_ok(1) [OF Some]] by simp
  qed
  then show "set_inv th (newSet m)" "members (newSet m) = []" by simp_all
qed

lemma newSet_weight: "set_wb (newSet m) = 0" "set_wr (newSet m) = 0"
  using newSet_inv(2) [of m] by (simp_all add: set_wb_def set_wr_def newSet_def zero_set_def split: option.splits)

section \<open>Commands\<close>

lemma card_members: "set_inv th s \<Longrightarrow> set_card s = Inr (int (card (set (members s))))"
  using set_card_spec members_distinct distinct_card by metis



section \<open>The draw\<close>

lemma pop_spec:
  assumes inv: "set_inv th s" and f: "fits (set_wb s) (set_wr s) []" and i: "i < length (members s)"
  shows "\<exists>s'. popAt s i = ret (s', members s ! i) \<and> set_inv th s' \<and> set (members s') = set (members s) - {members s ! i}"
proof -
  obtain s' where "remAt s i (members s ! i) = ret s'" "set_step th (members s ! i) s (set (members s) - {members s ! i}) 0 0 s'"
    by (rule remAt_spec [OF inv i])
  then show ?thesis by (intro exI [of _ s']) (simp add: popAt_def set_at_spec [OF inv i f] set_step_def)
qed

text \<open>
  The draw is exact in every band: the indexes below SCARD are in bijection with the members, so a uniform index
  gives a uniform member, and popOne at index i returns the member drawn at i and removes it and nothing else.
\<close>
theorem draw_exact:
  assumes inv: "set_inv th s" and f: "fits (set_wb s) (set_wr s) []"
  shows "\<exists>n. set_card s = Inr (int n) \<and> bij_betw (set_at s) {0..<n} (Inr ` set (members s))
    \<and> (\<forall>i < n. \<exists>s' m. set_at s i = Inr m \<and> popAt s i = ret (s', m) \<and> set_inv th s' \<and> set (members s') = set (members s) - {m})"
proof (rule exI [of _ "length (members s)"], intro conjI allI impI)
  let ?n = "length (members s)"
  show "set_card s = Inr (int ?n)" by (rule set_card_spec [OF inv])
  have "bij_betw (\<lambda>i. members s ! i) {..<?n} (set (members s))"
    by (rule bij_betw_nth [OF members_distinct [OF inv]]) simp_all
  then have "bij_betw (\<lambda>i. members s ! i) {0..<?n} (set (members s))" by (simp add: atLeast0LessThan)
  then have "bij_betw (\<lambda>i. Inr (members s ! i) :: err + bytes) {0..<?n} (Inr ` set (members s))"
    by (auto simp: bij_betw_def inj_on_def)
  moreover have "bij_betw (\<lambda>i. Inr (members s ! i) :: err + bytes) {0..<?n} (Inr ` set (members s)) = bij_betw (set_at s) {0..<?n} (Inr ` set (members s))"
    by (rule bij_betw_cong) (simp add: set_at_spec [OF inv _ f])
  ultimately show "bij_betw (set_at s) {0..<?n} (Inr ` set (members s))" by (simp only:)
  fix i assume i: "i < ?n"
  obtain s' where s': "popAt s i = ret (s', members s ! i)" "set_inv th s'" "set (members s') = set (members s) - {members s ! i}"
    using pop_spec [OF inv f i] by (elim exE conjE)
  show "\<exists>s' m. set_at s i = Inr m \<and> popAt s i = ret (s', m) \<and> set_inv th s' \<and> set (members s') = set (members s) - {m}"
    using set_at_spec [OF inv i f] s' by (intro exI conjI)
qed

lemma two_ints_ok: "intset_ok ((zero_set encIntset)\<lparr>gs_data := pack_lanes [- 1, 5]\<rparr>) [- 1, 5]"
  by (simp add: intset_ok_def zero_set_def ints_sorted_def)

theorem draw_exact_witness:
  "\<exists>s'. popAt ((zero_set encIntset)\<lparr>gs_data := pack_lanes [- 1, 5]\<rparr>) 0 = ret (s', itoa (- 1)) \<and> set_card s' = Inr 1"
proof -
  let ?s = "(zero_set encIntset)\<lparr>gs_data := pack_lanes [- 1, 5]\<rparr>"
  have inv: "set_inv 262144 ?s" by (rule set_invI(1) [OF two_ints_ok])
  have m: "members ?s = [itoa (- 1), itoa 5]" unfolding members_intset [OF two_ints_ok] by simp
  have f: "fits (set_wb ?s) (set_wr ?s) []" unfolding weights_intset [OF two_ints_ok]
    using itoa_length [of "- 1"] itoa_length [of 5] by (simp add: fits_def)
  have w: "\<exists>n. set_card ?s = Inr (int n) \<and> bij_betw (set_at ?s) {0..<n} (Inr ` set (members ?s))
    \<and> (\<forall>i < n. \<exists>s' m. set_at ?s i = Inr m \<and> popAt ?s i = ret (s', m) \<and> set_inv 262144 s' \<and> set (members s') = set (members ?s) - {m})"
    by (rule draw_exact [OF inv f])
  have c: "set_card ?s = Inr (int 2)" "set_at ?s 0 = Inr (itoa (- 1))"
    using set_card_spec [OF inv] set_at_spec [OF inv _ f, of 0] unfolding m by simp_all
  obtain n where n: "set_card ?s = Inr (int n)"
    "\<forall>i < n. \<exists>s' m. set_at ?s i = Inr m \<and> popAt ?s i = ret (s', m) \<and> set_inv 262144 s' \<and> set (members s') = set (members ?s) - {m}"
    using w by (elim exE conjE)
  have "(0 :: nat) < n" using n(1) c(1) by simp
  from n(2) [rule_format, OF this] obtain s' m where "set_at ?s 0 = Inr m" and
    s': "popAt ?s 0 = ret (s', m)" "set_inv 262144 s'" "set (members s') = set (members ?s) - {m}" by (elim exE conjE)
  then have d: "m = itoa (- 1)" using c(2) by simp
  have "itoa (- 1) \<noteq> itoa 5" by (simp add: itoa_def digits.simps)
  then show ?thesis using s'(1) card_members [OF s'(2)] unfolding s'(3) m d by (intro exI [of _ s']) simp
qed

end
