(* ===== verification/SetEncoding.thy ===== *)
theory SetEncoding
  imports SetProps
begin

unbundle bit_operations_syntax

text \<open>
  Which band a set is in, as OBJECT ENCODING reports it: for a set that only grew, a function of its
  members alone, whatever the order they came in.
\<close>

section \<open>The band after an insertion\<close>

lemma bindO_ret_iff: "bindO x f = ret y \<longleftrightarrow> (\<exists>z. x = ret z \<and> f z = ret y)"
  by (auto simp: bindO_def split: option.splits sum.splits)

lemma native_add_enc: "native_add s m = ret (s', b) \<Longrightarrow> gs_enc s' = gs_enc s"
  by (auto simp: native_add_def bindO_ret_iff)

lemma to_hashtable_enc:
  "intsetToHashtable s = ret s' \<Longrightarrow> gs_enc s' = encHashtable" "listpackToHashtable s = ret s' \<Longrightarrow> gs_enc s' = encHashtable"
  by (auto simp: intsetToHashtable_def listpackToHashtable_def bindO_ret_iff)

lemma via_hashtable_enc:
  "intsetToHashtable s = ret z \<Longrightarrow> native_add z m = ret (s', b) \<Longrightarrow> gs_enc s' = encHashtable"
  "listpackToHashtable s = ret z \<Longrightarrow> native_add z m = ret (s', b) \<Longrightarrow> gs_enc s' = encHashtable"
  using native_add_enc [of z m s' b] to_hashtable_enc [of s z] by simp_all

lemma addListpack_enc:
  assumes "addListpack s m = ret (s', True)"
  shows "gs_enc s' = (if gs_n s + 1 > 128 \<or> length m > 64 then encHashtable else gs_enc s)"
  using assms by (auto simp: addListpack_def bindO_ret_iff appendListpack_def dest: via_hashtable_enc split: if_splits)

lemma addIntset_enc:
  assumes ok: "intset_ok s vs" and a: "addIntset s m = ret (s', True)"
  shows "gs_enc s' = (case ParseInt m of
      None \<Rightarrow> if length vs + 1 \<le> 128 \<and> length m \<le> 64 then encListpack else encHashtable
    | Some v \<Rightarrow> if length vs + 1 > 512 then encHashtable else encIntset)"
proof -
  have n: "intsetLen s = length vs" and e: "gs_enc s = encIntset" using ok by (simp_all add: intsetLen_def intset_ok_def)
  show ?thesis
  proof (cases "ParseInt m")
    case None
    show ?thesis
    proof (cases "length vs + 1 \<le> 128 \<and> length m \<le> 64")
      case True
      then have lp: "listpack_ok (intsetToListpack s) (render vs)" by (intro intsetToListpack_ok(1) [OF ok]) simp
      have "addListpack (intsetToListpack s) m = ret (s', True)" using a True None by (simp add: addIntset_def n)
      from addListpack_enc [OF this] show ?thesis using True lp None by (simp add: listpack_ok_def)
    next
      case False
      then have "bindO (intsetToHashtable s) (\<lambda>s. native_add s m) = ret (s', True)" using a None by (auto simp: addIntset_def n)
      then show ?thesis using False None by (auto simp: bindO_ret_iff dest: via_hashtable_enc)
    qed
  next
    case (Some v)
    then show ?thesis using a e
      by (auto simp: addIntset_def n Let_def bindO_ret_iff dest: via_hashtable_enc split: if_splits)
  qed
qed

lemma native_set_add_enc:
  assumes ok: "native_ok s h" and m: "m \<notin> set (contents h)" and f: "fits (slab_w h) (recs_w h) [m]" and a: "set_add th s m = ret (s', True)"
  shows "gs_enc s' = (if length (contents h) + 1 < th then encHashtable else encPartitioned)"
proof -
  obtain h' where h': "native_add s m = ret (s\<lparr>gs_ht := Some h'\<rparr>, True)" "native_ok (s\<lparr>gs_ht := Some h'\<rparr>) h'" "contents h' = contents h @ [m]"
    by (rule native_add_spec [OF ok m f])
  have e: "gs_enc s = encHashtable" using ok by (simp add: native_ok_def)
  have "ht_card h' = length (contents h) + 1" using inv_contents(2) [of h'] h'(2,3) by (simp add: native_ok_def)
  then show ?thesis using a h'(1) e
    by (auto simp: set_add_def ht_of_def nativeToPartitioned_def bindO_ret_iff split: if_splits)
qed

lemma part_set_add_enc: "gs_enc s = encPartitioned \<Longrightarrow> set_add th s m = ret (s', b) \<Longrightarrow> gs_enc s' = encPartitioned"
  by (auto simp: set_add_def bindO_ret_iff)

section \<open>The reference encoding\<close>

definition enc_for :: "nat \<Rightarrow> bytes set \<Rightarrow> encoding" where
  "enc_for th M =
    (if card M \<le> 512 \<and> (\<forall>m \<in> M. ParseInt m \<noteq> None) then encIntset
     else if card M \<le> 128 \<and> (\<forall>m \<in> M. length m \<le> 64) then encListpack
     else if card M < th then encHashtable else encPartitioned)"

lemma enc_for_intset:
  assumes ok: "intset_ok s vs" and m: "m \<notin> set (render vs)" and a: "addIntset s m = ret (s', True)" and th: "513 < th"
  shows "gs_enc s' = enc_for th (insert m (set (render vs)))"
proof -
  have s: "ints_sorted vs" "length vs \<le> 512" using ok by (simp_all add: intset_ok_def)
  have c: "card (insert m (set (render vs))) = length vs + 1"
    using m distinct_card [OF render_distinct [OF s(1)]] by (subst card_insert_disjoint) simp_all
  have i: "\<forall>x \<in> set (render vs). ParseInt x \<noteq> None" by auto
  have l: "\<forall>x \<in> set (render vs). length x \<le> 64" using order.trans [OF itoa_length, of 64] by auto
  show ?thesis
  proof (cases "ParseInt m")
    case None
    then show ?thesis unfolding addIntset_enc [OF ok a] enc_for_def c using l s(2) th by auto
  next
    case (Some v)
    then show ?thesis unfolding addIntset_enc [OF ok a] enc_for_def c using i s(2) th by auto
  qed
qed

lemma enc_for_grow:
  assumes M: "finite M" "m \<notin> M" and n: "\<not> (card M \<le> 512 \<and> (\<forall>x \<in> M. ParseInt x \<noteq> None))"
  shows "\<not> (card (insert m M) \<le> 512 \<and> (\<forall>x \<in> insert m M. ParseInt x \<noteq> None))"
  using M n by auto

lemma enc_step:
  assumes inv: "set_inv th s" and th: "513 < th" and m: "m \<notin> set (members s)" and f: "fits (set_wb s) (set_wr s) [m]"
    and e: "gs_enc s = enc_for th (set (members s))" and a: "set_add th s m = ret (s', True)"
  shows "gs_enc s' = enc_for th (insert m (set (members s)))"
  using inv
proof (cases rule: set_inv_cases)
  case (intset vs)
  have "addIntset s m = ret (s', True)" using a intset by (simp add: set_add_def intset_ok_def)
  then show ?thesis using enc_for_intset [OF intset _ _ th] m unfolding members_intset [OF intset] by blast
next
  case (listpack ms)
  let ?M = "set ms"
  have d: "gs_enc s = encListpack" "distinct ms" "gs_n s = int (length ms)" "length ms \<le> 128" using listpack by (simp_all add: listpack_ok_def)
  have mm: "m \<notin> ?M" using m members_listpack [OF listpack] by simp
  have c: "card ?M = length ms" "card (insert m ?M) = length ms + 1" using d(2) mm by (simp_all add: distinct_card)
  have n: "\<not> (card ?M \<le> 512 \<and> (\<forall>x \<in> ?M. ParseInt x \<noteq> None))" "\<forall>x \<in> ?M. length x \<le> 64"
    using e d(1) unfolding members_listpack [OF listpack] enc_for_def by (auto split: if_splits)
  have "addListpack s m = ret (s', True)" using a d(1) by (simp add: set_add_def)
  from addListpack_enc [OF this] have "gs_enc s' = (if length ms + 1 > 128 \<or> length m > 64 then encHashtable else encListpack)"
    using d by simp
  then show ?thesis unfolding members_listpack [OF listpack] enc_for_def
    using enc_for_grow [OF _ mm n(1)] n(2) th d(4) unfolding c by auto
next
  case (native h)
  let ?M = "set (contents h)"
  have d: "gs_enc s = encHashtable" "distinct (contents h)" using native inv_contents(1) by (auto simp: native_ok_def)
  have mm: "m \<notin> ?M" using m members_native [OF native] by simp
  have c: "card ?M = length (contents h)" "card (insert m ?M) = length (contents h) + 1" using d(2) mm by (simp_all add: distinct_card)
  have n: "\<not> (card ?M \<le> 512 \<and> (\<forall>x \<in> ?M. ParseInt x \<noteq> None))" "\<not> (card ?M \<le> 128 \<and> (\<forall>x \<in> ?M. length x \<le> 64))"
    using e d(1) unfolding members_native [OF native] enc_for_def by (auto split: if_splits)
  have "\<not> (card (insert m ?M) \<le> 128 \<and> (\<forall>x \<in> insert m ?M. length x \<le> 64))" using n(2) unfolding c by auto
  then show ?thesis unfolding native_set_add_enc [OF native mm f [unfolded weights_native [OF native]] a] members_native [OF native] enc_for_def
    using enc_for_grow [OF _ mm n(1)] unfolding c by simp
next
  case (part pt)
  let ?M = "set (part_members pt)"
  have d: "gs_enc s = encPartitioned" using part by (simp add: part_set_ok_def)
  have mm: "m \<notin> ?M" using m members_part [OF part] by simp
  have n: "\<not> (card ?M \<le> 512 \<and> (\<forall>x \<in> ?M. ParseInt x \<noteq> None))" "th \<le> card ?M"
    using e d unfolding members_part [OF part] enc_for_def by (auto split: if_splits)
  have "card (insert m ?M) = card ?M + 1" using mm by simp
  then show ?thesis unfolding part_set_add_enc [OF d a] members_part [OF part] enc_for_def
    using enc_for_grow [OF _ mm n(1)] n(2) th by simp
qed

section \<open>Growing a set\<close>

lemma enc_loop:
  assumes "set_inv th s" "513 < th" "fits (set_wb s) (set_wr s) ms" "gs_enc s = enc_for th (set (members s))"
  shows "\<exists>s' ch. change_loop (set_add th) s ms = ret (s', ch) \<and> set (members s') = set (members s) \<union> set ms
    \<and> gs_enc s' = enc_for th (set (members s) \<union> set ms)"
  using assms
proof (induction ms arbitrary: s)
  case (Cons m ms)
  show ?case
  proof (cases "m \<in> set (members s)")
    case True
    have f: "fits (set_wb s) (set_wr s) ms" by (rule fits_tl [OF Cons.prems(3)]) simp_all
    from True have M: "set (members s) \<union> set (m # ms) = set (members s) \<union> set ms" by auto
    from Cons.IH [OF Cons.prems(1,2) f Cons.prems(4)] show ?thesis
      unfolding M by (auto simp: set_add_present [OF Cons.prems(1) True])
  next
    case False
    have th: "0 < th" using Cons.prems(2) by simp
    note f = fits_hd [OF Cons.prems(3)]
    obtain s1 where s1: "set_add th s m = ret (s1, True)" "set_step th m s (insert m (set (members s))) (length m) 1 s1"
      by (rule set_add_absent [OF Cons.prems(1) th False f])
    then have st: "set_inv th s1" "set (members s1) = insert m (set (members s))" "set_wb s1 \<le> set_wb s + length m" "set_wr s1 \<le> set_wr s + 1"
      by (simp_all add: set_step_def)
    have e: "gs_enc s1 = enc_for th (set (members s1))"
      unfolding st(2) by (rule enc_step [OF Cons.prems(1,2) False f Cons.prems(4) s1(1)])
    have M: "set (members s) \<union> set (m # ms) = set (members s1) \<union> set ms" using st(2) by auto
    from Cons.IH [OF st(1) Cons.prems(2) fits_tl [OF Cons.prems(3) st(3,4)] e] show ?thesis
      unfolding M by (auto simp: s1(1))
  qed
qed auto

lemma enc_first:
  assumes th: "513 < th" and a: "set_add th (newSet m) m = ret (s', True)"
  shows "gs_enc s' = enc_for th {m}"
proof (cases "ParseInt m")
  case (Some v)
  note ok = newSet_ok(1) [OF Some]
  have "addIntset (newSet m) m = ret (s', True)" using a ok by (simp add: set_add_def intset_ok_def)
  from enc_for_intset [OF ok _ this th] show ?thesis by simp
next
  case None
  note ok = newSet_ok(2) [OF None]
  then have e: "gs_enc (newSet m) = encListpack" "gs_n (newSet m) = 0" by (simp_all add: listpack_ok_def)
  have "addListpack (newSet m) m = ret (s', True)" using a e(1) by (simp add: set_add_def)
  from addListpack_enc [OF this] show ?thesis using None th e by (simp add: enc_for_def)
qed

text \<open>
  The encoding of a set built by SADD is determined by its members, in whatever order and batches they came: intset
  while they are at most 512 canonical int64 strings, else listpack while they are at most 128 of at most 64 bytes, else
  the native table below the partition threshold and the partitioned band from it on (both reported as hashtable).
\<close>
theorem sadd_encoding_exact:
  assumes th: "513 < th" and f: "fits 0 0 (m # ms)"
  shows "\<exists>s' ch. change_loop (set_add th) (newSet m) (m # ms) = ret (s', ch) \<and> set (members s') = set (m # ms)
    \<and> gs_enc s' = enc_for th (set (m # ms)) \<and>
    (encoding_String (gs_enc s') = ''intset'' \<longleftrightarrow> card (set (m # ms)) \<le> 512 \<and> (\<forall>x \<in> set (m # ms). ParseInt x \<noteq> None))"
proof -
  have th0: "0 < th" using th by simp
  have f1: "fits (set_wb (newSet m)) (set_wr (newSet m)) (m # ms)" unfolding newSet_weight by (rule f)
  have absent: "m \<notin> set (members (newSet m))" by (simp add: newSet_inv)
  obtain s1 where s1: "set_add th (newSet m) m = ret (s1, True)"
      "set_step th m (newSet m) (insert m (set (members (newSet m)))) (length m) 1 s1"
    by (rule set_add_absent [OF newSet_inv(1) th0 absent fits_hd [OF f1]])
  then have st: "set_inv th s1" "set (members s1) = {m}" "set_wb s1 \<le> set_wb (newSet m) + length m" "set_wr s1 \<le> set_wr (newSet m) + 1"
    by (simp_all add: set_step_def newSet_inv)
  have e: "gs_enc s1 = enc_for th (set (members s1))" unfolding st(2) by (rule enc_first [OF th s1(1)])
  obtain s' ch where s': "change_loop (set_add th) s1 ms = ret (s', ch)" "set (members s') = set (members s1) \<union> set ms"
      "gs_enc s' = enc_for th (set (members s1) \<union> set ms)"
    using enc_loop [OF st(1) th fits_tl [OF f1 st(3,4)] e] by (elim exE conjE)
  have M: "set (members s1) \<union> set ms = set (m # ms)" unfolding st(2) by simp
  have "encoding_String (enc_for th X) = ''intset'' \<longleftrightarrow> card X \<le> 512 \<and> (\<forall>x \<in> X. ParseInt x \<noteq> None)" for X
    unfolding enc_for_def by (simp add: encoding_String_def)
  then show ?thesis using s1(1) s'(1) s'(2,3) [unfolded M] by (intro exI [of _ s'] exI [of _ "m # ch"]) simp
qed

theorem sadd_encoding_exact_witness:
  "\<exists>s' ch. change_loop (set_add 262144) (newSet [49]) [[49], [97]] = ret (s', ch) \<and> gs_enc s' = encListpack"
proof -
  have th: "513 < (262144 :: nat)" and f: "fits 0 0 [[49], [97]]" by (simp_all add: fits_def)
  have e: "enc_for 262144 (set [[49], [97]]) = encListpack"
    by (simp add: enc_for_def ParseInt_def)
  obtain s' ch where "change_loop (set_add 262144) (newSet [49]) [[49], [97]] = ret (s', ch)" "gs_enc s' = enc_for 262144 (set [[49], [97]])"
    using sadd_encoding_exact [OF th f] by (elim exE conjE)
  then show ?thesis unfolding e by (intro exI conjI)
qed

end
