(* ===== verification/Spec2Isabelle.thy ===== *)
theory Spec2Isabelle
  imports FileProps CodecProps CommitProps Snapshot RecoveryProps ValueProps FrameProps GroupProps ToolProps ScanProps SetEncoding
begin

text \<open>
  Verification of two parts of aki: the single-file durability format, engine/f3/akifile, and the
  set collection, engine/f3/set, with the member table of engine/f3/struct below it.

  \<^bold>\<open>The file.\<close>  A .aki file is a 16KiB page zero (an immutable prefix and two meta slots that
  take turns being the live root) followed by an append space of segments on a 4KiB grid.  One
  writer appends groups of segments and numbers them with a global sequence; a checkpoint writes
  the shard root table and the extent map as segments and flips the stale meta slot;
  a snapshot is a barrier segment in the same stream.  Records, values and cold chunks are frames
  packed into the payload of log segments.  Shard owners hand sealed batches to one group-commit
  goroutine.  Recovery picks the live root, rebuilds every shard's tables from chains of full and
  delta checkpoints, and replays the tail; inspect and dump read the same structures.

  \<^bold>\<open>The set.\<close>  A set moves one way through four bands: a packed intset, a packed listpack, a native
  member table (an open-addressed table of record ordinals over a slab, with a dense draw
  vector) and a partitioned band of such tables.

  \<^bold>\<open>The theories of the file.\<close>
  \<^item> Prelude: byte strings, field access by offset (put, sub), little-endian integers, the error monad.
  \<^item> Crc32c: CRC-32C bit by bit, its linearity, and that it separates any two
    strings that differ in at most four adjacent bytes.
  \<^item> Format, Headers: format.go, prefix.go, meta.go, segment.go, and what the model uses of Go (slice, make,
    uint64 sums).
  \<^item> Rows: the loops over fixed-size rows and variable-length items, with the locales row_codec,
    total_row_codec and item_codec.  Tables, KvTtl, Checkpoints: extent.go, srt.go, barrier.go, freemap.go; metakv.go,
    ttlindex.go; segstats.go, checkpoint.go, chunkdir.go, each row or item codec an interpretation.
  \<^item> Device: the Device interface with scripted write faults; locale torn_store, interpreted by it.
  \<^item> Replay: readSegmentAt and ReplayTail; the append space as a list of segments (log_at).
  \<^item> Writer: file.go and writer.go; the abstract append (layout) and what torn groups leave.
  \<^item> FileLog, Reopen: the file invariant under AppendGroup, CreateOnDevice and OpenOnDevice.
  \<^item> Commit: commit.go, snapshot.go, ReadOpenState, ReadSRT and ReadExtentTable; Snapshot: FindBarrier and ReplayToBarrier.
  \<^item> Chains, Recovery: the checkpoint chains (locale chain_rebuild, interpreted by the index, seg-stats
    and chunk-directory rebuilders), the other root readers, Recover, CrossCheck, DeadByteAudit.
  \<^item> Varint, LogFrames, FrameWalks: the varints of encoding/binary, the frames of recordlog.go, valuelog.go,
    collectionlog.go and coldregion.go, and the walk over a run of frames (locale frame_log, interpreted by the
    three frame kinds).
  \<^item> LogRegions, RegionLemmas, RegionReads: the staging writers, point reads, walks and compactions of
    recordwriter.go, recordregion.go, valuewriter.go, valueregion.go and coldregion.go.
  \<^item> GroupCommit: groupwriter.go as a transition system (gw_step); Tools: inspect.go and dump.go.
  \<^item> FileProps, CodecProps, CommitProps, Snapshot, RecoveryProps, RegionProps, ValueProps, FrameProps,
    GroupProps, ToolProps: the properties.

  \<^bold>\<open>The theories of the set.\<close>
  \<^item> SwissTable, TableProbe, TableInv, TableOps: struct/table.go, its word arithmetic and probe order, and its operations
    over any member store (locale member_store).
  \<^item> SetTable, SetInv, SetOps: set/member.go and the hash of store/hash.go; the member band interprets member_store.
  \<^item> Decimal, SetBands, InlineSets: ParseInt of store/str.go, set/set.go and its conversions, the two packed bands.
  \<^item> SetParts, PartOps: set/partition.go.  SetModel, SetSteps, SetContract: the set over its bands as a finite
    set (locale set_band, interpreted by the native band, the partitioned band and the whole set).
  \<^item> SetScan: set/scan.go.  ScanProps, SetProps, SetEncoding: the guarantees of the scan, of the member loops
    and the draw, and of the encodings.

  \<^bold>\<open>What the lemmas show.\<close>  The append path refines an append to a list of segments, keeps it over torn writes and lost
  unsynced bytes, and reopens to it; a commit is atomic, and a checkpoint recovers to the tables its chains
  describe; a snapshot is an exact cut.  Every codec round trips, detects the corruptions its checksum can, and refuses
  malformed bytes without a panic, except where a theorem says otherwise.  The group-commit writer keeps per-shard order
  and loses nothing over every interleaving, and what a barrier that returns nil has done is stated with its
  exceptions.  The set commands are union and difference of finite sets over every band, and a scan returns every
  member that stays.

  \<^bold>\<open>Conventions and bounds.\<close>  Offsets and sequences are 64-bit words; the offset of a device call is its int64
  conversion, so one with the top bit set fails.  A Go struct is a record whose fields carry a short
  prefix.  An error is a value of err, and a run-time panic is its constructor Panic.  make panics past
  2^48 bytes, the runtime's bound, for byte slices and, by the size of an element in memory, for slices of rows.
  Offsets inside a payload are nat and their sums in the frame readers are taken modulo 2^64 (add64); go_slice
  is the bound a payload in memory obeys.  fits says that a group ends below 2^62 and that its payloads can be
  allocated; with it no offset of the append path wraps.  The decoders of roots are shown not to panic up to 2^45
  bytes, where eight times the payload still fits one allocation.  A loop of the set that may not return has the
  value None, and each theorem about it says that it returns.

  \<^bold>\<open>What is not modelled.\<close>  The os.File adapters and path wrappers are the device; report and dump printers, the cold tier,
  the algebra arrays and the escalated draw of the set, the command handlers and their reply writers, the
  resident store, the server, and the other engines of the repository are left out.
\<close>

end
